(* ===== verification/Prelude.thy ===== *)
theory Prelude
  imports Main "HOL-Library.Word" "HOL-Library.Monad_Syntax"
begin

unbundle bit_operations_syntax

text \<open>
  Shared vocabulary of the development.

  \<^item> Rust's unsigned integers \<open>u8\<close>, \<open>u16\<close>, \<open>u32\<close>, \<open>u64\<close> are words of their width.
  \<^item> \<open>i64\<close> values (prices and quantities) are \<open>int\<close>s in \<open>[-2^63, 2^63)\<close>; every
    \<open>+\<close>, \<open>-\<close>, \<open>*\<close> of the source is written with the wrap-around of the release
    profile (\<open>i64_wrap\<close>).
  \<^item> \<open>usize\<close> counts, indices and handles are \<open>nat\<close>.
  \<^item> A clock gives the \<open>k\<close>-th reading of \<open>now_nanos\<close>.
  \<^item> A panic (the release profile aborts on it) is \<open>None\<close> of an outer option.

  The generic lemmas on options, lists and wrapped sums used by the components follow.
\<close>

type_synonym u8 = "8 word"
type_synonym u16 = "16 word"
type_synonym u32 = "32 word"
type_synonym u64 = "64 word"
type_synonym i64 = int
type_synonym bytes = "8 word list"
type_synonym clock = "nat \<Rightarrow> u64"

named_theorems i64_arith \<open>rewriting of wrapped signed arithmetic\<close>
named_theorems view_simps \<open>how the logical view of a component changes under its operations\<close>

section \<open>Signed 64-bit integers\<close>

definition i64_wrap :: "int \<Rightarrow> i64" where
  "i64_wrap x = (x + 2 ^ 63) mod 2 ^ 64 - 2 ^ 63"

definition i64_ok :: "int \<Rightarrow> bool" where
  "i64_ok x \<longleftrightarrow> - (2 ^ 63) \<le> x \<and> x < 2 ^ 63"

definition i64_add :: "i64 \<Rightarrow> i64 \<Rightarrow> i64" where
  "i64_add a b = i64_wrap (a + b)"

definition i64_sub :: "i64 \<Rightarrow> i64 \<Rightarrow> i64" where
  "i64_sub a b = i64_wrap (a - b)"

definition i64_mul :: "i64 \<Rightarrow> i64 \<Rightarrow> i64" where
  "i64_mul a b = i64_wrap (a * b)"

text \<open>
  \<open>/\<close> and \<open>%\<close> truncate towards zero; \<open>rem_euclid\<close> is never negative. All three panic on
  a zero divisor and on \<open>i64::MIN\<close> by \<open>-1\<close>.
\<close>

definition i64_div_panics :: "i64 \<Rightarrow> i64 \<Rightarrow> bool" where
  "i64_div_panics a b \<longleftrightarrow> b = 0 \<or> (a = - (2 ^ 63) \<and> b = -1)"

definition i64_div :: "i64 \<Rightarrow> i64 \<Rightarrow> i64 option" where
  "i64_div a b = (if i64_div_panics a b then None else Some (sgn a * sgn b * (\<bar>a\<bar> div \<bar>b\<bar>)))"

definition i64_rem :: "i64 \<Rightarrow> i64 \<Rightarrow> i64 option" where
  "i64_rem a b = (if i64_div_panics a b then None else Some (sgn a * (\<bar>a\<bar> mod \<bar>b\<bar>)))"

definition i64_rem_euclid :: "i64 \<Rightarrow> i64 \<Rightarrow> i64 option" where
  "i64_rem_euclid a b = (if i64_div_panics a b then None else Some (a mod \<bar>b\<bar>))"

text \<open>The cast \<open>x as usize\<close> of an \<open>i64\<close> on a 64-bit target, and \<open>x as u64\<close>.\<close>

definition i64_as_usize :: "i64 \<Rightarrow> nat" where
  "i64_as_usize x = nat (x mod 2 ^ 64)"

definition i64_as_u64 :: "i64 \<Rightarrow> u64" where
  "i64_as_u64 x = word_of_int x"

lemma i64_wrap_ok [simp, intro]: "i64_ok (i64_wrap x)"
  by (simp add: i64_wrap_def i64_ok_def)

lemma i64_wrap_id [simp]: "i64_ok x \<Longrightarrow> i64_wrap x = x"
  by (simp add: i64_wrap_def i64_ok_def)

lemma i64_wrap_congI: "x mod 2 ^ 64 = y mod 2 ^ 64 \<Longrightarrow> i64_wrap x = i64_wrap y"
  unfolding i64_wrap_def by (metis mod_add_left_eq)

lemma i64_wrap_mod: "i64_wrap x mod 2 ^ 64 = x mod 2 ^ 64"
  unfolding i64_wrap_def by (simp add: mod_diff_left_eq)

lemma i64_wrap_add_left [i64_arith]: "i64_wrap (i64_wrap a + b) = i64_wrap (a + b)"
  by (rule i64_wrap_congI) (metis i64_wrap_mod mod_add_left_eq)

lemma i64_wrap_add_right [i64_arith]: "i64_wrap (a + i64_wrap b) = i64_wrap (a + b)"
  by (metis add.commute i64_wrap_add_left)

lemma i64_wrap_diff_left [i64_arith]: "i64_wrap (i64_wrap a - b) = i64_wrap (a - b)"
  using i64_wrap_add_left [of a "- b"] by simp

lemma i64_wrap_diff_right [i64_arith]: "i64_wrap (a - i64_wrap b) = i64_wrap (a - b)"
  by (rule i64_wrap_congI) (metis i64_wrap_mod mod_diff_right_eq)

lemma i64_wrap_wrap [simp]: "i64_wrap (i64_wrap a) = i64_wrap a"
  by simp

lemma i64_okI: "- (2 ^ 63) \<le> x \<Longrightarrow> x < 2 ^ 63 \<Longrightarrow> i64_ok x"
  by (simp add: i64_ok_def)

lemma i64_ok_0 [simp]: "i64_ok 0"
  by (simp add: i64_ok_def)

lemma i64_rem_pos [simp]: "0 \<le> a \<Longrightarrow> 0 < b \<Longrightarrow> i64_rem a b = Some (a mod b)"
  by (auto simp: i64_rem_def i64_div_panics_def sgn_if)

lemma i64_div_pos [simp]: "0 \<le> a \<Longrightarrow> 0 < b \<Longrightarrow> i64_div a b = Some (a div b)"
  by (auto simp: i64_div_def i64_div_panics_def sgn_if)

lemma i64_rem_euclid_pos [simp]: "0 < b \<Longrightarrow> i64_rem_euclid a b = Some (a mod b)"
  by (auto simp: i64_rem_euclid_def i64_div_panics_def)

lemma i64_as_usize_nonneg [simp]: "0 \<le> x \<Longrightarrow> i64_ok x \<Longrightarrow> i64_as_usize x = nat x"
  by (simp add: i64_as_usize_def i64_ok_def)

lemma i64_as_u64_nonneg: "0 \<le> x \<Longrightarrow> i64_ok x \<Longrightarrow> uint (i64_as_u64 x) = x"
  by (simp add: i64_as_u64_def i64_ok_def uint_word_of_int)

lemma sint_word_of_int_ok: "i64_ok x \<Longrightarrow> sint (word_of_int x :: u64) = x"
  by (simp add: i64_ok_def signed_take_bit_int_eq_self sint_sbintrunc')

lemma sint_ok [simp]: "i64_ok (sint (w :: u64))"
  using sint_range_size [of w] by (simp add: i64_ok_def word_size)

text \<open>\<open>n + w as usize\<close>: addition of 64-bit machine words.\<close>

definition usize_add :: "nat \<Rightarrow> u64 \<Rightarrow> nat" where
  "usize_add n w = unat (word_of_nat n + w)"

lemma usize_add_eq: "usize_add n w = (n + unat w) mod 2 ^ 64"
  by (simp add: usize_add_def unat_word_ariths unat_of_nat take_bit_eq_mod mod_add_left_eq)

section \<open>Saturating unsigned arithmetic\<close>

definition sat_add :: "'a::len word \<Rightarrow> 'a word \<Rightarrow> 'a word" where
  "sat_add a b = (if unat a + unat b < 2 ^ LENGTH('a) then a + b else - 1)"

definition sat_sub :: "'a::len word \<Rightarrow> 'a word \<Rightarrow> 'a word" where
  "sat_sub a b = (if a < b then 0 else a - b)"

definition sat_mul :: "'a::len word \<Rightarrow> 'a word \<Rightarrow> 'a word" where
  "sat_mul a b = (if unat a * unat b < 2 ^ LENGTH('a) then a * b else - 1)"

lemma unat_sat_sub: "unat (sat_sub a b) = unat a - unat b"
  by (auto simp: sat_sub_def unat_sub_if' word_less_nat_alt not_less)

lemma unat_max_word: "unat (- 1 :: 'a::len word) = 2 ^ LENGTH('a) - 1"
  by (simp add: unsigned_minus_1_eq_mask mask_eq_exp_minus_1)

lemma unat_sat_add: "unat (sat_add a (b :: 'a::len word)) = min (unat a + unat b) (2 ^ LENGTH('a) - 1)"
proof (cases "unat a + unat b < 2 ^ LENGTH('a)")
  case True
  then show ?thesis by (simp add: sat_add_def unat_add_lem [THEN iffD1])
next
  case False
  then show ?thesis by (simp add: sat_add_def unat_max_word)
qed

section \<open>Lists and options\<close>

lemma bind_Some_iff: "(Option.bind x f = Some y) = (\<exists>a. x = Some a \<and> f a = Some y)"
  by (cases x) simp_all

lemma last_snoc_conv: "last (xs @ [x]) = x"
  by simp

lemma dom_map_upd [simp]: "dom (m(x := map_option f (m x))) = dom m"
  by (cases "m x") (auto simp: dom_def)

lemma map_update_id: "distinct (map f xs) \<Longrightarrow> x \<in> set xs \<Longrightarrow>
    filter (\<lambda>y. f y = f x) xs = [x]"
proof (induction xs)
  case (Cons y ys)
  show ?case
  proof (cases "y = x")
    case True
    with Cons.prems have "\<forall>z\<in>set ys. f z \<noteq> f x" by (auto simp: image_iff)
    then show ?thesis using True by (simp add: filter_False)
  next
    case False
    with Cons have "f y \<noteq> f x" by (auto simp: image_iff)
    with Cons False show ?thesis by simp
  qed
qed simp

lemma sum_list_map_update:
  fixes g :: "'a \<Rightarrow> int"
  assumes "distinct xs" "x \<in> set xs"
  shows "sum_list (map (g(x := v)) xs) = sum_list (map g xs) + (v - g x)"
  using assms
proof (induction xs)
  case (Cons y ys)
  show ?case
  proof (cases "y = x")
    case True
    with Cons.prems have "sum_list (map (g(x := v)) ys) = sum_list (map g ys)"
      by (intro arg_cong [where f = sum_list] map_cong) auto
    then show ?thesis using True by (simp only: list.map sum_list.Cons fun_upd_same)
    next
    case False
    with Cons show ?thesis by simp
  qed
qed simp

lemma sum_list_map_remove:
  fixes g :: "'a \<Rightarrow> int"
  assumes "distinct xs" "x \<in> set xs"
  shows "sum_list (map g (filter (\<lambda>y. y \<noteq> x) xs)) = sum_list (map g xs) - g x"
  using assms
proof (induction xs)
  case (Cons y ys)
  show ?case
  proof (cases "y = x")
    case True
    with Cons.prems have "filter (\<lambda>y. y \<noteq> x) ys = ys" by (auto simp: filter_id_conv)
    then show ?thesis using True by simp
  next
    case False
    with Cons show ?thesis by simp
  qed
qed simp

end
