(* ===== verification/Spsc.thy ===== *)
theory Spsc
  imports Prelude
begin

text \<open>
  The single-producer single-consumer ring of \<open>src/src/spsc.rs\<close>, which connects all pipeline threads.

  \<^item> \<open>spsc\<close>, \<open>spsc_new\<close>, \<open>spsc_push\<close>, \<open>spsc_pop\<close>, \<open>spsc_len\<close>: the operations as atomic steps; \<open>head\<close> and
    \<open>tail\<close> are free-running 64-bit counters. A slot is \<open>None\<close> when it holds no initialised value (the
    read of \<open>pop\<close> moves the value out), so reading an uninitialised slot and overwriting
    a live one are both visible.
  \<^item> \<open>ring_rel q xs\<close>: the ring represents the list \<open>xs\<close>, oldest first. The locale \<open>bounded_fifo\<close> is the interface
    the pipeline relies on, interpreted on the ring.
  \<^item> \<open>conc_step\<close>: the two operations split at every shared access and interleaved
    (sequentially consistent: the acquire/release pairs order exactly these accesses); \<open>conc_inv\<close> is its
    invariant.
\<close>

record 'a spsc =
  sp_buf :: "'a option list"
  sp_mask :: u64
  sp_head :: u64
  sp_tail :: u64

text \<open>
  \<open>usize::next_power_of_two\<close>, searching upwards from \<open>2 ^ k\<close>; in the release profile a power that does
  not fit wraps to 0.
\<close>

function pow2_from :: "nat \<Rightarrow> nat \<Rightarrow> nat" where
  "pow2_from k n = (if n \<le> 2 ^ k then k else pow2_from (k + 1) n)"
  by pat_completeness auto

termination pow2_from
proof (relation "measure (\<lambda>(k, n). n - k)")
  fix k n :: nat assume "\<not> n \<le> 2 ^ k"
  then have "k < n" using less_exp [of k] by linarith
  then show "((k + 1, n), (k, n)) \<in> measure (\<lambda>(k, n). n - k)" by simp
qed simp

declare pow2_from.simps [simp del]

definition next_power_of_two :: "nat \<Rightarrow> nat" where
  "next_power_of_two n = (let k = pow2_from 0 n in if k < 64 then 2 ^ k else 0)"

definition spsc_new :: "nat \<Rightarrow> 'a spsc" where
  "spsc_new capacity =
     (let cap = max (next_power_of_two capacity) 2
      in \<lparr>sp_buf = replicate cap None, sp_mask = word_of_nat cap - 1, sp_head = 0, sp_tail = 0\<rparr>)"

definition spsc_push :: "'a spsc \<Rightarrow> 'a \<Rightarrow> 'a spsc \<times> ('a + unit)" where
  "spsc_push q v =
     (if sp_head q - sp_tail q > sp_mask q then (q, Inl v)
      else let idx = unat (sp_head q AND sp_mask q)
           in (q\<lparr>sp_buf := (sp_buf q)[idx := Some v], sp_head := sp_head q + 1\<rparr>, Inr ()))"

text \<open>\<open>assume_init_read\<close> of a slot that holds nothing is undefined behaviour: \<open>None\<close>.\<close>

definition spsc_pop :: "'a spsc \<Rightarrow> ('a spsc \<times> 'a option) option" where
  "spsc_pop q =
     (if sp_tail q = sp_head q then Some (q, None)
      else let idx = unat (sp_tail q AND sp_mask q)
           in case sp_buf q ! idx of
                None \<Rightarrow> None
              | Some v \<Rightarrow> Some (q\<lparr>sp_buf := (sp_buf q)[idx := None], sp_tail := sp_tail q + 1\<rparr>, Some v))"

definition spsc_len :: "'a spsc \<Rightarrow> u64" where
  "spsc_len q = sp_head q - sp_tail q"

section \<open>The represented list\<close>

definition cap_of :: "'a spsc \<Rightarrow> nat" where
  "cap_of q = length (sp_buf q)"

definition shape_ok :: "'a spsc \<Rightarrow> bool" where
  "shape_ok q \<longleftrightarrow> (\<exists>k. 0 < k \<and> k < 64 \<and> cap_of q = 2 ^ k \<and> sp_mask q = mask k)"

definition slot :: "'a spsc \<Rightarrow> nat \<Rightarrow> nat" where
  "slot q i = (unat (sp_tail q) + i) mod cap_of q"

definition ring_rel :: "'a spsc \<Rightarrow> 'a list \<Rightarrow> bool" where
  "ring_rel q xs \<longleftrightarrow>
     shape_ok q \<and> length xs \<le> cap_of q \<and> sp_head q = sp_tail q + word_of_nat (length xs) \<and>
     (\<forall>i < cap_of q. sp_buf q ! slot q i = (if i < length xs then Some (xs ! i) else None))"

lemma and_mask_idx:
  assumes "shape_ok q"
  shows "unat ((w :: u64) AND sp_mask q) = unat w mod cap_of q"
proof -
  obtain k where k: "k < 64" "cap_of q = 2 ^ k" "sp_mask q = mask k" using assms by (auto simp: shape_ok_def)
  have "unat (w AND mask k) = take_bit k (unat w)"
    unfolding take_bit_eq_mask [symmetric] by (rule unsigned_take_bit_eq)
  then show ?thesis using k(2,3) by (simp add: take_bit_eq_mod)
qed

lemma idx_plus:
  assumes "shape_ok q"
  shows "unat ((w :: u64) + word_of_nat n) mod cap_of q = (unat w + n) mod cap_of q"
proof -
  obtain k where k: "k < 64" "cap_of q = 2 ^ k" using assms by (auto simp: shape_ok_def)
  have "(2 :: nat) ^ k dvd 2 ^ 64" using k(1) by (intro le_imp_power_dvd) simp
  then have "x mod 2 ^ 64 mod 2 ^ k = x mod 2 ^ k" for x :: nat by (rule mod_mod_cancel)
  moreover have "unat (w + word_of_nat n) = (unat w + n) mod 2 ^ 64"
    by (simp add: unat_word_ariths unat_of_nat take_bit_eq_mod mod_add_right_eq)
  ultimately show ?thesis using k(2) by metis
qed

lemma slot_inj:
  assumes "shape_ok q" "i < cap_of q" "j < cap_of q"
  shows "slot q i = slot q j \<longleftrightarrow> i = j"
proof
  have le: "a = b" if "a \<le> b" "b < cap_of q" "slot q a = slot q b" for a b
  proof -
    have "cap_of q dvd b - a"
      using that mod_eq_dvd_iff_nat [of "unat (sp_tail q) + a" "unat (sp_tail q) + b" "cap_of q"]
      by (simp add: slot_def)
    then show ?thesis using that by (metis diff_is_0_eq dvd_imp_le le_antisym less_imp_diff_less not_less zero_less_diff)
  qed
  assume "slot q i = slot q j"
  then show "i = j" using le [of i j] le [of j i] assms by (metis nat_le_linear)
qed simp

lemma slot_less: "shape_ok q \<Longrightarrow> slot q i < cap_of q"
  by (auto simp: slot_def shape_ok_def)

lemma ring_relD:
  assumes "ring_rel q xs"
  shows "shape_ok q" "length xs \<le> cap_of q" "sp_head q = sp_tail q + word_of_nat (length xs)"
    "i < cap_of q \<Longrightarrow> sp_buf q ! slot q i = (if i < length xs then Some (xs ! i) else None)"
  using assms by (auto simp: ring_rel_def)

lemma unat_mask_u64: "k < 64 \<Longrightarrow> unat (mask k :: u64) = 2 ^ k - 1"
proof -
  assume "k < 64"
  then have "(2 :: nat) ^ k < 2 ^ 64" by (intro power_strict_increasing) simp_all
  then have "unat (word_of_nat (2 ^ k - 1) :: u64) = 2 ^ k - 1"
    by (simp add: unat_of_nat take_bit_eq_mod del: of_nat_diff)
  moreover have "(mask k :: u64) = word_of_nat (2 ^ k - 1)"
    by (simp add: mask_eq_exp_minus_1 of_nat_diff)
  ultimately show ?thesis by simp
qed

lemma ring_count:
  assumes "ring_rel q xs"
  shows "unat (sp_head q - sp_tail q) = length xs"
    "sp_head q - sp_tail q > sp_mask q \<longleftrightarrow> length xs = cap_of q"
    "sp_tail q = sp_head q \<longleftrightarrow> xs = []"
proof -
  note R = ring_relD [OF assms]
  obtain k where k: "0 < k" "k < 64" "cap_of q = 2 ^ k" "sp_mask q = mask k" using R(1) by (auto simp: shape_ok_def)
  have "(2 :: nat) ^ k < 2 ^ 64" using k(2) by (rule power_strict_increasing) simp
  then have small: "length xs < 2 ^ 64" using R(2) k(3) by linarith
  have diff: "sp_head q - sp_tail q = word_of_nat (length xs)" using R(3) by simp
  show n: "unat (sp_head q - sp_tail q) = length xs" using small by (simp add: diff unat_of_nat take_bit_eq_mod)
  have "unat (sp_mask q) = 2 ^ k - 1" using k(2,4) by (simp add: unat_mask_u64)
  moreover have "(0 :: nat) < 2 ^ k" by simp
  ultimately show "sp_head q - sp_tail q > sp_mask q \<longleftrightarrow> length xs = cap_of q"
    unfolding word_less_nat_alt n using k(3) R(2) by linarith
  have "sp_tail q = sp_head q \<longleftrightarrow> unat (sp_head q - sp_tail q) = 0"
    by (metis right_minus_eq unat_eq_zero)
  then show "sp_tail q = sp_head q \<longleftrightarrow> xs = []" using n by simp
qed

lemma head_idx:
  "ring_rel q xs \<Longrightarrow> unat (sp_head q AND sp_mask q) = slot q (length xs)"
  using ring_relD(1,3) [of q xs] by (simp add: and_mask_idx idx_plus slot_def)

lemma tail_idx: "shape_ok q \<Longrightarrow> unat (sp_tail q AND sp_mask q) = slot q 0"
  by (simp add: and_mask_idx slot_def)

lemma shape_frame [simp]:
  "shape_ok (q\<lparr>sp_buf := (sp_buf q)[i := x]\<rparr>) = shape_ok q"
  "shape_ok (q\<lparr>sp_head := h\<rparr>) = shape_ok q" "shape_ok (q\<lparr>sp_tail := t\<rparr>) = shape_ok q"
  "cap_of (q\<lparr>sp_buf := (sp_buf q)[i := x]\<rparr>) = cap_of q"
  "cap_of (q\<lparr>sp_head := h\<rparr>) = cap_of q" "cap_of (q\<lparr>sp_tail := t\<rparr>) = cap_of q"
  "slot (q\<lparr>sp_buf := (sp_buf q)[i := x]\<rparr>) j = slot q j" "slot (q\<lparr>sp_head := h\<rparr>) j = slot q j"
  by (simp_all add: shape_ok_def cap_of_def slot_def)

lemma slot_tail_Suc: "shape_ok q \<Longrightarrow> slot (q\<lparr>sp_tail := sp_tail q + 1\<rparr>) i = slot q (i + 1)"
proof -
  assume sh: "shape_ok q"
  have "unat (sp_tail q + 1) mod cap_of q = (unat (sp_tail q) + 1) mod cap_of q"
    using idx_plus [OF sh, of "sp_tail q" 1] by simp
  then have "(unat (sp_tail q + 1) + i) mod cap_of q = (unat (sp_tail q) + 1 + i) mod cap_of q"
    by (metis mod_add_left_eq)
  then show ?thesis by (simp add: slot_def add.commute add.left_commute)
qed

section \<open>The operations on the represented list\<close>

lemma push_law:
  assumes rel: "ring_rel q xs"
  shows "if length xs < cap_of q
    then \<exists>q'. spsc_push q v = (q', Inr ()) \<and> ring_rel q' (xs @ [v]) \<and> cap_of q' = cap_of q
    else spsc_push q v = (q, Inl v)"
proof (cases "length xs < cap_of q")
  case False
  then show ?thesis using ring_count(2) [OF rel] ring_relD(2) [OF rel] by (simp add: spsc_push_def)
next
  case True
  note R = ring_relD [OF rel]
  let ?q = "q\<lparr>sp_buf := (sp_buf q)[slot q (length xs) := Some v], sp_head := sp_head q + 1\<rparr>"
  have "spsc_push q v = (?q, Inr ())"
    using ring_count(2) [OF rel] head_idx [OF rel] True by (simp add: spsc_push_def)
  moreover have "sp_buf ?q ! slot q i = (if i < length (xs @ [v]) then Some ((xs @ [v]) ! i) else None)"
    if i: "i < cap_of q" for i
    using slot_inj [OF R(1) i True] slot_less [OF R(1), of "length xs"] R(4) [OF i]
    by (auto simp: nth_append nth_list_update cap_of_def)
  then have "ring_rel ?q (xs @ [v])"
    using R(1,3) True by (simp add: ring_rel_def)
  ultimately show ?thesis using True by (simp add: cap_of_def)
qed

lemma pop_law:
  assumes rel: "ring_rel q xs"
  shows "case xs of [] \<Rightarrow> spsc_pop q = Some (q, None)
    | x # ys \<Rightarrow> \<exists>q'. spsc_pop q = Some (q', Some x) \<and> ring_rel q' ys \<and> cap_of q' = cap_of q"
proof (cases xs)
  case Nil
  then show ?thesis using ring_count(3) [OF rel] by (simp add: spsc_pop_def)
next
  case (Cons x ys)
  note R = ring_relD [OF rel]
  have c0: "0 < cap_of q" using R(2) Cons by simp
  let ?q = "q\<lparr>sp_buf := (sp_buf q)[slot q 0 := None], sp_tail := sp_tail q + 1\<rparr>"
  have "sp_buf q ! slot q 0 = Some x" using R(4) [OF c0] Cons by simp
  then have pop: "spsc_pop q = Some (?q, Some x)"
    using ring_count(3) [OF rel] tail_idx [OF R(1)] Cons by (simp add: spsc_pop_def)
  have sl: "slot ?q i = slot q (i + 1)" for i
    using slot_tail_Suc [of "q\<lparr>sp_buf := (sp_buf q)[slot q 0 := None]\<rparr>" i] R(1) by simp
  have "sp_buf ?q ! slot ?q i = (if i < length ys then Some (ys ! i) else None)" if i: "i < cap_of q" for i
  proof (cases "i + 1 < cap_of q")
    case True
    then show ?thesis
      unfolding sl using slot_inj [OF R(1) True c0] R(4) [OF True] Cons by (simp add: nth_list_update)
  next
    case False
    then have "i + 1 = cap_of q" using i by simp
    then have "slot q (i + 1) = slot q 0" by (simp add: slot_def)
    then show ?thesis
      unfolding sl using slot_less [OF R(1), of 0] R(2) Cons False by (simp add: cap_of_def)
  qed
  moreover have "sp_head ?q = sp_tail ?q + word_of_nat (length ys)" using R(3) Cons by simp
  ultimately have "ring_rel ?q ys"
    using R(1,2) Cons unfolding ring_rel_def by (simp add: cap_of_def shape_ok_def)
  then show ?thesis using pop Cons by (simp add: cap_of_def)
qed

lemma pow2_from_ge: "n \<le> 2 ^ pow2_from k n"
proof (induction k n rule: pow2_from.induct)
  case (1 k n)
  then show ?case by (cases "n \<le> 2 ^ k") (simp_all add: pow2_from.simps [of k])
qed

lemma next_power_of_two_ge: "n \<le> 2 ^ 63 \<Longrightarrow> n \<le> next_power_of_two n"
proof -
  assume n: "n \<le> 2 ^ 63"
  have "pow2_from k n \<le> 63" if "k \<le> 63" for k
    using that n
  proof (induction k n rule: pow2_from.induct)
    case (1 k n)
    show ?case
    proof (cases "n \<le> 2 ^ k")
      case False
      then have "k < 63" using 1(2,3) by (metis le_neq_implies_less)
      then show ?thesis using 1(1) [OF False] 1(3) False by (simp add: pow2_from.simps [of k])
    qed (use 1(2) in \<open>simp add: pow2_from.simps\<close>)
  qed
  from this [of 0] show ?thesis using pow2_from_ge [of n 0] by (simp add: next_power_of_two_def)
qed

lemma spsc_new_rel: "ring_rel (spsc_new n) []"
proof -
  let ?cap = "max (next_power_of_two n) 2"
  obtain k where k: "0 < k" "k < 64" "?cap = 2 ^ k"
  proof (cases "1 < pow2_from 0 n \<and> pow2_from 0 n < 64")
    case True
    then have "(2 :: nat) ^ 1 \<le> 2 ^ pow2_from 0 n" by (intro power_increasing) simp_all
    then show ?thesis using that [of "pow2_from 0 n"] True by (simp add: next_power_of_two_def)
  next
    case False
    then have "pow2_from 0 n = 0 \<or> pow2_from 0 n = 1 \<or> \<not> pow2_from 0 n < 64" by linarith
    then show ?thesis using that [of 1] by (auto simp: next_power_of_two_def)
  qed
  have "shape_ok (spsc_new n :: 'a spsc)"
    unfolding shape_ok_def
    by (rule exI [of _ k]) (use k in \<open>simp add: spsc_new_def cap_of_def mask_eq_exp_minus_1 Let_def\<close>)
  moreover have "slot (spsc_new n :: 'a spsc) i < ?cap" for i
    using slot_less [OF calculation, of i] by (simp add: cap_of_def spsc_new_def Let_def)
  ultimately show ?thesis by (simp add: ring_rel_def spsc_new_def Let_def)
qed

lemma cap_of_new: "cap_of (spsc_new n) = max (next_power_of_two n) 2"
  by (simp add: cap_of_def spsc_new_def Let_def)

section \<open>Bounded FIFO queues\<close>

text \<open>
  \<open>push_with_backoff\<close>, \<open>push_blocking\<close> retry a push; between two attempts the consumer may run.
  \<open>env n\<close> is what it does to the queue between attempt \<open>n\<close> and the next one. The spin and yield hints
  (the only use of \<open>spins\<close> in \<open>push_blocking\<close>, whose attempts are therefore just counted) have no effect on the state. \<open>push_with_backoff\<close> makes at most \<open>max_spins + 1\<close> attempts; \<open>push_blocking\<close> may
  retry forever, so it is a partial function.
\<close>

function push_with_backoff :: "(u32 \<Rightarrow> 'a spsc \<Rightarrow> 'a spsc) \<Rightarrow> 'a spsc \<Rightarrow> 'a \<Rightarrow> u32 \<Rightarrow> u32 \<Rightarrow> 'a spsc \<times> ('a + unit)" where
  "push_with_backoff env q v spins max_spins =
     (case spsc_push q v of
        (q', Inr _) \<Rightarrow> (q', Inr ())
      | (q', Inl v') \<Rightarrow>
          if spins \<ge> max_spins then (q', Inl v')
          else push_with_backoff env (env spins q') v' (spins + 1) max_spins)"
  by pat_completeness auto

termination push_with_backoff
proof (relation "measure (\<lambda>(env, q, v, spins, max_spins). unat max_spins - unat spins)")
  fix spins max_spins :: u32
  assume "\<not> max_spins \<le> spins"
  then have "unat spins < unat max_spins" by (simp add: word_le_nat_alt)
  moreover have "unat max_spins < 2 ^ 32" using unsigned_less [of max_spins] by simp
  moreover have "unat (spins + 1) = (unat spins + 1) mod 2 ^ 32" by (simp add: unat_word_ariths)
  ultimately show "((env, env' spins q', v', spins + 1, max_spins), env, q, v, spins, max_spins)
    \<in> measure (\<lambda>(env, q, v, spins, max_spins). unat max_spins - unat spins)" for env env' q q' v v'
    by simp
qed simp

declare push_with_backoff.simps [simp del]

partial_function (option) push_blocking :: "(nat \<Rightarrow> 'a spsc \<Rightarrow> 'a spsc) \<Rightarrow> nat \<Rightarrow> 'a spsc \<Rightarrow> 'a \<Rightarrow> 'a spsc option" where
  "push_blocking env n q v =
     (case spsc_push q v of
        (q', Inr _) \<Rightarrow> Some q'
      | (q', Inl v') \<Rightarrow> push_blocking env (n + 1) (env n q') v')"

text \<open>A client's sequence of pops and of pushes; \<open>None\<close> is undefined behaviour of one of the pops.\<close>

primrec pops :: "('q \<Rightarrow> ('q \<times> 'a option) option) \<Rightarrow> nat \<Rightarrow> 'q \<Rightarrow> ('q \<times> 'a option list) option" where
  "pops pop 0 q = Some (q, [])"
| "pops pop (Suc n) q =
     (case pop q of None \<Rightarrow> None
      | Some (q', x) \<Rightarrow> map_option (\<lambda>(q'', xs). (q'', x # xs)) (pops pop n q'))"

primrec pushes :: "('q \<Rightarrow> 'a \<Rightarrow> 'q \<times> ('a + unit)) \<Rightarrow> 'a list \<Rightarrow> 'q \<Rightarrow> 'q \<times> ('a + unit) list" where
  "pushes push [] q = (q, [])"
| "pushes push (v # vs) q =
     (let (q', r) = push q v; (q'', rs) = pushes push vs q' in (q'', r # rs))"

text \<open>The environment of a retrying producer: it only takes values from the front.\<close>

definition consumes :: "('q \<Rightarrow> 'a list \<Rightarrow> bool) \<Rightarrow> ('q \<Rightarrow> nat) \<Rightarrow> ('q \<Rightarrow> 'q) \<Rightarrow> bool" where
  "consumes rel cap f \<longleftrightarrow> (\<forall>q xs. rel q xs \<longrightarrow> (\<exists>k. rel (f q) (drop k xs) \<and> cap (f q) = cap q))"

text \<open>
  The interface of a bounded queue: a push appends when there is room and hands the value back when there is
  none; a pop takes the oldest value. It is what every pipeline stage relies on.
\<close>

locale bounded_fifo =
  fixes rel :: "'q \<Rightarrow> 'a list \<Rightarrow> bool"
    and cap :: "'q \<Rightarrow> nat"
    and push :: "'q \<Rightarrow> 'a \<Rightarrow> 'q \<times> ('a + unit)"
    and pop :: "'q \<Rightarrow> ('q \<times> 'a option) option"
  assumes push_room: "\<And>q xs v. rel q xs \<Longrightarrow> length xs < cap q \<Longrightarrow>
      \<exists>q'. push q v = (q', Inr ()) \<and> rel q' (xs @ [v]) \<and> cap q' = cap q"
    and push_full: "\<And>q xs v. rel q xs \<Longrightarrow> \<not> length xs < cap q \<Longrightarrow> push q v = (q, Inl v)"
    and pop_empty: "\<And>q. rel q [] \<Longrightarrow> pop q = Some (q, None)"
    and pop_front: "\<And>q x xs. rel q (x # xs) \<Longrightarrow>
      \<exists>q'. pop q = Some (q', Some x) \<and> rel q' xs \<and> cap q' = cap q"
begin

lemma pushes_room:
  "rel q xs \<Longrightarrow> length xs + length vs \<le> cap q \<Longrightarrow>
   \<exists>q'. pushes push vs q = (q', replicate (length vs) (Inr ())) \<and> rel q' (xs @ vs) \<and> cap q' = cap q"
proof (induction vs arbitrary: q xs)
  case (Cons v vs)
  have "length xs < cap q" using Cons.prems(2) by simp
  then obtain q' where "push q v = (q', Inr ())" "rel q' (xs @ [v])" "cap q' = cap q"
    using push_room [OF Cons.prems(1)] by blast
  with Cons.IH [of q' "xs @ [v]"] Cons.prems(2) show ?case by auto
qed simp

lemma pops_front:
  "rel q (xs @ ys) \<Longrightarrow>
   \<exists>q'. pops pop (length xs) q = Some (q', map Some xs) \<and> rel q' ys \<and> cap q' = cap q"
proof (induction xs arbitrary: q)
  case (Cons x xs)
  then obtain q' where "pop q = Some (q', Some x)" "rel q' (xs @ ys)" "cap q' = cap q"
    using pop_front by fastforce
  with Cons.IH [of q'] show ?case by auto
qed simp

lemma fifo_roundtrip:
  assumes "rel q []" "length vs \<le> cap q"
  obtains q1 q2 where "pushes push vs q = (q1, replicate (length vs) (Inr ()))"
    "pops pop (length vs) q1 = Some (q2, map Some vs)" "rel q2 []" "pop q2 = Some (q2, None)"
    "length vs = cap q \<Longrightarrow> push q1 v = (q1, Inl v)"
proof -
  obtain q1 where q1: "pushes push vs q = (q1, replicate (length vs) (Inr ()))" "rel q1 vs" "cap q1 = cap q"
    using pushes_room [of q "[]" vs] assms by auto
  then obtain q2 where q2: "pops pop (length vs) q1 = Some (q2, map Some vs)" "rel q2 []"
    using pops_front [of q1 vs "[]"] by auto
  show thesis using that [OF q1(1) q2 pop_empty [OF q2(2)]] push_full [OF q1(2)] q1(3) by simp
qed

lemma consumed_room:
  assumes "rel q xs" "consumes rel cap f"
  obtains k where "rel (f q) (drop k xs)" "cap (f q) = cap q"
  using assms unfolding consumes_def by blast

end

interpretation spsc_fifo: bounded_fifo ring_rel cap_of spsc_push spsc_pop
proof
  show "\<exists>q'. spsc_push q v = (q', Inr ()) \<and> ring_rel q' (xs @ [v]) \<and> cap_of q' = cap_of q"
    if "ring_rel q xs" "length xs < cap_of q" for q :: "'a spsc" and xs v
    using push_law [OF that(1), of v] that(2) by simp
  show "spsc_push q v = (q, Inl v)" if "ring_rel q xs" "\<not> length xs < cap_of q" for q :: "'a spsc" and xs v
    using push_law [OF that(1), of v] that(2) by simp
  show "spsc_pop q = Some (q, None)" if "ring_rel q []" for q :: "'a spsc"
    using pop_law [OF that] by simp
  show "\<exists>q'. spsc_pop q = Some (q', Some x) \<and> ring_rel q' xs \<and> cap_of q' = cap_of q"
    if "ring_rel q (x # xs)" for q :: "'a spsc" and x xs
    using pop_law [OF that] by simp
qed

lemma backoff_law:
  assumes "ring_rel q xs" "\<And>n. consumes ring_rel cap_of (env n)"
  shows "\<exists>q' r k. push_with_backoff env q v spins max_spins = (q', r) \<and> cap_of q' = cap_of q \<and>
    (case r of Inl w \<Rightarrow> w = v \<and> ring_rel q' (drop k xs) \<and> length (drop k xs) = cap_of q'
     | Inr _ \<Rightarrow> ring_rel q' (drop k xs @ [v]))"
  using assms
proof (induction env q v spins max_spins arbitrary: xs rule: push_with_backoff.induct)
  case (1 env q v spins max_spins)
  show ?case
  proof (cases "length xs < cap_of q")
    case True
    then obtain q' where "spsc_push q v = (q', Inr ())" "ring_rel q' (xs @ [v])" "cap_of q' = cap_of q"
      using spsc_fifo.push_room [OF "1.prems"(1)] by blast
    then show ?thesis by (intro exI [of _ q'] exI [of _ "Inr ()"] exI [of _ 0]) (simp add: push_with_backoff.simps)
  next
    case False
    then have full: "spsc_push q v = (q, Inl v)" using spsc_fifo.push_full [OF "1.prems"(1)] by blast
    show ?thesis
    proof (cases "spins \<ge> max_spins")
      case True
      then show ?thesis using False ring_relD(2) [OF "1.prems"(1)] "1.prems"(1) full
        by (intro exI [of _ q] exI [of _ "Inl v"] exI [of _ 0]) (simp add: push_with_backoff.simps)
    next
      case less: False
      obtain k where k: "ring_rel (env spins q) (drop k xs)" "cap_of (env spins q) = cap_of q"
        using spsc_fifo.consumed_room [OF "1.prems"] by blast
      obtain q' r j where "push_with_backoff env (env spins q) v (spins + 1) max_spins = (q', r)"
        "cap_of q' = cap_of q"
        "case r of Inl w \<Rightarrow> w = v \<and> ring_rel q' (drop j (drop k xs)) \<and> length (drop j (drop k xs)) = cap_of q'
         | Inr _ \<Rightarrow> ring_rel q' (drop j (drop k xs) @ [v])"
        using "1.IH" [OF full [symmetric] refl less k(1) "1.prems"(2)] k(2) by auto
      then show ?thesis using full less
        by (intro exI [of _ q'] exI [of _ r] exI [of _ "j + k"])
          (simp add: push_with_backoff.simps [of env q] ac_simps split: sum.splits)
    qed
  qed
qed

lemma blocking_step:
  assumes "ring_rel q xs"
  shows "push_blocking env n q v =
    (if length xs < cap_of q then Some (fst (spsc_push q v)) else push_blocking env (n + 1) (env n q) v)"
proof (cases "length xs < cap_of q")
  case True
  then obtain q' where "spsc_push q v = (q', Inr ())" using spsc_fifo.push_room [OF assms] by blast
  then show ?thesis using True by (simp add: push_blocking.simps [of env n q])
qed (use spsc_fifo.push_full [OF assms] in \<open>simp add: push_blocking.simps [of env n q]\<close>)

text \<open>The queue after the environment's first \<open>m\<close> moves.\<close>

primrec env_run :: "(nat \<Rightarrow> 'q \<Rightarrow> 'q) \<Rightarrow> nat \<Rightarrow> nat \<Rightarrow> 'q \<Rightarrow> 'q" where
  "env_run env n 0 q = q"
| "env_run env n (Suc m) q = env_run env (n + 1) m (env n q)"

lemma blocking_law:
  assumes "ring_rel q xs" "\<And>n. consumes ring_rel cap_of (env n)"
    "ring_rel (env_run env n m q) ys" "length ys < cap_of q"
  shows "\<exists>q' k. push_blocking env n q v = Some q' \<and> ring_rel q' (drop k xs @ [v]) \<and> cap_of q' = cap_of q"
  using assms
proof (induction m arbitrary: n q xs)
  case 0
  then have "unat (sp_head q - sp_tail q) = length xs" "unat (sp_head q - sp_tail q) = length ys"
    by (auto dest: ring_count(1))
  then have room: "length xs < cap_of q" using 0 by simp
  then obtain q' where "spsc_push q v = (q', Inr ())" "ring_rel q' (xs @ [v])" "cap_of q' = cap_of q"
    using spsc_fifo.push_room [OF "0.prems"(1)] by blast
  then show ?case using blocking_step [OF "0.prems"(1), of env n v] room
    by (intro exI [of _ q'] exI [of _ 0]) simp
next
  case (Suc m)
  show ?case
  proof (cases "length xs < cap_of q")
    case True
    then obtain q' where "spsc_push q v = (q', Inr ())" "ring_rel q' (xs @ [v])" "cap_of q' = cap_of q"
      using spsc_fifo.push_room [OF Suc.prems(1)] by blast
    then show ?thesis using blocking_step [OF Suc.prems(1), of env n v] True
      by (intro exI [of _ q'] exI [of _ 0]) simp
  next
    case False
    obtain k where k: "ring_rel (env n q) (drop k xs)" "cap_of (env n q) = cap_of q"
      using spsc_fifo.consumed_room [OF Suc.prems(1,2)] by blast
    obtain q' j where "push_blocking env (n + 1) (env n q) v = Some q'"
      "ring_rel q' (drop j (drop k xs) @ [v])" "cap_of q' = cap_of q"
      using Suc.IH [OF k(1) Suc.prems(2), of "n + 1"] Suc.prems(3,4) k(2) by auto
    then show ?thesis using blocking_step [OF Suc.prems(1), of env n v] False
      by (intro exI [of _ q'] exI [of _ "j + k"]) simp
  qed
qed

section \<open>Two threads\<close>

text \<open>
  The program counters of the producer and of the consumer, between the shared accesses of \<open>push\<close>
  and \<open>pop\<close>: the counters they have loaded, the value written or moved out. \<open>tc_pushed\<close> and \<open>tc_popped\<close> record the values
  whose push and pop have completed.
\<close>

datatype 'a producer =
    P_Idle
  | P_Head 'a u64
  | P_Tail 'a u64 u64
  | P_Written 'a u64

datatype 'a consumer =
    C_Idle
  | C_Tail u64
  | C_Head u64 u64
  | C_Read u64 'a

record 'a threads =
  tc_q :: "'a spsc"
  tc_prod :: "'a producer"
  tc_cons :: "'a consumer"
  tc_pushed :: "'a list"
  tc_popped :: "'a list"

inductive conc_step :: "'a threads \<Rightarrow> 'a threads \<Rightarrow> bool" where
  load_head: "tc_prod c = P_Idle \<Longrightarrow> conc_step c (c\<lparr>tc_prod := P_Head v (sp_head (tc_q c))\<rparr>)"
| load_tail: "tc_prod c = P_Head v h \<Longrightarrow> conc_step c (c\<lparr>tc_prod := P_Tail v h (sp_tail (tc_q c))\<rparr>)"
| reject: "tc_prod c = P_Tail v h t \<Longrightarrow> h - t > sp_mask (tc_q c) \<Longrightarrow> conc_step c (c\<lparr>tc_prod := P_Idle\<rparr>)"
| write_slot: "tc_prod c = P_Tail v h t \<Longrightarrow> \<not> h - t > sp_mask (tc_q c) \<Longrightarrow>
    conc_step c (c\<lparr>tc_q := (tc_q c)\<lparr>sp_buf := (sp_buf (tc_q c))[unat (h AND sp_mask (tc_q c)) := Some v]\<rparr>,
                   tc_prod := P_Written v h\<rparr>)"
| publish: "tc_prod c = P_Written v h \<Longrightarrow>
    conc_step c (c\<lparr>tc_q := (tc_q c)\<lparr>sp_head := h + 1\<rparr>, tc_prod := P_Idle, tc_pushed := tc_pushed c @ [v]\<rparr>)"
| c_load_tail: "tc_cons c = C_Idle \<Longrightarrow> conc_step c (c\<lparr>tc_cons := C_Tail (sp_tail (tc_q c))\<rparr>)"
| c_load_head: "tc_cons c = C_Tail t \<Longrightarrow> conc_step c (c\<lparr>tc_cons := C_Head t (sp_head (tc_q c))\<rparr>)"
| c_empty: "tc_cons c = C_Head t h \<Longrightarrow> t = h \<Longrightarrow> conc_step c (c\<lparr>tc_cons := C_Idle\<rparr>)"
| read_slot: "tc_cons c = C_Head t h \<Longrightarrow> t \<noteq> h \<Longrightarrow>
    sp_buf (tc_q c) ! unat (t AND sp_mask (tc_q c)) = Some v \<Longrightarrow>
    conc_step c (c\<lparr>tc_q := (tc_q c)\<lparr>sp_buf := (sp_buf (tc_q c))[unat (t AND sp_mask (tc_q c)) := None]\<rparr>,
                   tc_cons := C_Read t v\<rparr>)"
| release: "tc_cons c = C_Read t v \<Longrightarrow>
    conc_step c (c\<lparr>tc_q := (tc_q c)\<lparr>sp_tail := t + 1\<rparr>, tc_cons := C_Idle, tc_popped := tc_popped c @ [v]\<rparr>)"

definition threads_init :: "nat \<Rightarrow> 'a threads" where
  "threads_init n = \<lparr>tc_q = spsc_new n, tc_prod = P_Idle, tc_cons = C_Idle, tc_pushed = [], tc_popped = []\<rparr>"

inductive conc_reach :: "nat \<Rightarrow> 'a threads \<Rightarrow> bool" for n where
  start: "conc_reach n (threads_init n)"
| move: "conc_reach n c \<Longrightarrow> conc_step c c' \<Longrightarrow> conc_reach n c'"

text \<open>
  The two races a faulty ring would have: the consumer is about to read a slot that holds no value, the
  producer is about to overwrite one that does.
\<close>

fun reads_uninit :: "'a threads \<Rightarrow> bool" where
  "reads_uninit c = (case tc_cons c of
     C_Head t h \<Rightarrow> t \<noteq> h \<and> sp_buf (tc_q c) ! unat (t AND sp_mask (tc_q c)) = None
   | _ \<Rightarrow> False)"

fun overwrites_live :: "'a threads \<Rightarrow> bool" where
  "overwrites_live c = (case tc_prod c of
     P_Tail v h t \<Rightarrow> \<not> h - t > sp_mask (tc_q c) \<and> sp_buf (tc_q c) ! unat (h AND sp_mask (tc_q c)) \<noteq> None
   | _ \<Rightarrow> False)"

text \<open>
  The invariant over the published but not yet released values \<open>xs\<close>. A tail the producer has loaded may
  be stale, and so may a head the consumer has loaded; both are so on the safe side.
\<close>

fun prod_ok :: "'a spsc \<Rightarrow> 'a list \<Rightarrow> 'a producer \<Rightarrow> bool" where
  "prod_ok q xs P_Idle = True"
| "prod_ok q xs (P_Head v h) = (h = sp_head q)"
| "prod_ok q xs (P_Tail v h t) = (h = sp_head q \<and> length xs \<le> unat (h - t))"
| "prod_ok q xs (P_Written v h) = (h = sp_head q \<and> length xs < cap_of q)"

fun cons_ok :: "'a spsc \<Rightarrow> 'a list \<Rightarrow> 'a consumer \<Rightarrow> bool" where
  "cons_ok q xs C_Idle = True"
| "cons_ok q xs (C_Tail t) = (t = sp_tail q)"
| "cons_ok q xs (C_Head t h) = (t = sp_tail q \<and> unat (h - t) \<le> length xs)"
| "cons_ok q xs (C_Read t v) = (t = sp_tail q \<and> (\<exists>ys. xs = v # ys))"

definition slot_content :: "'a list \<Rightarrow> 'a producer \<Rightarrow> 'a consumer \<Rightarrow> nat \<Rightarrow> 'a option" where
  "slot_content xs p c i =
     (if i < length xs then (case c of C_Read _ _ \<Rightarrow> if i = 0 then None else Some (xs ! i) | _ \<Rightarrow> Some (xs ! i))
      else if i = length xs then (case p of P_Written v _ \<Rightarrow> Some v | _ \<Rightarrow> None)
      else None)"

definition conc_inv :: "'a threads \<Rightarrow> 'a list \<Rightarrow> bool" where
  "conc_inv c xs \<longleftrightarrow>
     shape_ok (tc_q c) \<and> length xs \<le> cap_of (tc_q c) \<and>
     sp_head (tc_q c) = sp_tail (tc_q c) + word_of_nat (length xs) \<and>
     tc_pushed c = tc_popped c @ xs \<and>
     prod_ok (tc_q c) xs (tc_prod c) \<and> cons_ok (tc_q c) xs (tc_cons c) \<and>
     (\<forall>i < cap_of (tc_q c). sp_buf (tc_q c) ! slot (tc_q c) i = slot_content xs (tc_prod c) (tc_cons c) i)"

lemma conc_invD:
  assumes "conc_inv c xs"
  shows "shape_ok (tc_q c)" "length xs \<le> cap_of (tc_q c)"
    "sp_head (tc_q c) = sp_tail (tc_q c) + word_of_nat (length xs)" "tc_pushed c = tc_popped c @ xs"
    "prod_ok (tc_q c) xs (tc_prod c)" "cons_ok (tc_q c) xs (tc_cons c)"
    "i < cap_of (tc_q c) \<Longrightarrow> sp_buf (tc_q c) ! slot (tc_q c) i = slot_content xs (tc_prod c) (tc_cons c) i"
  using assms by (auto simp: conc_inv_def)

lemma shape_bounds:
  assumes "shape_ok q"
  shows "cap_of q < 2 ^ 64" "n \<le> cap_of q \<Longrightarrow> unat (word_of_nat n :: u64) = n"
    "w > sp_mask q \<longleftrightarrow> cap_of q \<le> unat w"
proof -
  obtain k where k: "k < 64" "cap_of q = 2 ^ k" "sp_mask q = mask k" using assms by (auto simp: shape_ok_def)
  show small: "cap_of q < 2 ^ 64" unfolding k(2) using k(1) by (rule power_strict_increasing) simp
  show "unat (word_of_nat n :: u64) = n" if "n \<le> cap_of q"
    using that small by (simp add: unat_of_nat take_bit_eq_mod)
  have "unat (sp_mask q) = 2 ^ k - 1" using k(1,3) by (simp add: unat_mask_u64)
  moreover have "(0 :: nat) < 2 ^ k" by simp
  ultimately show "w > sp_mask q \<longleftrightarrow> cap_of q \<le> unat w"
    unfolding word_less_nat_alt k(2) by linarith
qed

lemma inv_count:
  assumes "conc_inv c xs"
  shows "unat (sp_head (tc_q c) - sp_tail (tc_q c)) = length xs"
  using conc_invD(3) [OF assms] shape_bounds(2) [OF conc_invD(1,2) [OF assms]] by simp

lemma inv_write:
  assumes I: "conc_inv c xs" and p: "tc_prod c = P_Tail v h t" and room: "\<not> h - t > sp_mask (tc_q c)"
  shows "length xs < cap_of (tc_q c)" "unat (h AND sp_mask (tc_q c)) = slot (tc_q c) (length xs)"
    "sp_buf (tc_q c) ! slot (tc_q c) (length xs) = None"
proof -
  note D = conc_invD [OF I]
  have h: "h = sp_head (tc_q c)" "length xs \<le> unat (h - t)" using D(5) p by auto
  show len: "length xs < cap_of (tc_q c)" using room h(2) shape_bounds(3) [OF D(1), of "h - t"] by linarith
  show "unat (h AND sp_mask (tc_q c)) = slot (tc_q c) (length xs)"
    using D(1,3) h(1) by (simp add: and_mask_idx idx_plus slot_def)
  show "sp_buf (tc_q c) ! slot (tc_q c) (length xs) = None" using D(7) [OF len] p by (simp add: slot_content_def)
qed

lemma inv_read:
  assumes I: "conc_inv c xs" and c: "tc_cons c = C_Head t h" and ne: "t \<noteq> h"
  obtains x ys where "xs = x # ys" "unat (t AND sp_mask (tc_q c)) = slot (tc_q c) 0"
    "sp_buf (tc_q c) ! slot (tc_q c) 0 = Some x"
proof -
  note D = conc_invD [OF I]
  have t: "t = sp_tail (tc_q c)" "unat (h - t) \<le> length xs" using D(6) c by auto
  have "h - t \<noteq> 0" using ne by simp
  then have "0 < unat (h - t)" by (simp add: unat_gt_0)
  then obtain x ys where xs: "xs = x # ys" using t(2) by (cases xs) auto
  then have "0 < cap_of (tc_q c)" using D(2) by simp
  from D(7) [OF this] show thesis using that [OF xs] tail_idx [OF D(1)] t(1) xs c by (simp add: slot_content_def)
qed

lemma conc_inv_write:
  assumes I: "conc_inv c xs" and p: "tc_prod c = P_Tail v h t" and room: "\<not> h - t > sp_mask (tc_q c)"
  shows "conc_inv (c\<lparr>tc_q := (tc_q c)\<lparr>sp_buf := (sp_buf (tc_q c))[unat (h AND sp_mask (tc_q c)) := Some v]\<rparr>,
                     tc_prod := P_Written v h\<rparr>) xs"
proof -
  note D = conc_invD [OF I] and W = inv_write [OF I p room]
  let ?b = "(sp_buf (tc_q c))[slot (tc_q c) (length xs) := Some v]"
  have "?b ! slot (tc_q c) i = slot_content xs (P_Written v h) (tc_cons c) i" if i: "i < cap_of (tc_q c)" for i
    using slot_inj [OF D(1) i W(1)] slot_less [OF D(1), of "length xs"] D(7) [OF i] p
    by (auto simp: slot_content_def nth_list_update cap_of_def)
  moreover have "cons_ok (tc_q c\<lparr>sp_buf := b\<rparr>) xs (tc_cons c)" for b using D(6) by (cases "tc_cons c") simp_all
  ultimately show ?thesis using D p W(1,2) unfolding conc_inv_def by simp
qed

lemma conc_inv_publish:
  assumes I: "conc_inv c xs" and p: "tc_prod c = P_Written v h"
  shows "conc_inv (c\<lparr>tc_q := (tc_q c)\<lparr>sp_head := h + 1\<rparr>, tc_prod := P_Idle, tc_pushed := tc_pushed c @ [v]\<rparr>)
           (xs @ [v])"
proof -
  note D = conc_invD [OF I]
  have h: "h = sp_head (tc_q c)" "length xs < cap_of (tc_q c)" using D(5) p by simp_all
  have "slot_content (xs @ [v]) P_Idle (tc_cons c) i = slot_content xs (P_Written v h) (tc_cons c) i" for i
    using D(6) by (cases "tc_cons c") (auto simp: slot_content_def nth_append)
  moreover have "cons_ok (tc_q c\<lparr>sp_head := x\<rparr>) (xs @ [v]) (tc_cons c)" for x
    using D(6) by (cases "tc_cons c") auto
  ultimately show ?thesis using D h p unfolding conc_inv_def by simp
qed

lemma conc_inv_read:
  assumes I: "conc_inv c xs" and c: "tc_cons c = C_Head t h" and ne: "t \<noteq> h"
    and v: "sp_buf (tc_q c) ! unat (t AND sp_mask (tc_q c)) = Some v"
  shows "conc_inv (c\<lparr>tc_q := (tc_q c)\<lparr>sp_buf := (sp_buf (tc_q c))[unat (t AND sp_mask (tc_q c)) := None]\<rparr>,
                     tc_cons := C_Read t v\<rparr>) xs"
proof -
  note D = conc_invD [OF I]
  obtain x ys where R: "xs = x # ys" "unat (t AND sp_mask (tc_q c)) = slot (tc_q c) 0"
      "sp_buf (tc_q c) ! slot (tc_q c) 0 = Some x"
    using inv_read [OF I c ne] .
  have x: "x = v" using v R(2,3) by simp
  have c0: "0 < cap_of (tc_q c)" using R(1) D(2) by simp
  let ?b = "(sp_buf (tc_q c))[slot (tc_q c) 0 := None]"
  have "?b ! slot (tc_q c) i = slot_content xs (tc_prod c) (C_Read t v) i" if i: "i < cap_of (tc_q c)" for i
    using slot_inj [OF D(1) i c0] slot_less [OF D(1), of 0] D(7) [OF i] c R(1)
    by (auto simp: slot_content_def nth_list_update cap_of_def)
  moreover have "prod_ok (tc_q c\<lparr>sp_buf := ?b\<rparr>) xs (tc_prod c)" using D(5) by (cases "tc_prod c") simp_all
  ultimately show ?thesis using D c R x unfolding conc_inv_def by simp
qed

lemma conc_inv_release:
  assumes I: "conc_inv c xs" and c: "tc_cons c = C_Read t v"
  shows "conc_inv (c\<lparr>tc_q := (tc_q c)\<lparr>sp_tail := t + 1\<rparr>, tc_cons := C_Idle, tc_popped := tc_popped c @ [v]\<rparr>) (tl xs)"
proof -
  note D = conc_invD [OF I]
  obtain ys where t: "t = sp_tail (tc_q c)" and xs: "xs = v # ys" using D(6) c by auto
  have content: "sp_buf (tc_q c) ! slot (tc_q c) (i + 1) = slot_content ys (tc_prod c) C_Idle i"
    if i: "i < cap_of (tc_q c)" for i
  proof (cases "i + 1 < cap_of (tc_q c)")
    case True
    show ?thesis using D(7) [OF True] c xs by (cases "tc_prod c") (simp_all add: slot_content_def)
  next
    case False
    then have i1: "i + 1 = cap_of (tc_q c)" using i by simp
    then have "slot (tc_q c) (i + 1) = slot (tc_q c) 0" by (simp add: slot_def)
    moreover have "0 < cap_of (tc_q c)" using i by linarith
    ultimately show ?thesis using D(7) [of 0] D(2,5) c xs i1
      by (cases "tc_prod c") (simp_all add: slot_content_def)
  qed
  moreover have "prod_ok (tc_q c\<lparr>sp_tail := x\<rparr>) ys (tc_prod c)" for x
    using D(5) xs by (cases "tc_prod c") simp_all
  ultimately show ?thesis using D t xs slot_tail_Suc [OF D(1)] unfolding conc_inv_def by simp
qed

lemma conc_inv_step:
  assumes "conc_step c c'" "conc_inv c xs"
  shows "\<exists>ys. conc_inv c' ys"
  using assms
proof cases
  case (write_slot v h t)
  then show ?thesis using conc_inv_write [OF assms(2)] by blast
next
  case (publish v h)
  then show ?thesis using conc_inv_publish [OF assms(2)] by blast
next
  case (read_slot t h v)
  then show ?thesis using conc_inv_read [OF assms(2)] by blast
next
  case (release t v)
  then show ?thesis using conc_inv_release [OF assms(2)] by blast
qed (use assms(2) inv_count [OF assms(2)] in \<open>auto simp: conc_inv_def slot_content_def intro!: exI [of _ xs]\<close>)

lemma conc_reach_inv: "conc_reach n c \<Longrightarrow> \<exists>xs. conc_inv c xs \<and> cap_of (tc_q c) = max (next_power_of_two n) 2"
proof (induction rule: conc_reach.induct)
  case start
  have "ring_rel (spsc_new n :: 'a spsc) []" by (rule spsc_new_rel)
  then show ?case
    by (intro exI [of _ "[]"]) (simp add: conc_inv_def threads_init_def ring_rel_def slot_content_def cap_of_new)
next
  case (move c c')
  moreover have "cap_of (tc_q c') = cap_of (tc_q c)" using move(2) by cases (simp_all add: cap_of_def)
  ultimately show ?case using conc_inv_step by auto
qed

section \<open>Properties\<close>

text \<open>
  C8: However the producer and the consumer interleave, the values taken out are a prefix of the values put in, in
  the same order, at most the capacity is in flight, the consumer never reads a slot that holds no
  value and the producer never overwrites one that does.
\<close>

theorem spsc_concurrent_fifo:
  assumes "conc_reach n c"
  shows "(\<exists>xs. tc_pushed c = tc_popped c @ xs \<and> length xs \<le> max (next_power_of_two n) 2) \<and>
    \<not> reads_uninit c \<and> \<not> overwrites_live c"
proof (intro conjI)
  obtain xs where I: "conc_inv c xs" and cap: "cap_of (tc_q c) = max (next_power_of_two n) 2"
    using conc_reach_inv [OF assms] by blast
  show "\<exists>xs. tc_pushed c = tc_popped c @ xs \<and> length xs \<le> max (next_power_of_two n) 2"
    using conc_invD(2,4) [OF I] cap by auto
  have "sp_buf (tc_q c) ! unat (t AND sp_mask (tc_q c)) \<noteq> None" if "tc_cons c = C_Head t h" "t \<noteq> h" for t h
    by (rule inv_read [OF I that]) simp
  then show "\<not> reads_uninit c" by (auto split: consumer.splits)
  have "sp_buf (tc_q c) ! unat (h AND sp_mask (tc_q c)) = None"
    if "tc_prod c = P_Tail v h t" "\<not> h - t > sp_mask (tc_q c)" for v h t
    using inv_write(2,3) [OF I that] by simp
  then show "\<not> overwrites_live c" by (cases "tc_prod c") (simp_all, metis not_less)
qed

lemma conc_demo:
  "conc_reach 2 \<lparr>tc_q = (spsc_new 2)\<lparr>sp_buf := [Some 7, None], sp_head := 1\<rparr>, tc_prod = P_Idle, tc_cons = C_Head 0 1,
     tc_pushed = [7 :: nat], tc_popped = []\<rparr>"
proof -
  let ?q0 = "spsc_new 2 :: nat spsc"
  have new: "?q0 = \<lparr>sp_buf = [None, None], sp_mask = 1, sp_head = 0, sp_tail = 0\<rparr>"
    by (simp add: spsc_new_def next_power_of_two_def pow2_from.simps numeral_2_eq_2)
  have c0: "conc_reach 2 (threads_init 2 :: nat threads)" by (rule start)
  note c1 = move [OF c0 load_head [where v = 7]]
  note c2 = move [OF c1 load_tail [where v = 7 and h = 0]]
  note c3 = move [OF c2 write_slot [where v = 7 and h = 0 and t = 0]]
  note c4 = move [OF c3 publish [where v = 7 and h = 0]]
  note c5 = move [OF c4 c_load_tail]
  note c6 = move [OF c5 c_load_head [where t = 0]]
  show ?thesis using c6 by (simp add: threads_init_def new)
qed

theorem spsc_concurrent_fifo_witness:
  "\<exists>c :: nat threads. conc_reach 2 c \<and> tc_cons c = C_Head 0 1 \<and> \<not> reads_uninit c \<and>
     (\<exists>xs. tc_pushed c = tc_popped c @ xs \<and> length xs \<le> max (next_power_of_two 2) 2)"
  using conc_demo spsc_concurrent_fifo [OF conc_demo] by (intro exI conjI) (rule conc_demo, auto)

text \<open>
  A fresh ring of capacity \<open>cap\<close> (the requested capacity rounded up to a power of two, at least 2) accepts any
  \<open>cap\<close> values, refuses the next one and hands it back, returns the accepted values in the order of
  their pushes and is then empty.
\<close>

theorem spsc_roundtrip:
  fixes vs :: "'a list" and n
  defines "q0 \<equiv> spsc_new n :: 'a spsc"
  assumes "length vs \<le> cap_of q0"
  shows "\<exists>q1 q2. pushes spsc_push vs q0 = (q1, replicate (length vs) (Inr ())) \<and>
    pops spsc_pop (length vs) q1 = Some (q2, map Some vs) \<and> spsc_pop q2 = Some (q2, None) \<and> spsc_len q2 = 0 \<and>
    (length vs = cap_of q0 \<longrightarrow> spsc_push q1 v = (q1, Inl v))"
proof (rule spsc_fifo.fifo_roundtrip [OF _ assms(2)])
  show "ring_rel q0 []" unfolding q0_def by (rule spsc_new_rel)
  fix q1 q2
  assume *: "pushes spsc_push vs q0 = (q1, replicate (length vs) (Inr ()))"
    "pops spsc_pop (length vs) q1 = Some (q2, map Some vs)" "ring_rel q2 []" "spsc_pop q2 = Some (q2, None)"
    "length vs = cap_of q0 \<Longrightarrow> spsc_push q1 v = (q1, Inl v)"
  then have "spsc_len q2 = 0" using ring_relD(3) [of q2 "[]"] by (simp add: spsc_len_def)
  with * show ?thesis by blast
qed

theorem spsc_roundtrip_witness:
  "\<exists>q1 q2. pushes spsc_push [1, 2, 3, 4 :: nat] (spsc_new 3) = (q1, replicate 4 (Inr ())) \<and>
     pops spsc_pop 4 q1 = Some (q2, map Some [1, 2, 3, 4]) \<and> spsc_push q1 5 = (q1, Inl 5)"
proof -
  have cap: "cap_of (spsc_new 3 :: nat spsc) = 4"
    by (simp add: cap_of_new next_power_of_two_def pow2_from.simps)
  have len: "length [1, 2, 3, 4 :: nat] = 4" by simp
  show ?thesis
    using spsc_roundtrip [of "[1, 2, 3, 4 :: nat]" 3 5] unfolding cap len by blast
qed

text \<open>
  \<open>push_with_backoff\<close> always returns. While the consumer only takes values from the front, either the
  value was appended behind the values still in the queue, or the queue was full at the last attempt, nothing
  was appended and the same value is handed back.
\<close>

theorem push_with_backoff_correct:
  assumes "ring_rel q xs" "\<And>n. consumes ring_rel cap_of (env n)"
  shows "\<exists>q' r k. push_with_backoff env q v 0 max_spins = (q', r) \<and> cap_of q' = cap_of q \<and>
    (case r of Inl w \<Rightarrow> w = v \<and> ring_rel q' (drop k xs) \<and> length (drop k xs) = cap_of q'
     | Inr _ \<Rightarrow> ring_rel q' (drop k xs @ [v]))"
  using assms by (rule backoff_law)

lemma consumes_id: "consumes rel cap (\<lambda>q. q)"
  unfolding consumes_def by (metis drop_0)

theorem push_with_backoff_correct_witness:
  "\<exists>q' r k. push_with_backoff (\<lambda>_ q. q) (spsc_new 2) (7 :: nat) 0 1024 = (q', r) \<and> cap_of q' = cap_of (spsc_new 2 :: nat spsc) \<and>
    (case r of Inl w \<Rightarrow> w = 7 \<and> ring_rel q' (drop k []) \<and> length (drop k ([] :: nat list)) = cap_of q'
     | Inr _ \<Rightarrow> ring_rel q' (drop k [] @ [7]))"
  using push_with_backoff_correct [OF spsc_new_rel [of 2] consumes_id] .

text \<open>
  \<open>push_blocking\<close> returns as soon as the consumer ever leaves room, and has then appended its value behind
  the values still in the queue: no value is dropped.
\<close>

theorem push_blocking_live:
  assumes "ring_rel q xs" "\<And>n. consumes ring_rel cap_of (env n)"
    "ring_rel (env_run env 0 m q) ys" "length ys < cap_of q"
  shows "\<exists>q' k. push_blocking env 0 q v = Some q' \<and> ring_rel q' (drop k xs @ [v])"
  using blocking_law [OF assms] by blast

lemma consumes_pop: "consumes ring_rel cap_of (\<lambda>q. case spsc_pop q of None \<Rightarrow> q | Some (q', _) \<Rightarrow> q')"
  unfolding consumes_def
proof (intro allI impI)
  fix q :: "'a spsc" and xs
  assume R: "ring_rel q xs"
  show "\<exists>k. ring_rel (case spsc_pop q of None \<Rightarrow> q | Some (q', _) \<Rightarrow> q') (drop k xs) \<and>
      cap_of (case spsc_pop q of None \<Rightarrow> q | Some (q', _) \<Rightarrow> q') = cap_of q"
  proof (cases xs)
    case Nil
    then show ?thesis using spsc_fifo.pop_empty [of q] R by auto
  next
    case (Cons y ys)
    then show ?thesis using spsc_fifo.pop_front [of q y ys] R by (auto intro: exI [of _ 1])
  qed
qed

theorem push_blocking_live_witness:
  "\<exists>q1 q' k. pushes spsc_push [1, 2 :: nat] (spsc_new 2) = (q1, [Inr (), Inr ()]) \<and>
     push_blocking (\<lambda>_ q. case spsc_pop q of None \<Rightarrow> q | Some (q', _) \<Rightarrow> q') 0 q1 3 = Some q' \<and>
     ring_rel q' (drop k [1, 2] @ [3])"
proof -
  have cap: "cap_of (spsc_new 2 :: nat spsc) = 2"
    by (simp add: cap_of_new next_power_of_two_def pow2_from.simps)
  obtain q1 where q1: "pushes spsc_push [1, 2 :: nat] (spsc_new 2) = (q1, [Inr (), Inr ()])" "ring_rel q1 [1, 2]"
      "cap_of q1 = 2"
    using spsc_fifo.pushes_room [OF spsc_new_rel [of 2], of "[1, 2 :: nat]"] cap by (auto simp: eval_nat_numeral)
  let ?pop = "\<lambda>(n :: nat) (q :: nat spsc). case spsc_pop q of None \<Rightarrow> q | Some (q', _) \<Rightarrow> q'"
  obtain q2 where "spsc_pop q1 = Some (q2, Some 1)" "ring_rel q2 [2]"
    using spsc_fifo.pop_front [OF q1(2)] by blast
  then have "ring_rel (env_run ?pop 0 1 q1) [2]" by simp
  from push_blocking_live [OF q1(2) consumes_pop this, of 3] q1(1,3) show ?thesis by auto
qed

end
