(* ===== verification/Market_Event.thy ===== *)
theory Market_Event
  imports Prelude
begin

text \<open>
  The engine's event vocabulary (\<open>Side\<close> and \<open>Event\<close> of \<open>src/src/parser.rs\<close>), shared
  by the decoders, the order book and the publisher.
\<close>

datatype side = Bid | Ask

datatype event =
    Add (ev_order_id: u64) (ev_instr: u32) (ev_px: i64) (ev_qty: i64) (ev_side: side)
  | Mod (ev_order_id: u64) (ev_qty: i64)
  | Del (ev_order_id: u64)
  | Trade (ev_instr: u32) (ev_px: i64) (ev_qty: i64)
      (ev_maker: "u64 option") (ev_taker: "side option")
  | Heartbeat

text \<open>Every \<open>i64\<close> field of an event is in range.\<close>

fun event_ok :: "event \<Rightarrow> bool" where
  "event_ok (Add _ _ px qty _) = (i64_ok px \<and> i64_ok qty)"
| "event_ok (Mod _ qty) = i64_ok qty"
| "event_ok (Del _) = True"
| "event_ok (Trade _ px qty _ _) = (i64_ok px \<and> i64_ok qty)"
| "event_ok Heartbeat = True"

fun opposite :: "side \<Rightarrow> side" where
  "opposite Bid = Ask"
| "opposite Ask = Bid"

lemma all_sides: "(\<forall>s. P s) \<longleftrightarrow> P Bid \<and> P Ask"
  by (metis side.exhaust)

lemma opposite_opposite [simp]: "opposite (opposite s) = s"
  by (cases s) simp_all

lemma opposite_neq [simp]: "opposite s \<noteq> s"
  by (cases s) simp_all

text \<open>Bids are ranked from the highest price down, asks from the lowest price up.\<close>

definition better :: "side \<Rightarrow> i64 \<Rightarrow> i64 \<Rightarrow> bool" where
  "better s p q = (case s of Bid \<Rightarrow> q < p | Ask \<Rightarrow> p < q)"

lemma better_side: "better Bid = (\<lambda>p q. q < p)" "better Ask = (<)"
  by (simp_all add: better_def fun_eq_iff)

end
