(* ===== verification/Bytes.thy ===== *)
theory Bytes
  imports Market_Event
begin

text \<open>
  Byte strings as the decoders and encoders of \<open>src/src\<close> use them: \<open>from_le_bytes\<close>,
  \<open>from_be_bytes\<close> and their inverses at any width, checked slicing and indexing (out of range is
  a panic, \<open>None\<close>), with the round trips between numbers and bytes.
\<close>

fun le_val :: "bytes \<Rightarrow> nat" where
  "le_val [] = 0"
| "le_val (b # bs) = unat b + 256 * le_val bs"

definition be_val :: "bytes \<Rightarrow> nat" where
  "be_val bs = le_val (rev bs)"

fun le_enc :: "nat \<Rightarrow> nat \<Rightarrow> bytes" where
  "le_enc 0 v = []"
| "le_enc (Suc n) v = word_of_nat (v mod 256) # le_enc n (v div 256)"

definition be_enc :: "nat \<Rightarrow> nat \<Rightarrow> bytes" where
  "be_enc n v = rev (le_enc n v)"

definition from_le :: "bytes \<Rightarrow> 'a::len word" where
  "from_le bs = word_of_nat (le_val bs)"

definition from_be :: "bytes \<Rightarrow> 'a::len word" where
  "from_be bs = word_of_nat (be_val bs)"

definition to_le :: "'a::len word \<Rightarrow> bytes" where
  "to_le w = le_enc (LENGTH('a) div 8) (unat w)"

definition to_be :: "'a::len word \<Rightarrow> bytes" where
  "to_be w = be_enc (LENGTH('a) div 8) (unat w)"

text \<open>\<open>i64\<close> values travel as the \<open>u64\<close> with the same bits.\<close>

definition i64_from_le :: "bytes \<Rightarrow> i64" where
  "i64_from_le bs = sint (from_le bs :: u64)"

definition i64_to_le :: "i64 \<Rightarrow> bytes" where
  "i64_to_le x = to_le (i64_as_u64 x)"

definition i64_to_be :: "i64 \<Rightarrow> bytes" where
  "i64_to_be x = to_be (i64_as_u64 x)"

text \<open>\<open>&b[from..to]\<close> and \<open>b[i]\<close>.\<close>

definition slice :: "bytes \<Rightarrow> nat \<Rightarrow> nat \<Rightarrow> bytes option" where
  "slice b from to = (if from \<le> to \<and> to \<le> length b then Some (take (to - from) (drop from b)) else None)"

definition byte_at :: "bytes \<Rightarrow> nat \<Rightarrow> u8 option" where
  "byte_at b i = (if i < length b then Some (b ! i) else None)"

text \<open>The byte a side travels as.\<close>

definition side_byte :: "side \<Rightarrow> u8" where
  "side_byte s = (case s of Bid \<Rightarrow> 0 | Ask \<Rightarrow> 1)"

section \<open>Round trips\<close>

lemma le_enc_length [simp]: "length (le_enc n v) = n"
  by (induction n arbitrary: v) simp_all

lemma be_enc_length [simp]: "length (be_enc n v) = n"
  by (simp add: be_enc_def)

lemma to_le_length [simp]: "length (to_le (w :: 'a::len word)) = LENGTH('a) div 8"
  by (simp add: to_le_def)

lemma to_be_length [simp]: "length (to_be (w :: 'a::len word)) = LENGTH('a) div 8"
  by (simp add: to_be_def)

lemma i64_to_le_length [simp]: "length (i64_to_le x) = 8"
  by (simp add: i64_to_le_def)

lemma i64_to_be_length [simp]: "length (i64_to_be x) = 8"
  by (simp add: i64_to_be_def)

lemma unat_byte: "unat (word_of_nat (v mod 256) :: u8) = v mod 256"
  by (simp add: unat_of_nat take_bit_eq_mod)

lemma unat_less_width: "unat (w :: 'a::len word) < 2 ^ LENGTH('a)"
  by (rule unsigned_less)

lemma uint_less_width: "uint (w :: 'a::len word) < 2 ^ LENGTH('a)"
  by (rule unsigned_less)

lemma le_val_enc: "le_val (le_enc n v) = v mod 256 ^ n"
proof (induction n arbitrary: v)
  case (Suc n)
  have "v mod 256 + 256 * (v div 256 mod 256 ^ n) = v mod (256 * 256 ^ n)"
    by (simp add: mod_mult2_eq)
  then show ?case using Suc by (simp add: unat_byte)
qed simp

lemma le_val_less: "le_val bs < 256 ^ length bs"
proof (induction bs)
  case (Cons b bs)
  have "unat b < 256" using unat_less_width [of b] by simp
  then show ?case using Cons by simp
qed simp

lemma le_enc_val: "le_enc (length bs) (le_val bs) = bs"
proof (induction bs)
  case (Cons b bs)
  have "unat b < 256" using unat_less_width [of b] by simp
  then show ?case using Cons by simp
qed simp

lemma be_val_enc: "be_val (be_enc n v) = v mod 256 ^ n"
  by (simp add: be_val_def be_enc_def le_val_enc)

lemma unat_mod_width: "8 dvd LENGTH('a) \<Longrightarrow> unat (w :: 'a::len word) mod 256 ^ (LENGTH('a) div 8) = unat w"
proof -
  assume "8 dvd LENGTH('a)"
  then obtain k where k: "LENGTH('a) = 8 * k" by blast
  have "(256 :: nat) ^ (LENGTH('a) div 8) = 2 ^ LENGTH('a)" by (simp add: k power_mult)
  then show ?thesis using unat_less_width [of w] by simp
qed

lemma from_to_le: "8 dvd LENGTH('a) \<Longrightarrow> from_le (to_le w) = (w :: 'a::len word)"
  by (simp add: from_le_def to_le_def le_val_enc unat_mod_width)

lemma from_to_be: "8 dvd LENGTH('a) \<Longrightarrow> from_be (to_be w) = (w :: 'a::len word)"
  by (simp add: from_be_def to_be_def be_val_enc unat_mod_width)

lemma from_to_le_simps [simp]:
  "from_le (to_le (a :: u16)) = a" "from_le (to_le (b :: u32)) = b" "from_le (to_le (c :: u64)) = c"
  by (rule from_to_le; simp)+

lemma from_to_be_simps [simp]:
  "from_be (to_be (a :: u16)) = a" "from_be (to_be (b :: u32)) = b" "from_be (to_be (c :: u64)) = c"
  by (rule from_to_be; simp)+

lemma i64_from_to_le [simp]: "i64_ok x \<Longrightarrow> i64_from_le (i64_to_le x) = x"
  by (simp add: i64_from_le_def i64_to_le_def i64_as_u64_def sint_word_of_int_ok)

section \<open>Slices\<close>

lemma slice_prefix [simp]: "slice (a @ b @ c) (length a) (length a + length b) = Some b"
  by (simp add: slice_def)

lemma slice_mid: "n = length a \<Longrightarrow> m = n + length b \<Longrightarrow> slice (a @ b @ c) n m = Some b"
  by simp

lemma slice_Some: "slice b from to = Some s \<Longrightarrow> length s = to - from \<and> from \<le> to \<and> to \<le> length b"
  by (auto simp: slice_def split: if_splits)

lemma slice_defined: "from \<le> to \<Longrightarrow> to \<le> length b \<Longrightarrow> slice b from to = Some (take (to - from) (drop from b))"
  by (simp add: slice_def)

end
