(* ===== verification/Pool.thy ===== *)
theory Pool
  imports Spsc Bytes
begin

text \<open>
  Packets and the packet pool, \<open>src/src/pool.rs\<close>.

  A packet owns either a heap buffer (\<open>Buf_Bytes\<close>, a \<open>BytesMut\<close> given by its content) or a frame of the UMEM area
  (\<open>Umem\<close>, an address into memory, which is an argument of \<open>payload\<close>). The pool's queue is a bounded FIFO of another
  library: its two operations are arguments of \<open>pool_get\<close> and \<open>pool_put\<close>, and what the pool relies on is
  the interface \<open>bounded_fifo\<close>.
\<close>

datatype ts_kind = Ts_None | Ts_Sw | Ts_HwSys | Ts_HwRaw

datatype pkt_buf =
    Buf_Bytes bytes
  | Umem u64 nat u32

record pkt =
  pk_buf :: pkt_buf
  pk_len :: nat
  pk_seq :: u64
  pk_ts_nanos :: u64
  pk_chan :: u8
  pk_ts_kind :: ts_kind
  pk_merge_emit_ns :: u64

text \<open>\<open>&b[..self.len]\<close> panics when the buffer is shorter than \<open>len\<close>.\<close>

definition payload :: "(u64 \<Rightarrow> u8) \<Rightarrow> pkt \<Rightarrow> bytes option" where
  "payload mem p = (case pk_buf p of
     Buf_Bytes b \<Rightarrow> slice b 0 (pk_len p)
   | Umem ptr len frame_idx \<Rightarrow> Some (map (\<lambda>i. mem (ptr + word_of_nat i)) [0..<len]))"

record 'q pool =
  po_inner :: 'q
  po_max_packet_size :: nat

text \<open>\<open>truncate(0)\<close> leaves no content; a new buffer of any capacity has none either.\<close>

definition pool_new :: "(nat \<Rightarrow> 'q) \<Rightarrow> ('q \<Rightarrow> bytes \<Rightarrow> 'q \<times> (bytes + unit)) \<Rightarrow> nat \<Rightarrow> nat \<Rightarrow> 'q pool" where
  "pool_new new push pool_size max_packet_size =
     \<lparr>po_inner = fst (pushes push (replicate pool_size []) (new pool_size)), po_max_packet_size = max_packet_size\<rparr>"

definition pool_get :: "('q \<Rightarrow> ('q \<times> bytes option) option) \<Rightarrow> 'q pool \<Rightarrow> ('q pool \<times> bytes) option" where
  "pool_get pop po = (case pop (po_inner po) of
     None \<Rightarrow> None
   | Some (q, Some b) \<Rightarrow> Some (po\<lparr>po_inner := q\<rparr>, take 0 b)
   | Some (q, None) \<Rightarrow> Some (po\<lparr>po_inner := q\<rparr>, []))"

definition pool_put :: "('q \<Rightarrow> bytes \<Rightarrow> 'q \<times> (bytes + unit)) \<Rightarrow> 'q pool \<Rightarrow> bytes \<Rightarrow> 'q pool" where
  "pool_put push po buf = po\<lparr>po_inner := fst (push (po_inner po) (take 0 buf))\<rparr>"

definition recycle :: "('q \<Rightarrow> bytes \<Rightarrow> 'q \<times> (bytes + unit)) \<Rightarrow> pkt \<Rightarrow> 'q pool \<Rightarrow> 'q pool" where
  "recycle push p po = (case pk_buf p of Buf_Bytes b \<Rightarrow> pool_put push po b | Umem _ _ _ \<Rightarrow> po)"

section \<open>Pooled buffers\<close>

text \<open>The pool holds \<open>n\<close> buffers, all empty.\<close>

definition holds_empty :: "('q \<Rightarrow> bytes list \<Rightarrow> bool) \<Rightarrow> 'q pool \<Rightarrow> nat \<Rightarrow> bool" where
  "holds_empty rel po n \<longleftrightarrow> rel (po_inner po) (replicate n [])"

lemma replicate_snoc: "replicate n x @ [x] = replicate (Suc n) x"
  by (simp add: replicate_append_same)

lemma pool_new_holds:
  assumes "bounded_fifo rel cap push pop" "rel (new n) []" "cap (new n) = n"
  shows "holds_empty rel (pool_new new push n sz) n" "cap (po_inner (pool_new new push n sz)) = n"
  using bounded_fifo.pushes_room [OF assms(1,2), of "replicate n []"] assms(3)
  by (auto simp: holds_empty_def pool_new_def)

lemma pool_get_holds:
  assumes "bounded_fifo rel cap push pop" "holds_empty rel po n"
  shows "\<exists>po'. pool_get pop po = Some (po', []) \<and> holds_empty rel po' (n - 1) \<and> cap (po_inner po') = cap (po_inner po)"
proof (cases n)
  case 0
  then have "rel (po_inner po) []" using assms(2) by (simp add: holds_empty_def)
  from bounded_fifo.pop_empty [OF assms(1) this] show ?thesis
    using 0 assms(2) by (simp add: pool_get_def)
next
  case (Suc k)
  then have "rel (po_inner po) ([] # replicate k [])" using assms(2) by (simp add: holds_empty_def)
  from bounded_fifo.pop_front [OF assms(1) this] show ?thesis
    using Suc by (auto simp: pool_get_def holds_empty_def)
qed

lemma pool_put_holds:
  assumes "bounded_fifo rel cap push pop" "holds_empty rel po n"
  shows "holds_empty rel (pool_put push po b) (if n < cap (po_inner po) then n + 1 else n)"
    "cap (po_inner (pool_put push po b)) = cap (po_inner po)"
proof -
  have R: "rel (po_inner po) (replicate n [])" using assms(2) by (simp add: holds_empty_def)
  consider q' where "n < cap (po_inner po)" "push (po_inner po) [] = (q', Inr ())" "rel q' (replicate (Suc n) [])"
      "cap q' = cap (po_inner po)"
    | "\<not> n < cap (po_inner po)" "push (po_inner po) [] = (po_inner po, Inl [])"
    using bounded_fifo.push_room [OF assms(1) R, of "[]"] bounded_fifo.push_full [OF assms(1) R, of "[]"]
    by (auto simp: replicate_snoc simp del: replicate.simps(2))
  note outcome = this
  show "holds_empty rel (pool_put push po b) (if n < cap (po_inner po) then n + 1 else n)"
    using R by (cases rule: outcome) (simp_all add: pool_put_def holds_empty_def)
  show "cap (po_inner (pool_put push po b)) = cap (po_inner po)"
    by (cases rule: outcome) (simp_all add: pool_put_def)
qed

text \<open>The users of a pool take a buffer or return a packet.\<close>

datatype pool_op = Get | Recycle pkt

fun pool_run :: "('q \<Rightarrow> bytes \<Rightarrow> 'q \<times> (bytes + unit)) \<Rightarrow> ('q \<Rightarrow> ('q \<times> bytes option) option) \<Rightarrow>
    pool_op list \<Rightarrow> 'q pool \<Rightarrow> ('q pool \<times> bytes list) option" where
  "pool_run push pop [] po = Some (po, [])"
| "pool_run push pop (Get # ops) po = (case pool_get pop po of None \<Rightarrow> None
     | Some (po', b) \<Rightarrow> map_option (\<lambda>(po'', bs). (po'', b # bs)) (pool_run push pop ops po'))"
| "pool_run push pop (Recycle p # ops) po = pool_run push pop ops (recycle push p po)"

lemma pool_run_holds:
  assumes F: "bounded_fifo rel cap push pop"
  shows "holds_empty rel po n \<Longrightarrow> n \<le> cap (po_inner po) \<Longrightarrow>
    \<exists>po' bs m. pool_run push pop ops po = Some (po', bs) \<and> holds_empty rel po' m \<and> m \<le> cap (po_inner po) \<and>
      set bs \<subseteq> {[]}"
proof (induction ops arbitrary: po n)
  case (Cons x ops)
  show ?case
  proof (cases x)
    case Get
    obtain po' where "pool_get pop po = Some (po', [])" "holds_empty rel po' (n - 1)"
        "cap (po_inner po') = cap (po_inner po)"
      using pool_get_holds [OF F Cons.prems(1)] by blast
    then show ?thesis using Cons.IH [of po' "n - 1"] Cons.prems(2) Get by fastforce
  next
    case (Recycle p)
    show ?thesis
    proof (cases "pk_buf p")
      case (Buf_Bytes b)
      show ?thesis
        using Cons.IH [OF pool_put_holds(1) [OF F Cons.prems(1), of b]] pool_put_holds(2) [OF F Cons.prems(1), of b]
          Cons.prems(2) Recycle Buf_Bytes
        by (simp add: recycle_def split: if_splits)
    qed (use Cons Recycle in \<open>simp add: recycle_def\<close>)
  qed
qed auto

text \<open>
  For any bounded queue behind the pool, a warmed-up pool hands out only empty buffers, whatever was recycled
  into it: no bytes of an old packet reach a new one; and every sequence of takes and returns runs through without
  the pool ever holding more than its size.
\<close>

theorem pool_never_leaks:
  assumes "bounded_fifo rel cap push pop" "rel (new n) []" "cap (new n) = n"
  shows "\<exists>po bs m. pool_run push pop ops (pool_new new push n sz) = Some (po, bs) \<and> set bs \<subseteq> {[]} \<and>
    holds_empty rel po m \<and> m \<le> n"
proof -
  note new = pool_new_holds [where new = new and n = n and sz = sz, OF assms]
  show ?thesis using pool_run_holds [OF assms(1) new(1), of ops] new(2) by auto
qed

theorem pool_never_leaks_witness:
  "\<exists>po bs m. pool_run spsc_push spsc_pop
      [Get, Recycle \<lparr>pk_buf = Buf_Bytes [1, 2], pk_len = 2, pk_seq = 5, pk_ts_nanos = 0, pk_chan = 65,
                     pk_ts_kind = Ts_Sw, pk_merge_emit_ns = 0\<rparr>, Get]
      (pool_new spsc_new spsc_push 4 64) = Some (po, bs) \<and> set bs \<subseteq> {[]} \<and>
    holds_empty ring_rel po m \<and> m \<le> 4"
proof (rule pool_never_leaks)
  show "bounded_fifo ring_rel cap_of spsc_push (spsc_pop :: bytes spsc \<Rightarrow> _)"
    by (rule spsc_fifo.bounded_fifo_axioms)
  show "ring_rel (spsc_new 4 :: bytes spsc) []" by (rule spsc_new_rel)
  show "cap_of (spsc_new 4 :: bytes spsc) = 4"
    by (simp add: cap_of_new next_power_of_two_def pow2_from.simps)
qed

end
