(* ===== verification/Merge.thy ===== *)
theory Merge
  imports Pool
begin

text \<open>
  The A/B line arbiter of \<open>src/src/merge.rs\<close>: it takes packets from the workers of two redundant lines and
  from the recovery queue and forwards each sequence number once, in order.

  \<^item> \<open>merge\<close> holds the local variables of \<open>merge_loop\<close>, its input queues, the packets forwarded so far (\<open>mg_out\<close>)
    and the gaps reported to the recovery client (\<open>mg_notes\<close>). The \<open>k\<close>-th reading of the clock is \<open>clk k\<close>.
    Metrics and log lines are left out.
  \<^item> \<open>drain\<close>, \<open>buffer_pkt\<close>, \<open>report_gap\<close>, \<open>recover_pkt\<close>, \<open>hysteresis\<close>, \<open>line_pkt\<close>, \<open>adapt\<close>, \<open>merge_iter\<close>: the parts of one
    iteration of the loop, in the order of the code. \<open>merge_run\<close> lets packets arrive between iterations.
  \<^item> \<open>forward_push\<close>: how a packet gets into the output ring.
  \<^item> \<open>merge_inv\<close>: the invariant of the loop; the properties are in \<open>Merge_Order\<close>.
\<close>

section \<open>Saturating increment\<close>

definition sat_inc :: "'a::len word \<Rightarrow> 'a word" where
  "sat_inc w = (if w = - 1 then w else w + 1)"

section \<open>State\<close>

record merge_config =
  mc_next_seq :: u64
  mc_reorder_window :: u64
  mc_max_pending :: nat
  mc_dwell_ns :: u64
  mc_adaptive :: bool
  mc_reorder_window_max :: u64

record merge =
  mg_qa :: "pkt list list"
  mg_qb :: "pkt list list"
  mg_qrec :: "pkt list option"
  mg_next_seq :: u64
  mg_window :: u64
  mg_ring :: "(u64 \<times> pkt) option list"
  mg_pending :: nat
  mg_prefer_a :: bool
  mg_streak_pref :: u32
  mg_streak_nonpref :: u32
  mg_last_switch_ns :: u64
  mg_min_dwell_ns :: u64
  mg_fwd_since_check :: u64
  mg_recent_gaps :: u64
  mg_recent_ooo :: u64
  mg_switches :: u32
  mg_idx_a :: nat
  mg_idx_b :: nat
  mg_moved :: bool
  mg_clock :: nat
  mg_out :: "pkt list"
  mg_notes :: "(u64 \<times> u64) list"

definition now_nanos :: "clock \<Rightarrow> merge \<Rightarrow> u64 \<times> merge" where
  "now_nanos clk m = (clk (mg_clock m), m\<lparr>mg_clock := Suc (mg_clock m)\<rparr>)"

definition merge_init :: "merge_config \<Rightarrow> clock \<Rightarrow> pkt list list \<Rightarrow> pkt list list \<Rightarrow> pkt list option \<Rightarrow> merge" where
  "merge_init cfg clk qa qb qrec =
     \<lparr>mg_qa = qa, mg_qb = qb, mg_qrec = qrec,
      mg_next_seq = mc_next_seq cfg, mg_window = mc_reorder_window cfg,
      mg_ring = replicate (unat (sat_inc (mc_reorder_window cfg))) None, mg_pending = 0,
      mg_prefer_a = True, mg_streak_pref = 0, mg_streak_nonpref = 0,
      mg_last_switch_ns = clk 0,
      mg_min_dwell_ns = (if mc_dwell_ns cfg = 0 then 2000000 else mc_dwell_ns cfg),
      mg_fwd_since_check = 0, mg_recent_gaps = 0, mg_recent_ooo = 0, mg_switches = 0,
      mg_idx_a = 0, mg_idx_b = 0, mg_moved = False, mg_clock = 1, mg_out = [], mg_notes = []\<rparr>"

text \<open>The slot of a sequence number; the ring is never empty in a run.\<close>

definition ring_idx :: "merge \<Rightarrow> u64 \<Rightarrow> nat" where
  "ring_idx m s = unat s mod length (mg_ring m)"

definition ring_at :: "merge \<Rightarrow> u64 \<Rightarrow> (u64 \<times> pkt) option" where
  "ring_at m s = (if mg_ring m = [] then None else mg_ring m ! ring_idx m s)"

section \<open>One iteration\<close>

text \<open>\<open>forward\<close>: the packet is stamped and put behind the packets already forwarded (see \<open>forward_push\<close>).\<close>

definition forward :: "clock \<Rightarrow> pkt \<Rightarrow> merge \<Rightarrow> merge" where
  "forward clk p m =
     (let (now, m) = now_nanos clk m in m\<lparr>mg_out := mg_out m @ [p\<lparr>pk_merge_emit_ns := now\<rparr>]\<rparr>)"

text \<open>
  Draining of buffered packets that have become next; \<open>count_ooo\<close> is whether \<open>recent_ooo\<close> is counted (it is
  for the lines, not for recovered packets).
\<close>

function drain :: "bool \<Rightarrow> clock \<Rightarrow> merge \<Rightarrow> merge" where
  "drain count_ooo clk m =
     (case ring_at m (mg_next_seq m) of
        None \<Rightarrow> m
      | Some (stored_seq, node) \<Rightarrow>
          if stored_seq \<noteq> mg_next_seq m then m
          else let m = m\<lparr>mg_ring := (mg_ring m)[ring_idx m (mg_next_seq m) := None],
                         mg_pending := mg_pending m - 1,
                         mg_recent_ooo := (if count_ooo then sat_inc (mg_recent_ooo m) else mg_recent_ooo m)\<rparr>;
                   m = forward clk node m
               in drain count_ooo clk (m\<lparr>mg_next_seq := mg_next_seq m + 1,
                                         mg_fwd_since_check := sat_inc (mg_fwd_since_check m)\<rparr>))"
  by pat_completeness auto

definition occupied :: "merge \<Rightarrow> nat" where
  "occupied m = length (filter (\<lambda>x. x \<noteq> None) (mg_ring m))"

lemma forward_simps [simp]:
  "mg_qa (forward clk p m) = mg_qa m" "mg_qb (forward clk p m) = mg_qb m" "mg_qrec (forward clk p m) = mg_qrec m"
  "mg_next_seq (forward clk p m) = mg_next_seq m" "mg_window (forward clk p m) = mg_window m"
  "mg_ring (forward clk p m) = mg_ring m" "mg_pending (forward clk p m) = mg_pending m"
  "mg_notes (forward clk p m) = mg_notes m"
  "mg_out (forward clk p m) = mg_out m @ [p\<lparr>pk_merge_emit_ns := clk (mg_clock m)\<rparr>]"
  "mg_fwd_since_check (forward clk p m) = mg_fwd_since_check m"
  "mg_idx_a (forward clk p m) = mg_idx_a m" "mg_idx_b (forward clk p m) = mg_idx_b m"
  "mg_clock (forward clk p m) = Suc (mg_clock m)"
  by (simp_all add: forward_def now_nanos_def)

lemma filter_clear_less:
  "i < length xs \<Longrightarrow> xs ! i \<noteq> None \<Longrightarrow>
   Suc (length (filter (\<lambda>x. x \<noteq> None) (xs[i := None]))) = length (filter (\<lambda>x. x \<noteq> None) xs)"
  by (induction xs arbitrary: i) (auto split: nat.splits)

lemma filter_fill:
  "i < length xs \<Longrightarrow> xs ! i = None \<Longrightarrow>
   length (filter (\<lambda>x. x \<noteq> None) (xs[i := Some y])) = Suc (length (filter (\<lambda>x. x \<noteq> None) xs))"
  by (induction xs arbitrary: i) (auto split: nat.splits)

lemma ring_idx_less: "mg_ring m \<noteq> [] \<Longrightarrow> ring_idx m s < length (mg_ring m)"
  by (simp add: ring_idx_def)

lemma occupied_clear:
  assumes "ring_at m s \<noteq> None"
  shows "Suc (length (filter (\<lambda>x. x \<noteq> None) ((mg_ring m)[ring_idx m s := None]))) = occupied m"
proof -
  have "mg_ring m \<noteq> []" using assms by (auto simp: ring_at_def)
  moreover from this have "mg_ring m ! ring_idx m s \<noteq> None" using assms by (simp add: ring_at_def)
  ultimately show ?thesis unfolding occupied_def by (intro filter_clear_less ring_idx_less)
qed

termination drain
proof (relation "measure (\<lambda>(_, _, m). occupied m)")
  fix ooo clk and m m1 m2 :: merge and x s node
  assume "ring_at m (mg_next_seq m) = Some x" "(s, node) = x" and m1: "m1 = m\<lparr>mg_ring := (mg_ring m)[ring_idx m (mg_next_seq m) := None],
                         mg_pending := mg_pending m - 1,
                         mg_recent_ooo := (if ooo then sat_inc (mg_recent_ooo m) else mg_recent_ooo m)\<rparr>"
    and m2: "m2 = forward clk node m1"
  then have "Suc (length (filter (\<lambda>x. x \<noteq> None) ((mg_ring m)[ring_idx m (mg_next_seq m) := None]))) = occupied m"
    by (intro occupied_clear) simp
  then show "((ooo, clk, m2\<lparr>mg_next_seq := mg_next_seq m2 + 1, mg_fwd_since_check := sat_inc (mg_fwd_since_check m2)\<rparr>), ooo, clk, m)
      \<in> measure (\<lambda>(_, _, m). occupied m)"
    by (simp add: m1 m2 occupied_def)
qed simp

declare drain.simps [simp del]

text \<open>
  A packet ahead of the next sequence number: within the window, and with room, it goes into its slot unless the slot
  already holds its number or another number not yet forwarded; otherwise it is dropped and a gap is
  reported when a recovery client is present (\<open>rec\<close>).
\<close>

definition store_pkt :: "u64 \<Rightarrow> pkt \<Rightarrow> merge \<Rightarrow> merge" where
  "store_pkt s p m = m\<lparr>mg_ring := (mg_ring m)[ring_idx m s := Some (s, p)], mg_pending := mg_pending m + 1\<rparr>"

definition buffer_pkt :: "u64 \<Rightarrow> pkt \<Rightarrow> merge \<Rightarrow> merge" where
  "buffer_pkt s p m = (case ring_at m s of
     Some (seq_in_slot, _) \<Rightarrow>
       if seq_in_slot = s then m
       else if seq_in_slot < mg_next_seq m then store_pkt s p m
       else m
   | None \<Rightarrow> store_pkt s p m)"

definition report_gap :: "bool \<Rightarrow> u64 \<Rightarrow> merge \<Rightarrow> merge" where
  "report_gap rec s m = m\<lparr>mg_recent_gaps := sat_inc (mg_recent_gaps m),
     mg_notes := (if rec \<and> s > mg_next_seq m then mg_notes m @ [(mg_next_seq m, s - 1)] else mg_notes m)\<rparr>"

definition ahead_pkt :: "merge_config \<Rightarrow> bool \<Rightarrow> pkt \<Rightarrow> merge \<Rightarrow> merge" where
  "ahead_pkt cfg rec p m =
     (let s = pk_seq p; distance = s - mg_next_seq m in
      if distance \<le> mg_window m \<and> mg_pending m < mc_max_pending cfg then buffer_pkt s p m
      else report_gap rec s m)"

definition next_pkt :: "bool \<Rightarrow> clock \<Rightarrow> pkt \<Rightarrow> merge \<Rightarrow> merge" where
  "next_pkt count_ooo clk p m =
     (let m = forward clk p m
      in drain count_ooo clk (m\<lparr>mg_next_seq := mg_next_seq m + 1, mg_moved := True\<rparr>))"

definition recover_pkt :: "merge_config \<Rightarrow> bool \<Rightarrow> clock \<Rightarrow> pkt \<Rightarrow> merge \<Rightarrow> merge" where
  "recover_pkt cfg rec clk p m =
     (if pk_seq p < mg_next_seq m then m
      else if pk_seq p = mg_next_seq m then next_pkt False clk p m
      else ahead_pkt cfg rec p m)"

text \<open>At most \<open>n\<close> packets from the recovery queue.\<close>

primrec recover_loop :: "merge_config \<Rightarrow> bool \<Rightarrow> clock \<Rightarrow> nat \<Rightarrow> merge \<Rightarrow> merge" where
  "recover_loop cfg rec clk 0 m = m"
| "recover_loop cfg rec clk (Suc n) m = (case mg_qrec m of
     Some (p # ps) \<Rightarrow> recover_loop cfg rec clk n (recover_pkt cfg rec clk p (m\<lparr>mg_qrec := Some ps\<rparr>))
   | _ \<Rightarrow> m)"

text \<open>
  The preference: two forwards in a row from the other line switch to B, eight in a row from the preferred
  line switch back to A, and never before the dwell time is over. \<open>&&\<close> reads the clock only when
  the conditions before it hold.
\<close>

definition dwell_over :: "clock \<Rightarrow> merge \<Rightarrow> bool \<times> merge" where
  "dwell_over clk m = (let (now, m) = now_nanos clk m
     in (sat_sub now (mg_last_switch_ns m) \<ge> mg_min_dwell_ns m, m))"

definition switch_to :: "bool \<Rightarrow> clock \<Rightarrow> merge \<Rightarrow> merge" where
  "switch_to a clk m =
     (let (now, m) = now_nanos clk m
      in m\<lparr>mg_prefer_a := a, mg_last_switch_ns := now, mg_switches := sat_inc (mg_switches m)\<rparr>)"

definition hysteresis :: "clock \<Rightarrow> bool \<Rightarrow> merge \<Rightarrow> merge" where
  "hysteresis clk was_a m =
     (if (mg_prefer_a m \<and> was_a) \<or> (\<not> mg_prefer_a m \<and> \<not> was_a) then
        let m = m\<lparr>mg_streak_pref := sat_inc (mg_streak_pref m), mg_streak_nonpref := 0\<rparr> in
        if \<not> mg_prefer_a m \<and> mg_streak_pref m \<ge> 8 then
          let (over, m) = dwell_over clk m in if over then switch_to True clk (m\<lparr>mg_streak_pref := 0\<rparr>) else m
        else m
      else
        let m = m\<lparr>mg_streak_nonpref := sat_inc (mg_streak_nonpref m), mg_streak_pref := 0\<rparr> in
        if mg_prefer_a m \<and> mg_streak_nonpref m \<ge> 2 then
          let (over, m) = dwell_over clk m in if over then switch_to False clk (m\<lparr>mg_streak_nonpref := 0\<rparr>) else m
        else m)"

definition line_pkt :: "merge_config \<Rightarrow> bool \<Rightarrow> clock \<Rightarrow> pkt \<Rightarrow> merge \<Rightarrow> merge" where
  "line_pkt cfg rec clk p m =
     (if pk_seq p < mg_next_seq m then m
      else if pk_seq p = mg_next_seq m then hysteresis clk (pk_chan p = 65) (next_pkt True clk p m)
      else ahead_pkt cfg rec p m)"

text \<open>
  The worker queues are polled round-robin; indexing an empty list of queues panics. \<open>src\<close> is the iteration of
  the inner \<open>for\<close> loop, whose second round sees a preference changed by the first.
\<close>

definition pop_line :: "nat \<Rightarrow> pkt list list \<Rightarrow> (pkt list list \<times> pkt option) option" where
  "pop_line idx qs =
     (let i = idx mod max (length qs) 1 in
      if i < length qs then
        (case qs ! i of [] \<Rightarrow> Some (qs, None) | p # ps \<Rightarrow> Some (qs[i := ps], Some p))
      else None)"

definition take_line :: "merge_config \<Rightarrow> bool \<Rightarrow> clock \<Rightarrow> nat \<Rightarrow> merge \<Rightarrow> merge option" where
  "take_line cfg rec clk src m =
     (let step = (\<lambda>x m. case x of None \<Rightarrow> m | Some p \<Rightarrow> line_pkt cfg rec clk p m) in
      if (src = 0) = mg_prefer_a m then
        map_option (\<lambda>(qs, x). step x (m\<lparr>mg_qa := qs, mg_idx_a := usize_add (mg_idx_a m) 1\<rparr>)) (pop_line (mg_idx_a m) (mg_qa m))
      else
        map_option (\<lambda>(qs, x). step x (m\<lparr>mg_qb := qs, mg_idx_b := usize_add (mg_idx_b m) 1\<rparr>)) (pop_line (mg_idx_b m) (mg_qb m)))"

definition adapt :: "merge_config \<Rightarrow> merge \<Rightarrow> merge" where
  "adapt cfg m =
     (if mc_adaptive cfg \<and> mg_fwd_since_check m \<ge> 4096 then
        let m = (if mg_recent_gaps m > 0 \<and> mg_window m < mc_reorder_window_max cfg
                 then m\<lparr>mg_window := min (mg_window m + max (mg_window m div 4) 1) (mc_reorder_window_max cfg)\<rparr>
                 else m);
            m = (if mg_recent_ooo m = 0 \<and> mg_recent_gaps m = 0 \<and> mg_window m > 8
                 then m\<lparr>mg_window := max (sat_sub (mg_window m) (mg_window m div 8)) 8\<rparr>
                 else m);
            m = (if mg_switches m \<ge> 4
                 then m\<lparr>mg_min_dwell_ns := min (sat_mul (mg_min_dwell_ns m) 2) 50000000\<rparr>
                 else if mg_switches m = 0 \<and> mg_min_dwell_ns m > mc_dwell_ns cfg
                 then m\<lparr>mg_min_dwell_ns := max (sat_sub (mg_min_dwell_ns m) (mg_min_dwell_ns m div 4)) (mc_dwell_ns cfg)\<rparr>
                 else m)
        in m\<lparr>mg_fwd_since_check := 0, mg_recent_gaps := 0, mg_recent_ooo := 0, mg_switches := 0\<rparr>
      else m)"

definition merge_iter :: "merge_config \<Rightarrow> bool \<Rightarrow> clock \<Rightarrow> merge \<Rightarrow> merge option" where
  "merge_iter cfg rec clk m = do {
     m \<leftarrow> take_line cfg rec clk 0 (recover_loop cfg rec clk 32 (m\<lparr>mg_moved := False\<rparr>));
     m \<leftarrow> take_line cfg rec clk 1 m;
     Some (adapt cfg m)
   }"

text \<open>
  The runs of \<open>merge_loop\<close> up to a shutdown, over the packets that have arrived so far: between two iterations a receiver may
  append a packet to its queue.
\<close>

inductive merge_run :: "merge_config \<Rightarrow> bool \<Rightarrow> clock \<Rightarrow> nat \<Rightarrow> nat \<Rightarrow> pkt list \<Rightarrow> merge \<Rightarrow> bool"
  for cfg rec clk na nb where
  start_up: "merge_run cfg rec clk na nb [] (merge_init cfg clk (replicate na []) (replicate nb []) qrec)"
    if "qrec = None \<or> qrec = Some []"
| arrive_a: "merge_run cfg rec clk na nb (arr @ [p]) (m\<lparr>mg_qa := (mg_qa m)[i := mg_qa m ! i @ [p]]\<rparr>)"
    if "merge_run cfg rec clk na nb arr m" "i < na"
| arrive_b: "merge_run cfg rec clk na nb (arr @ [p]) (m\<lparr>mg_qb := (mg_qb m)[i := mg_qb m ! i @ [p]]\<rparr>)"
    if "merge_run cfg rec clk na nb arr m" "i < nb"
| arrive_rec: "merge_run cfg rec clk na nb (arr @ [p]) (m\<lparr>mg_qrec := Some (ps @ [p])\<rparr>)"
    if "merge_run cfg rec clk na nb arr m" "mg_qrec m = Some ps"
| iterate: "merge_run cfg rec clk na nb arr m'"
    if "merge_run cfg rec clk na nb arr m" "merge_iter cfg rec clk m = Some m'"

section \<open>The output ring\<close>

text \<open>
  \<open>forward\<close> on the ring itself: rounds of \<open>push_with_backoff\<close> with 1024 spins until one succeeds. \<open>env n\<close> is what the
  consumer does in round \<open>n\<close>, between its attempts and after it.
\<close>

partial_function (option) forward_push :: "(nat \<Rightarrow> u32 \<Rightarrow> pkt spsc \<Rightarrow> pkt spsc) \<Rightarrow> nat \<Rightarrow> pkt spsc \<Rightarrow> pkt \<Rightarrow> pkt spsc option" where
  "forward_push env n q p = (case push_with_backoff (env n) q p 0 1024 of
     (q', Inr _) \<Rightarrow> Some q'
   | (q', Inl returned) \<Rightarrow> forward_push env (n + 1) (env n 1024 q') returned)"

end
