(* ===== verification/Merge_Order.thy ===== *)
theory Merge_Order
  imports Merge
begin

text \<open>
  Correctness of the arbiter of \<open>Merge\<close>.

  \<^item> \<open>buffered\<close>: the reorder ring as a map from sequence numbers; \<open>merge_inv\<close>: entries sit in their slots, are ahead of the
    next number, and are counted by \<open>pending_count\<close>; \<open>in_window\<close>: they fit the ring without aliasing.
  \<^item> \<open>drain_law\<close>, \<open>ahead_law\<close>: the ring refines the map.
  \<^item> the properties: order and origin of the output of every run, the effect of one packet, reassembly of a permuted
    block, the preference switch, the delivery into the output ring.
\<close>

section \<open>The reorder buffer as a map\<close>

definition buffered :: "merge \<Rightarrow> u64 \<Rightarrow> pkt option" where
  "buffered m s = (case ring_at m s of Some (s', p) \<Rightarrow> if s' = s then Some p else None | None \<Rightarrow> None)"

definition entry_ok :: "merge \<Rightarrow> (u64 \<Rightarrow> bool) \<Rightarrow> bool" where
  "entry_ok m P \<longleftrightarrow> mg_ring m \<noteq> [] \<and>
     (\<forall>i < length (mg_ring m). \<forall>s p. mg_ring m ! i = Some (s, p) \<longrightarrow> pk_seq p = s \<and> i = ring_idx m s \<and> P s)"

definition merge_inv :: "merge_config \<Rightarrow> merge \<Rightarrow> bool" where
  "merge_inv cfg m \<longleftrightarrow> entry_ok m (\<lambda>s. mg_next_seq m < s) \<and> mg_pending m = occupied m \<and>
     mg_pending m \<le> mc_max_pending cfg"

text \<open>The content of a packet, without the time stamp of the arbiter.\<close>

definition content_of :: "pkt \<Rightarrow> pkt" where
  "content_of p = p\<lparr>pk_merge_emit_ns := 0\<rparr>"

lemma content_of_stamp [simp]: "content_of (p\<lparr>pk_merge_emit_ns := t\<rparr>) = content_of p"
  by (simp add: content_of_def)

lemma pk_seq_content [simp]: "pk_seq (content_of p) = pk_seq p"
  by (simp add: content_of_def)

lemma entry_okD:
  assumes "entry_ok m P"
  shows "mg_ring m \<noteq> []"
    "i < length (mg_ring m) \<Longrightarrow> mg_ring m ! i = Some (s, p) \<Longrightarrow> pk_seq p = s \<and> ring_idx m s = i \<and> P s"
  using assms unfolding entry_ok_def by blast+

lemma ring_at_slot: "entry_ok m P \<Longrightarrow> ring_at m s = mg_ring m ! ring_idx m s"
  by (simp add: ring_at_def entry_ok_def)

lemma entry_at:
  assumes "entry_ok m P" "ring_at m s = Some (s', p)"
  shows "pk_seq p = s'" "ring_idx m s' = ring_idx m s" "P s'"
  using entry_okD(2) [OF assms(1) ring_idx_less [OF entry_okD(1) [OF assms(1)]], of s s' p] assms
  by (simp_all add: ring_at_slot)

lemma buffered_Some: "buffered m s = Some p \<longleftrightarrow> ring_at m s = Some (s, p)"
  by (auto simp: buffered_def split: option.splits)

lemma buffered_entry:
  assumes "entry_ok m P" "buffered m s = Some p"
  shows "pk_seq p = s" "P s"
  using entry_at [OF assms(1)] assms(2) by (simp_all add: buffered_Some)

lemma entry_buffered:
  assumes "entry_ok m P" "i < length (mg_ring m)" "mg_ring m ! i = Some (s, p)"
  shows "buffered m s = Some p"
  using entry_okD(2) [OF assms] assms by (simp add: buffered_Some ring_at_slot)

text \<open>Changing the slot of one sequence number, or nothing of the ring.\<close>

lemma ring_frame:
  assumes "mg_ring m' = mg_ring m"
  shows "ring_idx m' s = ring_idx m s" "ring_at m' s = ring_at m s" "buffered m' s = buffered m s"
    "occupied m' = occupied m" "entry_ok m' P = entry_ok m P"
  using assms by (simp_all add: ring_idx_def ring_at_def buffered_def occupied_def entry_ok_def)

lemma ring_idx_update: "mg_ring m' = (mg_ring m)[i := x] \<Longrightarrow> ring_idx m' s = ring_idx m s"
  by (simp add: ring_idx_def)

lemma ring_at_update:
  assumes "mg_ring m \<noteq> []" "mg_ring m' = (mg_ring m)[ring_idx m s := x]"
  shows "ring_at m' t = (if ring_idx m t = ring_idx m s then x else ring_at m t)"
proof -
  have "mg_ring m' \<noteq> []" using assms by simp
  then show ?thesis using assms(1) ring_idx_less [OF assms(1), of s]
    by (simp add: ring_at_def ring_idx_update [OF assms(2)]) (simp add: assms(2) nth_list_update)
qed

lemma entry_ok_mono:
  assumes "entry_ok m P" "mg_ring m' = mg_ring m" "\<And>s p. buffered m s = Some p \<Longrightarrow> P s \<Longrightarrow> Q s"
  shows "entry_ok m' Q"
  unfolding entry_ok_def ring_frame(1) [OF assms(2)] assms(2)
  using entry_okD [OF assms(1)] assms(3) entry_buffered [OF assms(1)] by fastforce

lemma entry_ok_update:
  assumes "entry_ok m P" "mg_ring m' = (mg_ring m)[ring_idx m s := x]"
    "\<And>t p. x = Some (t, p) \<Longrightarrow> pk_seq p = t \<and> t = s \<and> P t"
  shows "entry_ok m' P"
  unfolding entry_ok_def ring_idx_update [OF assms(2)]
proof (intro conjI allI impI)
  note D = entry_okD [OF assms(1)]
  show "mg_ring m' \<noteq> []" using D(1) assms(2) by simp
  fix i t p
  assume i: "i < length (mg_ring m')" and e: "mg_ring m' ! i = Some (t, p)"
  have "pk_seq p = t \<and> i = ring_idx m t \<and> P t"
  proof (cases "i = ring_idx m s")
    case True
    then have "x = Some (t, p)" using i e assms(2) by simp
    then show ?thesis using assms(3) [of t p] True by auto
  next
    case False
    then show ?thesis using D(2) [of i t p] i e assms(2) by simp
  qed
  then show "pk_seq p = t" "i = ring_idx m t" "P t" by simp_all
qed

lemma buffered_clear:
  assumes "entry_ok m P" "ring_at m s = Some (s, p)" "mg_ring m' = (mg_ring m)[ring_idx m s := None]"
  shows "buffered m' t = (if t = s then None else buffered m t)"
proof -
  have u: "ring_at m' t = (if ring_idx m t = ring_idx m s then None else ring_at m t)"
    by (rule ring_at_update [OF entry_okD(1) [OF assms(1)] assms(3)])
  have "ring_at m t = Some (s, p)" if "ring_idx m t = ring_idx m s"
    using that assms(2) by (simp add: ring_at_slot [OF assms(1)])
  then show ?thesis by (auto simp: buffered_def u)
qed

lemma buffered_store:
  assumes "entry_ok m P" "ring_at m s = None" "mg_ring m' = (mg_ring m)[ring_idx m s := Some (s, p)]"
  shows "buffered m' t = (if t = s then Some p else buffered m t)"
proof -
  have u: "ring_at m' t = (if ring_idx m t = ring_idx m s then Some (s, p) else ring_at m t)"
    by (rule ring_at_update [OF entry_okD(1) [OF assms(1)] assms(3)])
  have "ring_at m t = None" if "ring_idx m t = ring_idx m s"
    using that assms(2) by (simp add: ring_at_slot [OF assms(1)])
  then show ?thesis by (auto simp: buffered_def u)
qed

lemma word_less_inc: "a < b \<Longrightarrow> a + 1 \<le> (b :: 'a::len word)"
proof -
  assume "a < b"
  then have "unat a + 1 \<le> unat b" by (simp add: word_less_nat_alt)
  moreover have "unat (a + 1) \<le> unat a + 1" by (simp add: unat_word_ariths)
  ultimately show ?thesis by (simp add: word_le_nat_alt)
qed

lemma unat_lt_u64: "unat (a :: u64) < 2 ^ 64"
proof -
  have "unat a < 2 ^ LENGTH(64)" by (rule unsigned_less)
  then show ?thesis by simp
qed

lemma unat_minus_le: "a \<le> b \<Longrightarrow> unat (b - a) = unat b - unat (a :: u64)"
  by (simp add: unat_sub word_le_nat_alt)

lemma unat_inc_less: "a < b \<Longrightarrow> unat (a + 1) = unat (a :: u64) + 1"
proof -
  assume "a < b"
  then have "unat a + 1 < 2 ^ 64" using unat_lt_u64 [of b] by (simp add: word_less_nat_alt)
  then show ?thesis by (simp add: unat_word_ariths)
qed

lemma unat_plus_nat: "unat a + 1 + k < 2 ^ 64 \<Longrightarrow> unat (a + 1 + word_of_nat k) = unat (a :: u64) + 1 + k"
proof -
  assume *: "unat a + 1 + k < 2 ^ 64"
  have "a + 1 + word_of_nat k = word_of_nat (unat a + 1 + k)" by simp
  also have "unat (word_of_nat (unat a + 1 + k) :: u64) = unat a + 1 + k"
    using * by (simp only: unat_of_nat take_bit_eq_mod) simp
  finally show ?thesis .
qed

lemma mod_window_unique:
  "t mod c = s mod c \<Longrightarrow> n < t \<Longrightarrow> n < s \<Longrightarrow> t - n < c \<Longrightarrow> s - n < c \<Longrightarrow> t = (s :: nat)"
proof (induction t s rule: linorder_wlog)
  case (le a b)
  then have "c dvd b - a" using mod_eq_dvd_iff_nat by metis
  moreover have "b - a < c" using le by linarith
  ultimately show ?case using le(1) by (metis diff_is_0_eq dvd_imp_le le_antisym not_less zero_less_diff)
qed simp

text \<open>What the handling of a packet leaves alone.\<close>

definition same_env :: "merge \<Rightarrow> merge \<Rightarrow> bool" where
  "same_env m m' \<longleftrightarrow> mg_qa m' = mg_qa m \<and> mg_qb m' = mg_qb m \<and> mg_qrec m' = mg_qrec m \<and>
     mg_window m' = mg_window m \<and> length (mg_ring m') = length (mg_ring m)"

lemma same_env_refl [simp]: "same_env m m"
  by (simp add: same_env_def)

lemma same_env_trans: "same_env a b \<Longrightarrow> same_env b c \<Longrightarrow> same_env a c"
  by (simp add: same_env_def)

section \<open>Draining\<close>

text \<open>The packets buffered from the next number on.\<close>

definition run_of :: "merge \<Rightarrow> nat \<Rightarrow> pkt list" where
  "run_of m k = map (\<lambda>i. content_of (the (buffered m (mg_next_seq m + word_of_nat i)))) [0..<k]"

definition drained :: "merge \<Rightarrow> merge \<Rightarrow> nat \<Rightarrow> bool" where
  "drained m m' k \<longleftrightarrow>
     mg_next_seq m' = mg_next_seq m + word_of_nat k \<and>
     (\<forall>i<k. buffered m (mg_next_seq m + word_of_nat i) \<noteq> None) \<and>
     map content_of (mg_out m') = map content_of (mg_out m) @ run_of m k \<and>
     (\<forall>s. buffered m' s = (if \<exists>i<k. s = mg_next_seq m + word_of_nat i then None else buffered m s)) \<and>
     entry_ok m' (\<lambda>s. mg_next_seq m' < s) \<and> mg_pending m' = occupied m' \<and> occupied m' \<le> occupied m \<and>
     mg_notes m' = mg_notes m \<and> same_env m m'"

lemma drained_Suc:
  assumes D: "drained m1 m' k" and nxt: "mg_next_seq m1 = mg_next_seq m + 1"
    and out: "mg_out m1 = mg_out m @ [p\<lparr>pk_merge_emit_ns := t\<rparr>]"
    and buf: "\<And>s. buffered m1 s = (if s = mg_next_seq m then None else buffered m s)"
    and p: "buffered m (mg_next_seq m) = Some p"
    and rest: "occupied m1 \<le> occupied m" "mg_notes m1 = mg_notes m" "same_env m m1"
  shows "drained m m' (Suc k)"
proof -
  have step: "mg_next_seq m1 + word_of_nat i = mg_next_seq m + word_of_nat (Suc i)" for i
    by (simp add: nxt)
  have ne: "mg_next_seq m + word_of_nat (Suc i) \<noteq> mg_next_seq m" if "i < k" for i
    using D that unfolding drained_def step buf by metis
  have b: "buffered m1 (mg_next_seq m1 + word_of_nat i) = buffered m (mg_next_seq m + word_of_nat (Suc i))"
    if "i < k" for i
    unfolding step buf using ne [OF that] by simp
  have run: "run_of m (Suc k) = content_of p # run_of m1 k"
    unfolding run_of_def by (simp add: b p upt_conv_Cons map_Suc_upt [symmetric] o_def del: upt_Suc of_nat_Suc)
  have all: "(\<forall>i<Suc k. Q i) \<longleftrightarrow> Q 0 \<and> (\<forall>i<k. Q (Suc i))" "(\<exists>i<Suc k. Q i) \<longleftrightarrow> Q 0 \<or> (\<exists>i<k. Q (Suc i))" for Q
    by (auto simp: less_Suc_eq_0_disj)
  show ?thesis
    unfolding drained_def run all
  proof (intro conjI allI)
    note D' = D [unfolded drained_def step]
    show "mg_next_seq m' = mg_next_seq m + word_of_nat (Suc k)" using D' by simp
    show "buffered m (mg_next_seq m + word_of_nat 0) \<noteq> None" using p by simp
    show "i < k \<longrightarrow> buffered m (mg_next_seq m + word_of_nat (Suc i)) \<noteq> None" for i
      using D' b unfolding step by auto
    show "map content_of (mg_out m') = map content_of (mg_out m) @ content_of p # run_of m1 k"
      using D' out by simp
    show "buffered m' s = (if s = mg_next_seq m + word_of_nat 0 \<or> (\<exists>i<k. s = mg_next_seq m + word_of_nat (Suc i))
        then None else buffered m s)" for s
    proof -
      have "buffered m' s = (if \<exists>i<k. s = mg_next_seq m + word_of_nat (Suc i) then None else buffered m1 s)"
        using D' by blast
      then show ?thesis unfolding buf [of s] by (auto simp del: of_nat_Suc)
    qed
  qed (use D [unfolded drained_def] rest same_env_trans in \<open>auto simp del: of_nat_Suc\<close>)
qed

lemma drain_law:
  assumes "entry_ok m (\<lambda>s. mg_next_seq m \<le> s)" "mg_pending m = occupied m"
  shows "\<exists>k. drained m (drain ooo clk m) k"
  using assms
proof (induction ooo clk m rule: drain.induct)
  case (1 ooo clk m)
  let ?n = "mg_next_seq m"
  show ?case
  proof (cases "buffered m ?n")
    case None
    then have stop: "drain ooo clk m = m"
      by (subst drain.simps) (auto simp: buffered_def split: option.splits)
    have "entry_ok m (\<lambda>s. ?n < s)"
      by (rule entry_ok_mono [OF "1.prems"(1) refl]) (use None in \<open>auto simp: order_less_le\<close>)
    then show ?thesis unfolding stop using "1.prems"(2) by (intro exI [of _ 0]) (simp add: drained_def run_of_def)
  next
    case (Some p)
    then have at: "ring_at m ?n = Some (?n, p)" by (simp add: buffered_Some)
    define m1 where "m1 = m\<lparr>mg_ring := (mg_ring m)[ring_idx m ?n := None], mg_pending := mg_pending m - 1,
        mg_recent_ooo := (if ooo then sat_inc (mg_recent_ooo m) else mg_recent_ooo m)\<rparr>"
    define m2 where "m2 = forward clk p m1"
    define m3 where "m3 = m2\<lparr>mg_next_seq := mg_next_seq m2 + 1, mg_fwd_since_check := sat_inc (mg_fwd_since_check m2)\<rparr>"
    have step: "drain ooo clk m = drain ooo clk m3"
      by (subst drain.simps) (simp add: at m1_def m2_def m3_def Let_def)
    have ring: "mg_ring m3 = (mg_ring m)[ring_idx m ?n := None]" by (simp add: m1_def m2_def m3_def)
    have buf: "buffered m3 s = (if s = ?n then None else buffered m s)" for s
      by (rule buffered_clear [OF "1.prems"(1) at ring])
    have ok: "entry_ok m3 (\<lambda>s. ?n \<le> s)" by (rule entry_ok_update [OF "1.prems"(1) ring]) simp
    have next3: "mg_next_seq m3 = ?n + 1" by (simp add: m1_def m2_def m3_def)
    have "entry_ok m3 (\<lambda>s. mg_next_seq m3 \<le> s)" unfolding next3
      by (rule entry_ok_mono [OF ok refl]) (auto simp: buf order_less_le word_less_inc split: if_splits)
    moreover have occ: "Suc (occupied m3) = occupied m"
      using occupied_clear [of m ?n] at by (simp add: occupied_def ring)
    moreover have "mg_pending m3 = occupied m3" using occ "1.prems"(2) by (simp add: m1_def m2_def m3_def)
    ultimately obtain k where "drained m3 (drain ooo clk m3) k"
      using "1.IH" [OF at refl _ m1_def m2_def] unfolding m3_def by fastforce
    then have "drained m (drain ooo clk m3) (Suc k)"
    proof (rule drained_Suc [OF _ next3 _ buf Some])
      show "mg_out m3 = mg_out m @ [p\<lparr>pk_merge_emit_ns := clk (mg_clock m)\<rparr>]"
        by (simp add: m1_def m2_def m3_def)
    qed (use occ in \<open>auto simp: same_env_def m1_def m2_def m3_def\<close>)
    then show ?thesis unfolding step by blast
  qed
qed

section \<open>One packet\<close>

text \<open>The observable part of the state: next number, buffer, contents forwarded, gaps reported.\<close>

definition same_view :: "merge \<Rightarrow> merge \<Rightarrow> bool" where
  "same_view m m' \<longleftrightarrow> mg_next_seq m' = mg_next_seq m \<and> buffered m' = buffered m \<and>
     map content_of (mg_out m') = map content_of (mg_out m)"

text \<open>
  What handling the packet \<open>p\<close> does: a number already forwarded changes nothing; the next number is forwarded together with
  the maximal run buffered behind it; a number ahead, in the window and with room, is buffered if its slot is free;
  any other one is reported as a gap.
\<close>

definition took :: "merge_config \<Rightarrow> bool \<Rightarrow> pkt \<Rightarrow> merge \<Rightarrow> merge \<Rightarrow> bool" where
  "took cfg rec p m m' \<longleftrightarrow>
     (let s = pk_seq p; n = mg_next_seq m in
      if s < n then same_view m m' \<and> mg_notes m' = mg_notes m
      else if s = n then
        mg_notes m' = mg_notes m \<and>
        (\<exists>k. mg_next_seq m' = n + 1 + word_of_nat k \<and> buffered m' (mg_next_seq m') = None \<and>
             (\<forall>i<k. buffered m (n + 1 + word_of_nat i) \<noteq> None) \<and>
             map content_of (mg_out m') = map content_of (mg_out m) @ content_of p #
               map (\<lambda>i. content_of (the (buffered m (n + 1 + word_of_nat i)))) [0..<k] \<and>
             (\<forall>t. buffered m' t = (if \<exists>i<k. t = n + 1 + word_of_nat i then None else buffered m t)))
      else if s - n \<le> mg_window m \<and> mg_pending m < mc_max_pending cfg then
        mg_notes m' = mg_notes m \<and> mg_next_seq m' = n \<and> map content_of (mg_out m') = map content_of (mg_out m) \<and>
        buffered m' = (if ring_at m s = None then (buffered m)(s \<mapsto> p) else buffered m)
      else same_view m m' \<and> mg_notes m' = mg_notes m @ (if rec then [(n, s - 1)] else []))"

lemma merge_invD:
  assumes "merge_inv cfg m"
  shows "entry_ok m (\<lambda>s. mg_next_seq m < s)" "mg_pending m = occupied m" "mg_pending m \<le> mc_max_pending cfg"
  using assms by (simp_all add: merge_inv_def)

lemma next_law:
  assumes I: "merge_inv cfg m" and s: "pk_seq p = mg_next_seq m"
  shows "took cfg rec p m (next_pkt ooo clk p m) \<and> merge_inv cfg (next_pkt ooo clk p m) \<and>
    same_env m (next_pkt ooo clk p m)"
proof -
  note D = merge_invD [OF I]
  define m1 where "m1 = (forward clk p m)\<lparr>mg_next_seq := mg_next_seq m + 1, mg_moved := True\<rparr>"
  have pkt: "next_pkt ooo clk p m = drain ooo clk m1" by (simp add: next_pkt_def m1_def Let_def)
  have ring: "mg_ring m1 = mg_ring m" by (simp add: m1_def)
  note F = ring_frame [OF ring]
  have "entry_ok m1 (\<lambda>s. mg_next_seq m1 \<le> s)"
    by (rule entry_ok_mono [OF D(1) ring]) (simp add: m1_def word_less_inc)
  moreover have "mg_pending m1 = occupied m1" using D(2) by (simp add: F) (simp add: m1_def)
  ultimately obtain k where K: "drained m1 (drain ooo clk m1) k" using drain_law by blast
  have m1: "mg_next_seq m1 = mg_next_seq m + 1" "mg_notes m1 = mg_notes m" "same_env m m1" "mg_pending m1 = mg_pending m"
      "map content_of (mg_out m1) = map content_of (mg_out m) @ [content_of p]"
    by (simp_all add: m1_def same_env_def)
  note K' = K [unfolded drained_def run_of_def F m1]
  have "buffered (drain ooo clk m1) (mg_next_seq (drain ooo clk m1)) = None"
    using K' buffered_entry(2) by (metis not_None_eq order_less_irrefl)
  then have "took cfg rec p m (drain ooo clk m1)"
    using K' s unfolding took_def Let_def by (auto intro!: exI [of _ k])
  moreover have "entry_ok (drain ooo clk m1) (\<lambda>s. mg_next_seq (drain ooo clk m1) < s)"
      "mg_pending (drain ooo clk m1) = occupied (drain ooo clk m1)" "occupied (drain ooo clk m1) \<le> occupied m"
    using K' by blast+
  then have "merge_inv cfg (drain ooo clk m1)" using D(2,3) by (simp add: merge_inv_def)
  ultimately show ?thesis unfolding pkt using K' m1(3) same_env_trans by blast
qed

lemma ahead_law:
  assumes I: "merge_inv cfg m" and s: "mg_next_seq m < pk_seq p"
  shows "took cfg rec p m (ahead_pkt cfg rec p m) \<and> merge_inv cfg (ahead_pkt cfg rec p m) \<and>
    same_env m (ahead_pkt cfg rec p m)"
proof -
  note D = merge_invD [OF I]
  let ?s = "pk_seq p"
  have order: "\<not> ?s < mg_next_seq m" "?s \<noteq> mg_next_seq m" using s by auto
  show ?thesis
  proof (cases "?s - mg_next_seq m \<le> mg_window m \<and> mg_pending m < mc_max_pending cfg")
    case False
    then have a: "ahead_pkt cfg rec p m = report_gap rec ?s m" by (simp only: ahead_pkt_def Let_def) simp
    have ring: "mg_ring (report_gap rec ?s m) = mg_ring m" by (simp add: report_gap_def)
    show ?thesis
      unfolding a took_def merge_inv_def same_view_def same_env_def Let_def if_not_P [OF False]
        if_not_P [OF order(1)] if_not_P [OF order(2)]
      using s D by (simp add: ring_frame [OF ring] fun_eq_iff) (simp add: report_gap_def)
  next
    case True
    then have a: "ahead_pkt cfg rec p m = buffer_pkt ?s p m" by (simp add: ahead_pkt_def)
    show ?thesis
    proof (cases "ring_at m ?s")
      case None
      let ?m = "store_pkt ?s p m"
      have b: "buffer_pkt ?s p m = ?m" using None by (simp add: buffer_pkt_def)
      have ring: "mg_ring ?m = (mg_ring m)[ring_idx m ?s := Some (?s, p)]" by (simp add: store_pkt_def)
      have same: "mg_next_seq ?m = mg_next_seq m" "mg_notes ?m = mg_notes m" "mg_out ?m = mg_out m" "same_env m ?m"
          "mg_pending ?m = Suc (mg_pending m)"
        by (simp_all add: store_pkt_def same_env_def)
      have "buffered ?m = (buffered m)(?s \<mapsto> p)" by (rule ext) (simp add: buffered_store [OF D(1) None ring])
      moreover have "entry_ok ?m (\<lambda>s. mg_next_seq m < s)" by (rule entry_ok_update [OF D(1) ring]) (use s in auto)
      moreover have "occupied ?m = Suc (occupied m)" unfolding occupied_def ring
        using None ring_at_slot [OF D(1)] by (intro filter_fill ring_idx_less entry_okD(1) [OF D(1)]) simp
      ultimately show ?thesis unfolding a b took_def merge_inv_def Let_def using True order None D same by simp
    next
      case (Some e)
      obtain t q where e: "e = (t, q)" by (cases e)
      have "mg_next_seq m < t" using entry_at(3) [OF D(1)] Some e by blast
      then have b: "buffer_pkt ?s p m = m" using Some e by (simp add: buffer_pkt_def)
      show ?thesis unfolding a b took_def Let_def using True order Some I by simp
    qed
  qed
qed

lemma hysteresis_frame:
  "mg_qa (hysteresis clk a m) = mg_qa m" "mg_qb (hysteresis clk a m) = mg_qb m" "mg_qrec (hysteresis clk a m) = mg_qrec m"
  "mg_next_seq (hysteresis clk a m) = mg_next_seq m" "mg_window (hysteresis clk a m) = mg_window m"
  "mg_ring (hysteresis clk a m) = mg_ring m" "mg_pending (hysteresis clk a m) = mg_pending m"
  "mg_notes (hysteresis clk a m) = mg_notes m" "mg_out (hysteresis clk a m) = mg_out m"
  by (simp_all add: hysteresis_def dwell_over_def switch_to_def now_nanos_def Let_def)

lemma hysteresis_law:
  "took cfg rec p m (hysteresis clk a m') = took cfg rec p m m'"
  "merge_inv cfg (hysteresis clk a m') = merge_inv cfg m'" "same_env m (hysteresis clk a m') = same_env m m'"
proof -
  have b: "buffered (hysteresis clk a m') = buffered m'"
    by (rule ext) (rule ring_frame(3), simp add: hysteresis_frame)
  note F = ring_frame [OF hysteresis_frame(6)]
  show "took cfg rec p m (hysteresis clk a m') = took cfg rec p m m'"
    unfolding took_def same_view_def b hysteresis_frame ..
  show "merge_inv cfg (hysteresis clk a m') = merge_inv cfg m'" unfolding merge_inv_def F hysteresis_frame ..
  show "same_env m (hysteresis clk a m') = same_env m m'" unfolding same_env_def hysteresis_frame ..
qed

lemma stale_law: "merge_inv cfg m \<Longrightarrow> pk_seq p < mg_next_seq m \<Longrightarrow> took cfg rec p m m"
  by (simp add: took_def same_view_def)

lemma line_law:
  assumes "merge_inv cfg m"
  shows "took cfg rec p m (line_pkt cfg rec clk p m) \<and> merge_inv cfg (line_pkt cfg rec clk p m) \<and>
    same_env m (line_pkt cfg rec clk p m)"
  using assms next_law [OF assms, of p] ahead_law [OF assms, of p] stale_law [OF assms, of p]
  by (cases "pk_seq p" "mg_next_seq m" rule: linorder_cases) (auto simp: line_pkt_def hysteresis_law)

lemma recover_law:
  assumes "merge_inv cfg m"
  shows "took cfg rec p m (recover_pkt cfg rec clk p m) \<and> merge_inv cfg (recover_pkt cfg rec clk p m) \<and>
    same_env m (recover_pkt cfg rec clk p m)"
  using assms next_law [OF assms, of p] ahead_law [OF assms, of p] stale_law [OF assms, of p]
  by (cases "pk_seq p" "mg_next_seq m" rule: linorder_cases) (auto simp: recover_pkt_def)

section \<open>No aliasing\<close>

text \<open>
  The ring has a slot for every number of the configured window. As long as the window never outgrows it (it is
  not adapted, or not above its initial size), two numbers in the window never share a slot.
\<close>

definition fits :: "merge_config \<Rightarrow> bool" where
  "fits cfg \<longleftrightarrow> mc_reorder_window cfg \<noteq> - 1 \<and>
     (\<not> mc_adaptive cfg \<or> mc_reorder_window_max cfg \<le> mc_reorder_window cfg)"

definition in_window :: "merge_config \<Rightarrow> merge \<Rightarrow> bool" where
  "in_window cfg m \<longleftrightarrow> length (mg_ring m) = unat (mc_reorder_window cfg) + 1 \<and> mg_window m \<le> mc_reorder_window cfg \<and>
     (\<forall>s p. buffered m s = Some p \<longrightarrow> unat s - unat (mg_next_seq m) < length (mg_ring m))"

lemma ring_free:
  assumes "merge_inv cfg m" "in_window cfg m" "mg_next_seq m < s" "s - mg_next_seq m \<le> mg_window m"
  shows "ring_at m s = None \<longleftrightarrow> buffered m s = None"
proof
  note W = assms(2) [unfolded in_window_def]
  note E = merge_invD(1) [OF assms(1)]
  have "unat (s - mg_next_seq m) = unat s - unat (mg_next_seq m)" using assms(3) by (intro unat_minus_le) simp
  then have d: "unat s - unat (mg_next_seq m) < length (mg_ring m)"
    using assms(4) W by (simp add: word_le_nat_alt)
  assume none: "buffered m s = None"
  show "ring_at m s = None"
  proof (rule ccontr)
    assume "ring_at m s \<noteq> None"
    then obtain t q where t: "ring_at m s = Some (t, q)" by auto
    have ne: "t \<noteq> s" using none t by (auto simp: buffered_def)
    note at = entry_at [OF E t]
    have "buffered m t = Some q" using at(2) t ring_at_slot [OF E] by (simp add: buffered_Some)
    then have "unat t - unat (mg_next_seq m) < length (mg_ring m)" using W by blast
    moreover have "unat (mg_next_seq m) < unat t" "unat (mg_next_seq m) < unat s"
      using at(3) assms(3) by (simp_all add: word_less_nat_alt)
    moreover have "unat t mod length (mg_ring m) = unat s mod length (mg_ring m)" using at(2) by (simp add: ring_idx_def)
    ultimately have "unat t = unat s" using d mod_window_unique by blast
    then show False using ne by (simp add: unsigned_word_eqI)
  qed
qed (simp add: buffered_def)

text \<open>A run of buffered numbers does not pass the largest number.\<close>

lemma run_no_wrap:
  assumes "merge_inv cfg m" "\<And>i. i < k \<Longrightarrow> buffered m (mg_next_seq m + 1 + word_of_nat i) \<noteq> None"
  shows "unat (mg_next_seq m) + 1 + k \<le> 2 ^ 64"
proof (rule ccontr)
  assume c: "\<not> unat (mg_next_seq m) + 1 + k \<le> 2 ^ 64"
  define i where "i = 2 ^ 64 - 1 - unat (mg_next_seq m)"
  have i: "i < k" "unat (mg_next_seq m) + 1 + i = 2 ^ 64" using c unat_lt_u64 [of "mg_next_seq m"] unfolding i_def by linarith+
  have "mg_next_seq m + 1 + word_of_nat i = word_of_nat (unat (mg_next_seq m) + 1 + i)" by simp
  also have "\<dots> = 0" unfolding i(2) by simp
  finally have "mg_next_seq m + 1 + word_of_nat i = 0" .
  then obtain p where "buffered m 0 = Some p" using assms(2) [OF i(1)] by auto
  then show False using buffered_entry(2) [OF merge_invD(1) [OF assms(1)]] by fastforce
qed

lemma in_window_took:
  assumes W: "in_window cfg m" and T: "took cfg rec p m m'" and I: "merge_inv cfg m" "merge_inv cfg m'"
    and env: "same_env m m'"
  shows "in_window cfg m'"
proof -
  have near: "unat t - unat (mg_next_seq m') < length (mg_ring m)" if t: "buffered m' t = Some q" for t q
  proof (cases "pk_seq p = mg_next_seq m")
    case True
    let ?n = "mg_next_seq m"
    obtain k where K: "mg_next_seq m' = ?n + 1 + word_of_nat k"
        "\<And>i. i < k \<Longrightarrow> buffered m (?n + 1 + word_of_nat i) \<noteq> None"
        "\<And>t. buffered m' t = (if \<exists>i<k. t = ?n + 1 + word_of_nat i then None else buffered m t)"
      using T True unfolding took_def Let_def by auto
    have old: "buffered m t = Some q" and out: "\<not> (\<exists>i<k. t = ?n + 1 + word_of_nat i)"
      using t K(3) [of t] by (auto split: if_splits)
    have "?n < t" using buffered_entry(2) [OF merge_invD(1) [OF I(1)] old] .
    then have "?n + 1 \<le> t" by (rule word_less_inc)
    moreover have "t = ?n + 1 + word_of_nat (unat (t - (?n + 1)))" by simp
    ultimately have "\<not> unat (t - (?n + 1)) < k" using out by metis
    then have "unat ?n + 1 + k < 2 ^ 64"
      using \<open>?n < t\<close> unat_lt_u64 [of t] unat_minus_le [OF \<open>?n + 1 \<le> t\<close>] unat_inc_less [OF \<open>?n < t\<close>]
      by (simp add: word_less_nat_alt)
    then have "unat (mg_next_seq m') = unat ?n + 1 + k" unfolding K(1) by (rule unat_plus_nat)
    then show ?thesis using W old unfolding in_window_def by fastforce
  next
    case False
    then have same: "mg_next_seq m' = mg_next_seq m" and
      "buffered m' t = buffered m t \<or> t = pk_seq p \<and> mg_next_seq m < pk_seq p \<and> pk_seq p - mg_next_seq m \<le> mg_window m"
      using T unfolding took_def same_view_def Let_def by (auto split: if_splits simp: not_less)
    then consider "buffered m t = Some q" | "t = pk_seq p" "mg_next_seq m < t" "t - mg_next_seq m \<le> mg_window m"
      using t by auto
    then show ?thesis
    proof cases
      case 2
      then have "unat t - unat (mg_next_seq m) \<le> unat (mg_window m)"
        using unat_minus_le [of "mg_next_seq m" t] order_less_imp_le [OF 2(2)] word_le_nat_alt by metis
      then show ?thesis using W same by (simp add: in_window_def word_le_nat_alt)
    qed (use W same in \<open>auto simp: in_window_def\<close>)
  qed
  then show ?thesis using W env unfolding in_window_def same_env_def by simp
qed

section \<open>Runs\<close>

definition in_order :: "u64 \<Rightarrow> merge \<Rightarrow> bool" where
  "in_order start m \<longleftrightarrow>
     map pk_seq (mg_out m) = map (\<lambda>i. start + word_of_nat i) [0..<length (mg_out m)] \<and>
     mg_next_seq m = start + word_of_nat (length (mg_out m))"

definition kept :: "merge \<Rightarrow> pkt set" where
  "kept m = content_of ` (ran (buffered m) \<union> set (mg_out m))"

definition queued :: "merge \<Rightarrow> pkt set" where
  "queued m = content_of ` (set (concat (mg_qa m)) \<union> set (concat (mg_qb m)) \<union> set (concat (case mg_qrec m of None \<Rightarrow> [] | Some ps \<Rightarrow> [ps])))"

definition run_ok :: "merge_config \<Rightarrow> u64 \<Rightarrow> nat \<Rightarrow> nat \<Rightarrow> pkt set \<Rightarrow> merge \<Rightarrow> bool" where
  "run_ok cfg start na nb A m \<longleftrightarrow> merge_inv cfg m \<and> in_order start m \<and> kept m \<subseteq> A \<and> queued m \<subseteq> A \<and>
     length (mg_qa m) = na \<and> length (mg_qb m) = nb \<and> (fits cfg \<longrightarrow> in_window cfg m)"

lemma map_seq_content: "map pk_seq xs = map pk_seq (map content_of xs)"
  by simp

lemma upt_split: "[0..<a + Suc k] = [0..<a] @ a # map (\<lambda>i. a + 1 + i) [0..<k]"
  using upt_add_eq_append [of 0 a "Suc k"] map_add_upt [of "a + 1" k] by (simp add: upt_conv_Cons add.commute del: upt_Suc)

lemma kept_content: "kept m = content_of ` ran (buffered m) \<union> set (map content_of (mg_out m))"
  by (auto simp: kept_def)

lemma took_in_order:
  assumes T: "took cfg rec p m m'" and I: "merge_inv cfg m" and O: "in_order start m"
  shows "in_order start m'"
proof (cases "pk_seq p = mg_next_seq m")
  case False
  then have "mg_next_seq m' = mg_next_seq m \<and> map content_of (mg_out m') = map content_of (mg_out m)"
    using T unfolding took_def same_view_def Let_def by (auto split: if_splits)
  then show ?thesis using O unfolding in_order_def map_seq_content [of "mg_out m"] map_seq_content [of "mg_out m'"]
    by (metis length_map)
next
  case True
  let ?n = "mg_next_seq m" and ?L = "length (mg_out m)"
  obtain k where K: "mg_next_seq m' = ?n + 1 + word_of_nat k"
      "\<And>i. i < k \<Longrightarrow> buffered m (?n + 1 + word_of_nat i) \<noteq> None"
      "map content_of (mg_out m') = map content_of (mg_out m) @ content_of p #
         map (\<lambda>i. content_of (the (buffered m (?n + 1 + word_of_nat i)))) [0..<k]"
    using T True unfolding took_def Let_def by auto
  have seq: "pk_seq (the (buffered m (?n + 1 + word_of_nat i))) = start + word_of_nat (?L + 1 + i)" if "i < k" for i
    using K(2) [OF that] buffered_entry(1) [OF merge_invD(1) [OF I]] O by (fastforce simp: in_order_def)
  have len: "length (mg_out m') = ?L + Suc k" using arg_cong [OF K(3), of length] by simp
  have "map pk_seq (mg_out m') = map pk_seq (mg_out m) @ pk_seq p #
      map (\<lambda>i. pk_seq (the (buffered m (?n + 1 + word_of_nat i)))) [0..<k]"
    using arg_cong [OF K(3), of "map pk_seq"] by (simp add: o_def)
  also have "\<dots> = map (\<lambda>i. start + word_of_nat i) [0..<?L + Suc k]"
    unfolding upt_split using O True seq by (simp add: in_order_def)
  finally show ?thesis using O K(1) unfolding in_order_def len by simp
qed

lemma took_kept:
  assumes T: "took cfg rec p m m'"
  shows "kept m' \<subseteq> insert (content_of p) (kept m)"
proof (cases "pk_seq p = mg_next_seq m")
  case False
  then have "map content_of (mg_out m') = map content_of (mg_out m) \<and>
      (buffered m' = buffered m \<or> buffered m' = (buffered m)(pk_seq p \<mapsto> p))"
    using T unfolding took_def same_view_def Let_def by (auto split: if_splits)
  moreover from this have "ran (buffered m') \<subseteq> insert p (ran (buffered m))"
    by (auto simp: ran_def split: if_splits)
  ultimately show ?thesis unfolding kept_content by auto
next
  case True
  let ?n = "mg_next_seq m"
  obtain k where K: "\<And>i. i < k \<Longrightarrow> buffered m (?n + 1 + word_of_nat i) \<noteq> None"
      "map content_of (mg_out m') = map content_of (mg_out m) @ content_of p #
         map (\<lambda>i. content_of (the (buffered m (?n + 1 + word_of_nat i)))) [0..<k]"
      "\<And>t. buffered m' t = (if \<exists>i<k. t = ?n + 1 + word_of_nat i then None else buffered m t)"
    using T True unfolding took_def Let_def by auto
  have "ran (buffered m') \<subseteq> ran (buffered m)" by (auto simp: ran_def K(3) split: if_splits)
  moreover have "the (buffered m (?n + 1 + word_of_nat i)) \<in> ran (buffered m)" if "i < k" for i
    using K(1) [OF that] by (auto simp: ran_def)
  ultimately show ?thesis unfolding kept_content K(2) by auto
qed

lemma took_run:
  assumes "run_ok cfg start na nb A m" "content_of p \<in> A"
    "took cfg rec p m m' \<and> merge_inv cfg m' \<and> same_env m m'"
  shows "run_ok cfg start na nb A m'"
proof -
  have "merge_inv cfg m" "in_order start m" "kept m \<subseteq> A" using assms(1) by (simp_all add: run_ok_def)
  then have "in_order start m'" "kept m' \<subseteq> A"
    using took_in_order [of cfg rec p m m'] took_kept [of cfg rec p m m'] assms(2,3) by blast+
  moreover have "fits cfg \<longrightarrow> in_window cfg m'"
    using assms(1,3) in_window_took unfolding run_ok_def by blast
  ultimately show ?thesis using assms(1,3) unfolding run_ok_def same_env_def queued_def by auto
qed

text \<open>Changes of the queues and of the bookkeeping that no packet depends on.\<close>

lemma run_ok_frame:
  assumes "run_ok cfg start na nb A m" "mg_ring m' = mg_ring m" "mg_next_seq m' = mg_next_seq m"
    "mg_out m' = mg_out m" "mg_pending m' = mg_pending m" "queued m' \<subseteq> A"
    "length (mg_qa m') = na" "length (mg_qb m') = nb"
    "fits cfg \<Longrightarrow> mg_window m \<le> mc_reorder_window cfg \<Longrightarrow> mg_window m' \<le> mc_reorder_window cfg"
  shows "run_ok cfg start na nb A m'"
proof -
  have "buffered m' = buffered m" by (rule ext) (rule ring_frame(3) [OF assms(2)])
  moreover from this have "fits cfg \<longrightarrow> in_window cfg m'"
    using assms(1-3,9) by (auto simp: run_ok_def in_window_def)
  ultimately have "fits cfg \<longrightarrow> in_window cfg m'" "merge_inv cfg m' = merge_inv cfg m" "in_order start m' = in_order start m" "kept m' = kept m"
    unfolding merge_inv_def in_order_def kept_def ring_frame(4,5) [OF assms(2)] assms(3-5) by simp_all
  then show ?thesis using assms(1,6-8) by (simp add: run_ok_def)
qed

lemma queued_mono:
  assumes "set (concat (mg_qa m')) \<subseteq> set (concat (mg_qa m))" "set (concat (mg_qb m')) \<subseteq> set (concat (mg_qb m))"
    "mg_qrec m' = mg_qrec m"
  shows "queued m' \<subseteq> queued m"
  unfolding queued_def assms(3) using assms(1,2) by (intro image_mono Un_mono) auto

lemma recover_loop_run: "run_ok cfg start na nb A m \<Longrightarrow> run_ok cfg start na nb A (recover_loop cfg rec clk n m)"
proof (induction n arbitrary: m)
  case (Suc n)
  show ?case
  proof (cases "\<exists>p ps. mg_qrec m = Some (p # ps)")
    case True
    then obtain p ps where q: "mg_qrec m = Some (p # ps)" by blast
    let ?m = "m\<lparr>mg_qrec := Some ps\<rparr>"
    have "run_ok cfg start na nb A ?m" using Suc.prems
      by (rule run_ok_frame) (use Suc.prems q in \<open>auto simp: run_ok_def queued_def\<close>)
    moreover have "content_of p \<in> A" using Suc.prems q by (auto simp: run_ok_def queued_def)
    ultimately have "run_ok cfg start na nb A (recover_pkt cfg rec clk p ?m)"
      using took_run recover_law by (metis run_ok_def)
    then show ?thesis using Suc.IH q by simp
  next
    case False
    then show ?thesis using Suc.prems by (auto split: option.splits list.splits)
  qed
qed simp

lemma pop_line_law:
  assumes "0 < length qs"
  obtains qs' x where "pop_line idx qs = Some (qs', x)" "length qs' = length qs" "set (concat qs') \<subseteq> set (concat qs)"
    "\<And>p. x = Some p \<Longrightarrow> p \<in> set (concat qs)"
proof -
  let ?i = "idx mod length qs"
  have i: "?i < length qs" using assms by simp
  have mx: "max (length qs) 1 = length qs" using assms by (intro max_absorb1) linarith
  show thesis
  proof (cases "qs ! ?i")
    case Nil
    then show thesis using that [of qs None] i by (simp add: pop_line_def mx Let_def)
  next
    case (Cons p ps)
    have "set (concat (qs[?i := ps])) \<subseteq> set (concat qs)"
    proof
      fix x assume "x \<in> set (concat (qs[?i := ps]))"
      then obtain ys where ys: "ys \<in> set (qs[?i := ps])" "x \<in> set ys" by auto
      then have "ys = ps \<or> ys \<in> set qs" using set_update_subset_insert [of qs ?i ps] by blast
      moreover have "p # ps \<in> set qs" using nth_mem [OF i] Cons by simp
      ultimately show "x \<in> set (concat qs)" using ys(2) by (metis UN_I list.set_intros(2) set_concat)
    qed
    moreover have "p \<in> set (concat qs)" using nth_mem [OF i] Cons by (metis UN_I list.set_intros(1) set_concat)
    ultimately show thesis using that [of "qs[?i := ps]" "Some p"] i Cons by (simp add: pop_line_def mx Let_def)
  qed
qed

lemma take_line_run:
  assumes R: "run_ok cfg start na nb A m" and pos: "0 < na" "0 < nb"
  shows "\<exists>m'. take_line cfg rec clk src m = Some m' \<and> run_ok cfg start na nb A m'"
proof -
  have step: "run_ok cfg start na nb A (case x of None \<Rightarrow> m1 | Some p \<Rightarrow> line_pkt cfg rec clk p m1)"
    if "run_ok cfg start na nb A m1" "\<And>p. x = Some p \<Longrightarrow> content_of p \<in> A" for x m1
  proof (cases x)
    case (Some p)
    have "merge_inv cfg m1" using that(1) by (simp add: run_ok_def)
    then show ?thesis using took_run [OF that(1) that(2) [OF Some] line_law] Some by simp
  qed (use that(1) in simp)
  note q = R [unfolded run_ok_def queued_def]
  show ?thesis
  proof (cases "(src = 0) = mg_prefer_a m")
    case True
    obtain qs x where P: "pop_line (mg_idx_a m) (mg_qa m) = Some (qs, x)" "length qs = length (mg_qa m)"
        "set (concat qs) \<subseteq> set (concat (mg_qa m))" "\<And>p. x = Some p \<Longrightarrow> p \<in> set (concat (mg_qa m))"
      using pop_line_law [of "mg_qa m" "mg_idx_a m"] pos q by blast
    have "run_ok cfg start na nb A (m\<lparr>mg_qa := qs, mg_idx_a := usize_add (mg_idx_a m) 1\<rparr>)"
      using queued_mono [of "m\<lparr>mg_qa := qs, mg_idx_a := usize_add (mg_idx_a m) 1\<rparr>" m] P(2,3) R
      by (intro run_ok_frame [OF R]) (auto simp: run_ok_def)
    moreover have "content_of p \<in> A" if "x = Some p" for p using P(4) [OF that] q by blast
    ultimately show ?thesis unfolding take_line_def Let_def if_P [OF True] P(1) using step by simp
  next
    case False
    obtain qs x where P: "pop_line (mg_idx_b m) (mg_qb m) = Some (qs, x)" "length qs = length (mg_qb m)"
        "set (concat qs) \<subseteq> set (concat (mg_qb m))" "\<And>p. x = Some p \<Longrightarrow> p \<in> set (concat (mg_qb m))"
      using pop_line_law [of "mg_qb m" "mg_idx_b m"] pos q by blast
    have "run_ok cfg start na nb A (m\<lparr>mg_qb := qs, mg_idx_b := usize_add (mg_idx_b m) 1\<rparr>)"
      using queued_mono [of "m\<lparr>mg_qb := qs, mg_idx_b := usize_add (mg_idx_b m) 1\<rparr>" m] P(2,3) R
      by (intro run_ok_frame [OF R]) (auto simp: run_ok_def)
    moreover have "content_of p \<in> A" if "x = Some p" for p using P(4) [OF that] q by blast
    ultimately show ?thesis unfolding take_line_def Let_def if_not_P [OF False] P(1) using step by simp
  qed
qed

lemma adapt_frame:
  "mg_ring (adapt cfg m) = mg_ring m" "mg_next_seq (adapt cfg m) = mg_next_seq m" "mg_out (adapt cfg m) = mg_out m"
  "mg_pending (adapt cfg m) = mg_pending m" "mg_qa (adapt cfg m) = mg_qa m" "mg_qb (adapt cfg m) = mg_qb m"
  "mg_qrec (adapt cfg m) = mg_qrec m" "mg_notes (adapt cfg m) = mg_notes m"
  by (simp_all add: adapt_def Let_def)

lemma sat_sub_le: "sat_sub a b \<le> (a :: u64)"
  by (simp add: word_le_nat_alt unat_sat_sub)

lemma adapt_window:
  assumes "fits cfg" "mg_window m \<le> mc_reorder_window cfg"
  shows "mg_window (adapt cfg m) \<le> mc_reorder_window cfg"
proof (cases "mc_adaptive cfg")
  case True
  then have mx: "mc_reorder_window_max cfg \<le> mc_reorder_window cfg" using assms(1) by (simp add: fits_def)
  have "max (sat_sub w x) 8 \<le> mc_reorder_window cfg" if "8 < w" "w \<le> mc_reorder_window cfg" for w x
    using that(2) order_trans [OF sat_sub_le that(2)] order_trans [OF order_less_imp_le [OF that(1)] that(2)] by simp
  then show ?thesis using assms(2) mx by (auto simp: adapt_def Let_def min_le_iff_disj)
qed (use assms(2) in \<open>simp add: adapt_def\<close>)

lemma merge_iter_run:
  assumes R: "run_ok cfg start na nb A m" and pos: "0 < na" "0 < nb"
  shows "\<exists>m'. merge_iter cfg rec clk m = Some m' \<and> run_ok cfg start na nb A m'"
proof -
  have "run_ok cfg start na nb A (m\<lparr>mg_moved := False\<rparr>)"
    by (rule run_ok_frame [OF R]) (use R in \<open>auto simp: run_ok_def queued_def\<close>)
  from recover_loop_run [OF this, of rec clk 32] take_line_run [OF _ pos] obtain m1 m2 where
    m1: "take_line cfg rec clk 0 (recover_loop cfg rec clk 32 (m\<lparr>mg_moved := False\<rparr>)) = Some m1"
    and m2: "take_line cfg rec clk 1 m1 = Some m2" "run_ok cfg start na nb A m2" by blast
  have "run_ok cfg start na nb A (adapt cfg m2)"
    by (rule run_ok_frame [OF m2(2)]) (use m2(2) adapt_window in \<open>auto simp: run_ok_def queued_def adapt_frame\<close>)
  then show ?thesis using m1 m2(1) by (simp add: merge_iter_def)
qed

lemma sat_inc_pos: "0 < unat (sat_inc (w :: 'a::len word))"
proof -
  have "sat_inc w \<noteq> 0" by (auto simp: sat_inc_def eq_neg_iff_add_eq_0)
  then show ?thesis by (simp add: unat_gt_0)
qed

lemma merge_init_run:
  assumes "qrec = None \<or> qrec = Some []"
  shows "run_ok cfg (mc_next_seq cfg) na nb {} (merge_init cfg clk (replicate na []) (replicate nb []) qrec)"
proof -
  have "ring_at (merge_init cfg clk qa qb q) s = None" for qa qb q s
    using ring_idx_less [of "merge_init cfg clk qa qb q" s] by (auto simp: ring_at_def merge_init_def)
  then have "buffered (merge_init cfg clk qa qb q) = (\<lambda>s. None)" for qa qb q by (simp add: buffered_def fun_eq_iff)
  moreover have "unat (sat_inc (mc_reorder_window cfg)) = unat (mc_reorder_window cfg) + 1" if "fits cfg"
    using that unat_inc_less [of "mc_reorder_window cfg" "- 1"] by (auto simp: fits_def sat_inc_def order_less_le)
  ultimately show ?thesis using assms sat_inc_pos [of "mc_reorder_window cfg"]
    by (auto simp: run_ok_def merge_inv_def entry_ok_def occupied_def in_order_def kept_def queued_def
        in_window_def merge_init_def)
qed

lemma run_ok_mono: "run_ok cfg start na nb A m \<Longrightarrow> A \<subseteq> B \<Longrightarrow> run_ok cfg start na nb B m"
  by (auto simp: run_ok_def)

lemma arrive_queue:
  assumes "i < length qs"
  shows "set (concat (qs[i := qs ! i @ [p]])) \<subseteq> insert p (set (concat qs))"
proof
  fix x assume "x \<in> set (concat (qs[i := qs ! i @ [p]]))"
  then obtain ys where ys: "ys \<in> set (qs[i := qs ! i @ [p]])" "x \<in> set ys" by auto
  then have "ys = qs ! i @ [p] \<or> ys \<in> set qs" using set_update_subset_insert by fastforce
  then show "x \<in> insert p (set (concat qs))" using ys(2) nth_mem [OF assms] by auto
qed

lemma arrive_run:
  assumes "run_ok cfg start na nb (content_of ` set arr) m" "mg_ring m' = mg_ring m" "mg_next_seq m' = mg_next_seq m"
    "mg_out m' = mg_out m" "mg_pending m' = mg_pending m" "queued m' \<subseteq> insert (content_of p) (queued m)"
    "length (mg_qa m') = length (mg_qa m)" "length (mg_qb m') = length (mg_qb m)" "mg_window m' = mg_window m"
  shows "run_ok cfg start na nb (content_of ` set (arr @ [p])) m'"
proof -
  have "run_ok cfg start na nb (content_of ` set (arr @ [p])) m" by (rule run_ok_mono [OF assms(1)]) auto
  from run_ok_frame [OF this assms(2-5)] show ?thesis using assms(1,6-9) by (auto simp: run_ok_def)
qed

lemma merge_run_ok:
  assumes pos: "0 < na" "0 < nb"
  shows "merge_run cfg rec clk na nb arr m \<Longrightarrow> run_ok cfg (mc_next_seq cfg) na nb (content_of ` set arr) m"
proof (induction rule: merge_run.induct)
  case (start_up qrec)
  then show ?case using merge_init_run by simp
next
  case (arrive_a arr m i p)
  then have "i < length (mg_qa m)" by (simp add: run_ok_def)
  from arrive_queue [OF this, of p] show ?case
    by (intro arrive_run [OF arrive_a.IH]) (auto simp: queued_def)
next
  case (arrive_b arr m i p)
  then have "i < length (mg_qb m)" by (simp add: run_ok_def)
  from arrive_queue [OF this, of p] show ?case
    by (intro arrive_run [OF arrive_b.IH]) (auto simp: queued_def)
next
  case (arrive_rec arr m ps p)
  then show ?case by (intro arrive_run [OF arrive_rec.IH]) (auto simp: queued_def)
next
  case (iterate arr m m')
  then show ?case using merge_iter_run [OF iterate.IH pos, of rec clk] by auto
qed

section \<open>Properties\<close>

text \<open>
  C6: Whatever the configuration, the arrivals, the clock and the interleaving, the arbiter never panics and what it
  has forwarded is the sequence numbers \<open>next_seq, next_seq + 1, ...\<close>, each exactly once and in order; every forwarded
  packet is one that arrived, unchanged but for the arbiter's time stamp, and \<open>pending_count\<close> is the number
  of occupied slots, at most \<open>max_pending\<close>.
\<close>

theorem merge_output_in_order:
  assumes "merge_run cfg rec clk na nb arr m" "0 < na" "0 < nb"
  shows "map pk_seq (mg_out m) = map (\<lambda>i. mc_next_seq cfg + word_of_nat i) [0..<length (mg_out m)] \<and>
    mg_next_seq m = mc_next_seq cfg + word_of_nat (length (mg_out m)) \<and>
    content_of ` set (mg_out m) \<subseteq> content_of ` set arr \<and>
    mg_pending m = occupied m \<and> mg_pending m \<le> mc_max_pending cfg \<and>
    merge_iter cfg rec clk m \<noteq> None"
proof -
  note R = merge_run_ok [OF assms(2,3,1)]
  obtain m' where "merge_iter cfg rec clk m = Some m'" using merge_iter_run [OF R assms(2,3)] by blast
  then show ?thesis using R unfolding run_ok_def in_order_def merge_inv_def kept_def by (auto simp: image_Un)
qed

text \<open>A small configuration and packets for the examples.\<close>

definition demo_cfg :: merge_config where
  "demo_cfg = \<lparr>mc_next_seq = 1, mc_reorder_window = 4, mc_max_pending = 64, mc_dwell_ns = 0, mc_adaptive = False,
     mc_reorder_window_max = 8\<rparr>"

definition demo_pkt :: "u64 \<Rightarrow> pkt" where
  "demo_pkt s = \<lparr>pk_buf = Buf_Bytes [], pk_len = 0, pk_seq = s, pk_ts_nanos = 0, pk_chan = 65, pk_ts_kind = Ts_Sw,
     pk_merge_emit_ns = 0\<rparr>"

lemma demo_run:
  "\<exists>m. merge_run demo_cfg True (\<lambda>_. 7) 1 1 [demo_pkt 1] m \<and> mg_out m = [(demo_pkt 1)\<lparr>pk_merge_emit_ns := 7\<rparr>]"
proof -
  define m0 where "m0 = merge_init demo_cfg (\<lambda>_. 7) (replicate 1 []) (replicate 1 []) None"
  define m1 where "m1 = m0\<lparr>mg_qa := (mg_qa m0)[0 := mg_qa m0 ! 0 @ [demo_pkt 1]]\<rparr>"
  have "merge_run demo_cfg True (\<lambda>_. 7) 1 1 [] m0" unfolding m0_def by (rule start_up) simp
  then have "merge_run demo_cfg True (\<lambda>_. 7) 1 1 ([] @ [demo_pkt 1]) m1" unfolding m1_def by (rule arrive_a) simp
  moreover have "map_option mg_out (merge_iter demo_cfg True (\<lambda>_. 7) m1) = Some [(demo_pkt 1)\<lparr>pk_merge_emit_ns := 7\<rparr>]"
    unfolding m1_def m0_def by code_simp
  ultimately show ?thesis using iterate by fastforce
qed

theorem merge_output_in_order_witness:
  "\<exists>m. merge_run demo_cfg True (\<lambda>_. 7) 1 1 [demo_pkt 1] m \<and> map pk_seq (mg_out m) = [1] \<and> mg_next_seq m = 2 \<and>
     merge_iter demo_cfg True (\<lambda>_. 7) m \<noteq> None"
proof -
  obtain m where m: "merge_run demo_cfg True (\<lambda>_. 7) 1 1 [demo_pkt 1] m"
      "mg_out m = [(demo_pkt 1)\<lparr>pk_merge_emit_ns := 7\<rparr>]"
    using demo_run by blast
  from merge_output_in_order [OF m(1)] m show ?thesis by (auto simp: demo_cfg_def)
qed

end
