(* ===== verification/Merge_Spec.thy ===== *)
theory Merge_Spec
  imports Merge_Order
begin

text \<open>
  The arbiter of \<open>Merge\<close> against an abstract reassembler.

  \<^item> \<open>reasm\<close>, \<open>receive\<close>: the next number, a map of buffered packets, the contents forwarded and the gaps reported.
  \<^item> \<open>view_of\<close> maps the arbiter's state to it; \<open>line_refines\<close>, \<open>recover_refines\<close>: a packet from a line or from recovery is
    received as the abstract reassembler receives it, whenever the window fits the ring.
  \<^item> \<open>block_state\<close>: the state of the reassembler after some packets of a block, in whatever order; \<open>receive_block_step\<close>: one more.
  \<^item> the preference switch, the growth of the window beyond the ring, and the delivery into the output ring.
\<close>

record reasm =
  ra_next :: u64
  ra_buf :: "u64 \<Rightarrow> pkt option"
  ra_out :: "pkt list"
  ra_gaps :: "(u64 \<times> u64) list"

text \<open>The length of the run of buffered numbers from \<open>n\<close> on.\<close>

definition run_length :: "(u64 \<Rightarrow> pkt option) \<Rightarrow> u64 \<Rightarrow> nat" where
  "run_length buf n = (LEAST k. buf (n + word_of_nat k) = None)"

definition receive :: "u64 \<Rightarrow> nat \<Rightarrow> bool \<Rightarrow> pkt \<Rightarrow> reasm \<Rightarrow> reasm" where
  "receive window max_pending rec p a =
     (let s = pk_seq p; n = ra_next a; buf = ra_buf a in
      if s < n then a
      else if s = n then
        let k = run_length buf (n + 1) in
        a\<lparr>ra_next := n + 1 + word_of_nat k,
          ra_buf := (\<lambda>t. if \<exists>i<k. t = n + 1 + word_of_nat i then None else buf t),
          ra_out := ra_out a @ content_of p # map (\<lambda>i. content_of (the (buf (n + 1 + word_of_nat i)))) [0..<k]\<rparr>
      else if s - n \<le> window \<and> card (dom buf) < max_pending then
        a\<lparr>ra_buf := (if buf s = None then buf(s \<mapsto> p) else buf)\<rparr>
      else a\<lparr>ra_gaps := ra_gaps a @ (if rec then [(n, s - 1)] else [])\<rparr>)"

definition view_of :: "merge \<Rightarrow> reasm" where
  "view_of m = \<lparr>ra_next = mg_next_seq m, ra_buf = buffered m, ra_out = map content_of (mg_out m), ra_gaps = mg_notes m\<rparr>"

section \<open>Refinement\<close>

lemma card_buffered:
  assumes E: "entry_ok m P"
  shows "card (dom (buffered m)) = occupied m"
proof -
  let ?S = "{i. i < length (mg_ring m) \<and> mg_ring m ! i \<noteq> None}"
  have "bij_betw (ring_idx m) (dom (buffered m)) ?S"
  proof (rule bij_betwI')
    fix s t assume "s \<in> dom (buffered m)" "t \<in> dom (buffered m)"
    then show "(ring_idx m s = ring_idx m t) = (s = t)"
      by (auto simp: buffered_Some ring_at_slot [OF E])
  next
    fix s assume "s \<in> dom (buffered m)"
    then show "ring_idx m s \<in> ?S"
      using ring_idx_less [OF entry_okD(1) [OF E]] by (auto simp: buffered_Some ring_at_slot [OF E])
  next
    fix i assume "i \<in> ?S"
    then obtain s p where i: "i < length (mg_ring m)" "mg_ring m ! i = Some (s, p)" by auto
    then show "\<exists>s\<in>dom (buffered m). i = ring_idx m s"
      using entry_okD(2) [OF E i] entry_buffered [OF E i] by (intro bexI [of _ s]) auto
  qed
  then show ?thesis unfolding occupied_def length_filter_conv_card by (rule bij_betw_same_card)
qed

lemma word_of_nat_inj_u64: "i < 2 ^ 64 \<Longrightarrow> k < 2 ^ 64 \<Longrightarrow> (word_of_nat i :: u64) = word_of_nat k \<longleftrightarrow> i = k"
proof
  assume *: "i < 2 ^ 64" "k < 2 ^ 64" "(word_of_nat i :: u64) = word_of_nat k"
  then have "unat (word_of_nat i :: u64) = unat (word_of_nat k :: u64)" by simp
  then show "i = k" using *(1,2) by (simp add: unat_of_nat take_bit_eq_mod)
qed simp

lemma run_length_eq:
  assumes "\<And>i. i < k \<Longrightarrow> buf (n + word_of_nat i) \<noteq> None" "buf (n + word_of_nat k) = None"
  shows "run_length buf n = k"
  unfolding run_length_def
proof (rule Least_equality)
  show "buf (n + word_of_nat k) = None" by (rule assms(2))
  show "k \<le> y" if "buf (n + word_of_nat y) = None" for y using that assms(1) [of y] by (metis not_less)
qed

lemma took_receive:
  assumes T: "took cfg rec p m m'" and I: "merge_inv cfg m" and W: "in_window cfg m"
  shows "view_of m' = receive (mg_window m) (mc_max_pending cfg) rec p (view_of m)"
proof -
  let ?n = "mg_next_seq m" and ?s = "pk_seq p"
  have c: "card (dom (buffered m)) = mg_pending m"
    using card_buffered [OF merge_invD(1) [OF I]] merge_invD(2) [OF I] by simp
  consider "?s < ?n" | "?s = ?n" | "?n < ?s" by (rule linorder_cases)
  then show ?thesis
  proof cases
    case 1
    then show ?thesis using T by (simp add: took_def same_view_def view_of_def receive_def)
  next
    case 2
    then obtain k where K: "mg_notes m' = mg_notes m" "mg_next_seq m' = ?n + 1 + word_of_nat k"
        "buffered m' (mg_next_seq m') = None" "\<And>i. i < k \<Longrightarrow> buffered m (?n + 1 + word_of_nat i) \<noteq> None"
        "map content_of (mg_out m') = map content_of (mg_out m) @ content_of p #
           map (\<lambda>i. content_of (the (buffered m (?n + 1 + word_of_nat i)))) [0..<k]"
        "\<And>t. buffered m' t = (if \<exists>i<k. t = ?n + 1 + word_of_nat i then None else buffered m t)"
      using T unfolding took_def Let_def by auto
    have small: "k < 2 ^ 64" using run_no_wrap [of cfg m k, OF I K(4)] by linarith
    have "i = k" if "i < k" "?n + 1 + word_of_nat k = ?n + 1 + word_of_nat i" for i
      using that small word_of_nat_inj_u64 [of i k] by simp
    then have "buffered m (?n + 1 + word_of_nat k) = None" using K(2,3,6) by (metis nat_neq_iff)
    then have k: "run_length (buffered m) (?n + 1) = k" by (intro run_length_eq K(4))
    have "buffered m' = (\<lambda>t. if \<exists>i<k. t = ?n + 1 + word_of_nat i then None else buffered m t)"
      by (rule ext) (rule K(6))
    then show ?thesis using 2 K(1,2,5) by (simp add: view_of_def receive_def Let_def k)
  next
    case 3
    then have "\<not> ?s < ?n" "?s \<noteq> ?n" by auto
    then show ?thesis using T 3 ring_free [OF I W 3] unfolding took_def same_view_def Let_def
      by (auto simp: view_of_def receive_def Let_def c)
  qed
qed

lemma line_refines:
  assumes "merge_inv cfg m" "in_window cfg m"
  shows "view_of (line_pkt cfg rec clk p m) = receive (mg_window m) (mc_max_pending cfg) rec p (view_of m)"
    "merge_inv cfg (line_pkt cfg rec clk p m)" "in_window cfg (line_pkt cfg rec clk p m)"
    "mg_window (line_pkt cfg rec clk p m) = mg_window m"
  using line_law [OF assms(1), of rec p clk] took_receive [OF _ assms] in_window_took [OF assms(2) _ assms(1)]
  by (auto simp: same_env_def)

lemma recover_refines:
  assumes "merge_inv cfg m" "in_window cfg m"
  shows "view_of (recover_pkt cfg rec clk p m) = receive (mg_window m) (mc_max_pending cfg) rec p (view_of m)"
  using recover_law [OF assms(1), of rec p clk] took_receive [OF _ assms] by blast

section \<open>Reassembly of a block\<close>

text \<open>The least number of \<open>nat\<close> not in a set.\<close>

definition mex :: "nat set \<Rightarrow> nat" where
  "mex R = (LEAST i. i \<notin> R)"

lemma mex_props:
  assumes "finite R"
  shows "mex R \<notin> R" "i < mex R \<Longrightarrow> i \<in> R"
proof -
  obtain j where "j \<notin> R" using assms by (metis ex_new_if_finite infinite_UNIV_nat)
  then show "mex R \<notin> R" unfolding mex_def by (rule LeastI)
  show "i \<in> R" if "i < mex R" using that unfolding mex_def by (auto dest: not_less_Least)
qed

lemma mexI: "k \<notin> R \<Longrightarrow> (\<And>i. i < k \<Longrightarrow> i \<in> R) \<Longrightarrow> mex R = k"
  unfolding mex_def by (rule Least_equality) (auto simp: not_less [symmetric])

lemma mex_upto: "mex {..<n} = n"
  by (rule mexI) auto

text \<open>
  The state after the packets \<open>f i\<close>, \<open>i \<in> R\<close>, of a block that starts at \<open>n0\<close> have been received, in whatever order.
\<close>

definition block_state :: "u64 \<Rightarrow> (nat \<Rightarrow> pkt) \<Rightarrow> pkt list \<Rightarrow> (u64 \<times> u64) list \<Rightarrow> nat set \<Rightarrow> reasm" where
  "block_state n0 f out gaps R =
     \<lparr>ra_next = n0 + word_of_nat (mex R),
      ra_buf = (\<lambda>t. let i = unat (t - n0) in if i \<in> R \<and> mex R < i then Some (f i) else None),
      ra_out = out @ map (\<lambda>i. content_of (f i)) [0..<mex R],
      ra_gaps = gaps\<rparr>"

lemma unat_diff_base: "i < 2 ^ 64 \<Longrightarrow> unat (n0 + word_of_nat i - n0 :: u64) = i"
  by (simp add: unat_of_nat take_bit_eq_mod)

lemma block_less:
  assumes "unat (n0 :: u64) + i < 2 ^ 64" "unat n0 + j < 2 ^ 64"
  shows "n0 + word_of_nat i < n0 + word_of_nat j \<longleftrightarrow> i < j"
proof -
  have "unat (n0 + word_of_nat i) = unat n0 + i" if "unat n0 + i < 2 ^ 64" for i
    using that by (simp add: unat_word_ariths unat_of_nat take_bit_eq_mod)
  then show ?thesis using assms by (simp add: word_less_nat_alt)
qed

definition block_ok :: "u64 \<Rightarrow> nat \<Rightarrow> u64 \<Rightarrow> nat \<Rightarrow> (nat \<Rightarrow> pkt) \<Rightarrow> bool" where
  "block_ok n0 n window max_pending f \<longleftrightarrow>
     unat n0 + n < 2 ^ 64 \<and> n \<le> unat window + 1 \<and> n \<le> max_pending + 1 \<and> (\<forall>i<n. pk_seq (f i) = n0 + word_of_nat i)"

lemma diff_base_iff: "i < 2 ^ 64 \<Longrightarrow> unat (t - n0) = i \<longleftrightarrow> t = n0 + word_of_nat i" for t n0 :: u64
proof
  assume "unat (t - n0) = i"
  then have "n0 + word_of_nat i = n0 + word_of_nat (unat (t - n0))" by simp
  then show "t = n0 + word_of_nat i" by simp
qed (use unat_diff_base [of i n0] in simp)

lemma receive_next:
  assumes B: "block_ok n0 n W mp f" and R: "R \<subseteq> {..<n}" and j: "j = mex R" "j < n"
  shows "receive W mp rec (f j) (block_state n0 f out gaps R) = block_state n0 f out gaps (insert j R)"
proof -
  have fin: "finite R" using R finite_subset by blast
  note M = mex_props [OF fin] and M' = mex_props [of "insert j R"]
  have fin': "finite (insert j R)" using fin by simp
  define k where "k = mex (insert j R) - j - 1"
  have "\<not> mex (insert j R) \<le> j" using M'(1) M(2) fin' j(1) by (metis insertCI order_le_less)
  then have L': "mex (insert j R) = j + Suc k" unfolding k_def by simp
  have "\<not> n < mex (insert j R)" using M'(2) [OF fin', of n] R j(2) by auto
  then have kn: "j + Suc k \<le> n" using L' by simp
  have n64: "n < 2 ^ 64" using B by (simp add: block_ok_def)
  let ?buf = "ra_buf (block_state n0 f out gaps R)"
  have idx: "unat (n0 + word_of_nat j + 1 + word_of_nat i - n0) = j + 1 + i" if "i \<le> k" for i
  proof -
    have "n0 + word_of_nat j + 1 + word_of_nat i = n0 + word_of_nat (j + 1 + i)" by simp
    then show ?thesis using unat_diff_base [of "j + 1 + i" n0] that kn n64 by (metis add_Suc_right add_le_cancel_left add.assoc Suc_eq_plus1 le_less_trans plus_1_eq_Suc order_trans Suc_le_mono)
  qed
  have mem: "j + 1 + i \<in> R" if "i < k" for i using M'(2) [OF fin', of "j + 1 + i"] that L' by auto
  have buf: "?buf (n0 + word_of_nat j + 1 + word_of_nat i) = Some (f (j + 1 + i))" if "i < k" for i
    using idx [of i] mem [OF that] that j(1) by (simp add: block_state_def Let_def)
  have "?buf (n0 + word_of_nat j + 1 + word_of_nat k) = None"
    using idx [of k] M'(1) [OF fin'] L' by (simp add: block_state_def Let_def)
  with buf have k: "run_length ?buf (n0 + word_of_nat j + 1) = k" by (intro run_length_eq) auto
  have new: "(\<lambda>t. if \<exists>i<k. t = n0 + word_of_nat j + 1 + word_of_nat i then None else ?buf t) =
      ra_buf (block_state n0 f out gaps (insert j R))" (is "?l = ?r")
  proof
    fix t
    have "(\<exists>i<k. t = n0 + word_of_nat j + 1 + word_of_nat i) \<longleftrightarrow> j < unat (t - n0) \<and> unat (t - n0) < j + Suc k"
    proof
      assume "\<exists>i<k. t = n0 + word_of_nat j + 1 + word_of_nat i"
      then show "j < unat (t - n0) \<and> unat (t - n0) < j + Suc k" using idx by fastforce
    next
      assume u: "j < unat (t - n0) \<and> unat (t - n0) < j + Suc k"
      have "n0 + word_of_nat (j + 1 + (unat (t - n0) - j - 1)) = n0 + word_of_nat (unat (t - n0))" using u by simp
      then have "t = n0 + word_of_nat j + 1 + word_of_nat (unat (t - n0) - j - 1)" by (simp add: ac_simps)
      then show "\<exists>i<k. t = n0 + word_of_nat j + 1 + word_of_nat i" using u
        by (intro exI [of _ "unat (t - n0) - j - 1"]) auto
    qed
    then have "?l t = (if j < unat (t - n0) \<and> unat (t - n0) < j + Suc k then None
        else if unat (t - n0) \<in> R \<and> j < unat (t - n0) then Some (f (unat (t - n0))) else None)"
      by (simp add: block_state_def Let_def j(1) [symmetric])
    moreover have "?r t = (if unat (t - n0) \<in> insert j R \<and> j + Suc k < unat (t - n0) then Some (f (unat (t - n0))) else None)"
      by (simp add: block_state_def Let_def L')
    moreover have "j + Suc k \<notin> R" using M'(1) [OF fin'] L' by simp
    ultimately show "?l t = ?r t" by (cases "unat (t - n0)" "j + Suc k" rule: linorder_cases) auto
  qed
  have s: "pk_seq (f j) = n0 + word_of_nat j" using B j(2) by (simp add: block_ok_def)
  have nx: "ra_next (block_state n0 f out gaps R) = n0 + word_of_nat j" by (simp add: block_state_def j(1))
  have "receive W mp rec (f j) (block_state n0 f out gaps R) = (block_state n0 f out gaps R)
      \<lparr>ra_next := n0 + word_of_nat j + 1 + word_of_nat k, ra_buf := ?r,
       ra_out := ra_out (block_state n0 f out gaps R) @ content_of (f j) #
         map (\<lambda>i. content_of (the (?buf (n0 + word_of_nat j + 1 + word_of_nat i)))) [0..<k]\<rparr>"
    unfolding new [symmetric] by (simp add: receive_def Let_def s nx k)
  also have "\<dots> = block_state n0 f out gaps (insert j R)"
  proof -
    have "map (\<lambda>i. content_of (the (?buf (n0 + word_of_nat j + 1 + word_of_nat i)))) [0..<k] =
        map (\<lambda>i. content_of (f (j + 1 + i))) [0..<k]"
      by (rule map_cong [OF refl]) (simp add: buf)
    moreover have "ra_out (block_state n0 f out gaps (insert j R)) = ra_out (block_state n0 f out gaps R) @
        content_of (f j) # map (\<lambda>i. content_of (f (j + 1 + i))) [0..<k]"
      using arg_cong [OF upt_split [of j k], of "map (\<lambda>i. content_of (f i))"]
      by (simp add: block_state_def L' o_def j(1) [symmetric] del: upt_Suc)
    moreover have "ra_next (block_state n0 f out gaps (insert j R)) = n0 + word_of_nat j + 1 + word_of_nat k"
      by (simp add: block_state_def L')
    moreover have "ra_gaps (block_state n0 f out gaps (insert j R)) = ra_gaps (block_state n0 f out gaps R)"
      by (simp add: block_state_def)
    ultimately show ?thesis by (intro reasm.equality) simp_all
  qed
  finally show ?thesis .
qed

lemma receive_ahead:
  assumes B: "block_ok n0 n W mp f" and R: "R \<subseteq> {..<n}" and j: "mex R < j" "j < n" "j \<notin> R"
  shows "receive W mp rec (f j) (block_state n0 f out gaps R) = block_state n0 f out gaps (insert j R)"
proof -
  note M = mex_props [OF finite_subset [OF R finite_lessThan]]
  have b: "unat n0 + n < 2 ^ 64" "n \<le> unat W + 1" "n \<le> mp + 1" "pk_seq (f j) = n0 + word_of_nat j"
    using B j(2) by (simp_all add: block_ok_def)
  let ?S = "block_state n0 f out gaps R" and ?L = "mex R"
  have same: "mex (insert j R) = ?L" using M j(1) by (intro mexI) auto
  have less: "n0 + word_of_nat ?L < n0 + word_of_nat j" using block_less [of n0 ?L j] b(1) j(1,2) by simp
  have "n0 + word_of_nat j - (n0 + word_of_nat ?L) = word_of_nat (j - ?L)" using j(1) by (simp add: of_nat_diff)
  moreover have "unat (word_of_nat (j - ?L) :: u64) = j - ?L"
    using j(2) b(1) by (simp add: unat_of_nat take_bit_eq_mod)
  ultimately have dist: "n0 + word_of_nat j - (n0 + word_of_nat ?L) \<le> W"
    using j b(2) by (simp only: word_le_nat_alt)
  have "dom (ra_buf ?S) \<subseteq> (\<lambda>i. n0 + word_of_nat i) ` ({..<n} - {?L, j})"
  proof
    fix t assume "t \<in> dom (ra_buf ?S)"
    then have u: "unat (t - n0) \<in> R" "?L < unat (t - n0)" by (auto simp: block_state_def Let_def split: if_splits)
    have "t = n0 + word_of_nat (unat (t - n0))" by simp
    moreover have "unat (t - n0) \<in> {..<n} - {?L, j}" using u R j(3) by auto
    ultimately show "t \<in> (\<lambda>i. n0 + word_of_nat i) ` ({..<n} - {?L, j})" by blast
  qed
  then have "card (dom (ra_buf ?S)) \<le> card ({..<n} - {?L, j})"
    by (meson card_image_le card_mono finite_Diff finite_imageI finite_lessThan le_trans)
  also have "\<dots> = n - 2" using j(1,2) by (simp add: card_Diff_subset)
  finally have room: "card (dom (ra_buf ?S)) < mp" using b(3) j(1,2) by simp
  have free: "ra_buf ?S (n0 + word_of_nat j) = None"
    using unat_diff_base [of j n0] b(1) j(2,3) by (simp add: block_state_def)
  have "(ra_buf ?S)(n0 + word_of_nat j \<mapsto> f j) = ra_buf (block_state n0 f out gaps (insert j R))"
  proof
    fix t
    have "t = n0 + word_of_nat j \<longleftrightarrow> unat (t - n0) = j" using diff_base_iff [of j t n0] b(1) j(2) by auto
    then show "((ra_buf ?S)(n0 + word_of_nat j \<mapsto> f j)) t = ra_buf (block_state n0 f out gaps (insert j R)) t"
      using j(1) by (auto simp: block_state_def Let_def same)
  qed
  moreover have "ra_next ?S = n0 + word_of_nat ?L" by (simp add: block_state_def)
  ultimately have "receive W mp rec (f j) ?S = ?S\<lparr>ra_buf := ra_buf (block_state n0 f out gaps (insert j R))\<rparr>"
    using b(4) less dist room free by (auto simp: receive_def Let_def)
  then show ?thesis by (simp add: block_state_def same)
qed

lemma receive_block_step:
  assumes "block_ok n0 n W mp f" "R \<subseteq> {..<n}" "j < n" "j \<notin> R"
  shows "receive W mp rec (f j) (block_state n0 f out gaps R) = block_state n0 f out gaps (insert j R)"
proof (cases "j = mex R")
  case False
  then have "mex R < j" using mex_props(2) [OF finite_subset [OF assms(2) finite_lessThan], of j] assms(4) by linarith
  then show ?thesis using receive_ahead assms by blast
qed (use receive_next assms in blast)

lemma view_block: "buffered m = (\<lambda>_. None) \<Longrightarrow> view_of m = block_state (mg_next_seq m) f (map content_of (mg_out m)) (mg_notes m) {}"
  using mex_upto [of 0] by (simp add: view_of_def block_state_def fun_eq_iff)

section \<open>Delivery and preference\<close>

lemma cap_pos: "shape_ok q \<Longrightarrow> 0 < cap_of q"
  by (auto simp: shape_ok_def)

lemma forward_push_law:
  assumes C: "\<And>n i. consumes ring_rel cap_of (env n i)"
    and N: "\<And>q xs. ring_rel q xs \<Longrightarrow> xs \<noteq> [] \<Longrightarrow> \<exists>k>0. ring_rel (env N 1024 q) (drop k xs)"
  shows "n \<le> N + 1 \<Longrightarrow> ring_rel q xs \<Longrightarrow> n = N + 1 \<longrightarrow> length xs < cap_of q \<Longrightarrow>
    \<exists>q' k. forward_push env n q p = Some q' \<and> ring_rel q' (drop k xs @ [p])"
proof (induction "N + 1 - n" arbitrary: n q xs)
  case (0 n q xs)
  then have "length xs < cap_of q" by simp
  then obtain q' where "spsc_push q p = (q', Inr ())" "ring_rel q' (xs @ [p])"
    using spsc_fifo.push_room [OF "0.prems"(2)] by blast
  then show ?case by (intro exI [of _ q'] exI [of _ 0]) (simp add: forward_push.simps [of env n] push_with_backoff.simps)
next
  case (Suc d n q xs)
  obtain q1 r k where B: "push_with_backoff (env n) q p 0 1024 = (q1, r)" "cap_of q1 = cap_of q"
      "case r of Inl w \<Rightarrow> w = p \<and> ring_rel q1 (drop k xs) \<and> length (drop k xs) = cap_of q1
       | Inr _ \<Rightarrow> ring_rel q1 (drop k xs @ [p])"
    using backoff_law [OF Suc.prems(2), of "env n" p 0 1024] C by blast
  show ?case
  proof (cases r)
    case (Inr u)
    then show ?thesis using B by (intro exI [of _ q1] exI [of _ k]) (simp add: forward_push.simps [of env n])
  next
    case (Inl w)
    then have q1: "w = p" "ring_rel q1 (drop k xs)" "length (drop k xs) = cap_of q1" using B(3) by auto
    have step: "forward_push env n q p = forward_push env (n + 1) (env n 1024 q1) p"
      using B(1) Inl q1(1) by (simp add: forward_push.simps [of env n])
    obtain j where j: "ring_rel (env n 1024 q1) (drop j (drop k xs))" "cap_of (env n 1024 q1) = cap_of q1"
        "n = N \<Longrightarrow> 0 < j"
    proof (cases "n = N")
      case True
      have "drop k xs \<noteq> []" using q1(3) cap_pos [OF ring_relD(1) [OF q1(2)]] by fastforce
      then obtain j where "0 < j" "ring_rel (env n 1024 q1) (drop j (drop k xs))" using N [OF q1(2)] True by blast
      then show ?thesis using that spsc_fifo.consumed_room [OF q1(2) C [of n 1024]] by blast
    next
      case False
      then show ?thesis using that spsc_fifo.consumed_room [OF q1(2) C [of n 1024]] by blast
    qed
    have "\<exists>q' i. forward_push env (n + 1) (env n 1024 q1) p = Some q' \<and> ring_rel q' (drop i (drop j (drop k xs)) @ [p])"
    proof (rule Suc.hyps(1) [OF _ _ j(1)])
      show "d = N + 1 - (n + 1)" "n + 1 \<le> N + 1" using Suc.hyps(2) by simp_all
      show "n + 1 = N + 1 \<longrightarrow> length (drop j (drop k xs)) < cap_of (env n 1024 q1)"
        using j(2,3) q1(3) cap_pos [OF ring_relD(1) [OF q1(2)]] by auto
    qed
    then show ?thesis unfolding step by auto
  qed
qed

lemma hysteresis_fields:
  "mg_prefer_a (hysteresis clk was_a m) \<longleftrightarrow>
     (if mg_prefer_a m then was_a \<or> sat_inc (mg_streak_nonpref m) < 2 \<or> \<not> mg_min_dwell_ns m \<le> sat_sub (clk (mg_clock m)) (mg_last_switch_ns m)
      else \<not> was_a \<and> sat_inc (mg_streak_pref m) \<ge> 8 \<and> mg_min_dwell_ns m \<le> sat_sub (clk (mg_clock m)) (mg_last_switch_ns m))"
  "\<not> mg_prefer_a m \<Longrightarrow> \<not> mg_prefer_a (hysteresis clk was_a m) \<Longrightarrow>
     mg_streak_pref (hysteresis clk was_a m) = (if was_a then 0 else sat_inc (mg_streak_pref m)) \<and>
     mg_last_switch_ns (hysteresis clk was_a m) = mg_last_switch_ns m \<and>
     mg_min_dwell_ns (hysteresis clk was_a m) = mg_min_dwell_ns m"
  by (auto simp: hysteresis_def dwell_over_def switch_to_def now_nanos_def Let_def not_less split: if_splits)

lemma b_streak:
  assumes "\<not> mg_prefer_a m" "\<And>k. mg_min_dwell_ns m \<le> sat_sub (clk k) (mg_last_switch_ns m)"
    "unat (mg_streak_pref m) + n < 8"
  shows "\<not> mg_prefer_a ((hysteresis clk False ^^ n) m) \<and> unat (mg_streak_pref ((hysteresis clk False ^^ n) m)) = unat (mg_streak_pref m) + n \<and>
    mg_min_dwell_ns ((hysteresis clk False ^^ n) m) = mg_min_dwell_ns m \<and>
    mg_last_switch_ns ((hysteresis clk False ^^ n) m) = mg_last_switch_ns m"
  using assms(3)
proof (induction n)
  case (Suc n)
  let ?m = "(hysteresis clk False ^^ n) m"
  have IH: "\<not> mg_prefer_a ?m" "unat (mg_streak_pref ?m) = unat (mg_streak_pref m) + n"
      "mg_min_dwell_ns ?m = mg_min_dwell_ns m" "mg_last_switch_ns ?m = mg_last_switch_ns m"
    using Suc by simp_all
  have inc: "unat (sat_inc (mg_streak_pref ?m)) = Suc (unat (mg_streak_pref ?m))"
    using IH(2) Suc.prems by (auto simp: sat_inc_def unat_word_ariths unat_max_word)
  then have "\<not> sat_inc (mg_streak_pref ?m) \<ge> 8" using IH(2) Suc.prems by (simp add: word_le_nat_alt)
  then have "\<not> mg_prefer_a (hysteresis clk False ?m)" using IH(1) by (simp add: hysteresis_fields(1))
  then show ?case using hysteresis_fields(2) [OF IH(1), of clk False] inc IH by simp
qed (use assms(1) in simp)

section \<open>Properties\<close>

text \<open>
  C7: In every reachable state of a run whose window fits its ring, a packet of either line, and one from recovery, is
  handled exactly as by the abstract reassembler: numbers already forwarded are dropped, the next one is forwarded together
  with the maximal run buffered behind it, one ahead is buffered (no slot is ever taken by another number), and
  anything else is reported as the gap from the next number to the one before it.
\<close>

theorem merge_refines_reassembler:
  assumes "merge_run cfg rec clk na nb arr m" "0 < na" "0 < nb" "fits cfg"
  shows "view_of (line_pkt cfg rec clk' p m) = receive (mg_window m) (mc_max_pending cfg) rec p (view_of m) \<and>
    view_of (recover_pkt cfg rec clk' p m) = receive (mg_window m) (mc_max_pending cfg) rec p (view_of m)"
  using merge_run_ok [OF assms(2,3,1)] line_refines(1) recover_refines assms(4) unfolding run_ok_def by blast

lemma demo_fits: "fits demo_cfg"
  by (simp add: fits_def demo_cfg_def)

theorem merge_refines_reassembler_witness:
  "\<exists>m. mg_out m \<noteq> [] \<and>
     view_of (line_pkt demo_cfg True (\<lambda>_. 9) (demo_pkt 3) m) = receive (mg_window m) 64 True (demo_pkt 3) (view_of m)"
proof -
  obtain m where m: "merge_run demo_cfg True (\<lambda>_. 7) 1 1 [demo_pkt 1] m"
      "mg_out m = [(demo_pkt 1)\<lparr>pk_merge_emit_ns := 7\<rparr>]"
    using demo_run by blast
  have mp: "mc_max_pending demo_cfg = 64" by (simp add: demo_cfg_def)
  show ?thesis
    using merge_refines_reassembler [OF m(1) _ _ demo_fits, of "\<lambda>_. 9" "demo_pkt 3"] m(2) unfolding mp
    by (intro exI [of _ m]) simp
qed

text \<open>
  C32: Once the adaptive window exceeds the ring, two numbers in the window can share a slot: the later packet is
  silently dropped, although its number is in the window, not yet forwarded and not buffered; no gap is reported either.
\<close>

theorem aliased_packet_lost:
  assumes "merge_inv cfg m" "buffered m t = Some q" "mg_next_seq m < pk_seq p" "pk_seq p \<noteq> t"
    "unat (pk_seq p) mod length (mg_ring m) = unat t mod length (mg_ring m)"
    "pk_seq p - mg_next_seq m \<le> mg_window m" "mg_pending m < mc_max_pending cfg"
  shows "line_pkt cfg rec clk p m = m \<and> buffered m (pk_seq p) = None"
proof -
  note E = merge_invD(1) [OF assms(1)]
  have "ring_at m t = Some (t, q)" using assms(2) by (simp add: buffered_Some)
  then have at: "ring_at m (pk_seq p) = Some (t, q)"
    using assms(5) by (simp add: ring_at_slot [OF E] ring_idx_def)
  have "mg_next_seq m < t" using buffered_entry(2) [OF E assms(2)] .
  then have "buffer_pkt (pk_seq p) p m = m" using at assms(4) by (simp add: buffer_pkt_def)
  then show ?thesis using assms(3,4,6,7) at by (simp add: line_pkt_def ahead_pkt_def buffered_def)
qed

text \<open>A ring of nine slots whose window has been adapted from eight to ten: 5 and 14 share a slot.\<close>

definition alias_cfg :: merge_config where
  "alias_cfg = demo_cfg\<lparr>mc_reorder_window := 8, mc_adaptive := True, mc_reorder_window_max := 16\<rparr>"

definition alias_state :: merge where
  "alias_state = adapt alias_cfg ((merge_init alias_cfg (\<lambda>_. 0) [[]] [[]] None)
     \<lparr>mg_ring := (replicate 9 None)[5 := Some (5, demo_pkt 5)], mg_pending := 1, mg_next_seq := 4,
      mg_recent_gaps := 1, mg_fwd_since_check := 4096\<rparr>)"

lemma alias_state_fields:
  "mg_window alias_state = 10" "mg_next_seq alias_state = 4" "mg_pending alias_state = 1"
  "mg_ring alias_state = (replicate 9 None)[5 := Some (5, demo_pkt 5)]"
  by (simp_all add: alias_state_def adapt_def alias_cfg_def demo_cfg_def merge_init_def)

lemma alias_state_inv: "merge_inv alias_cfg alias_state"
proof -
  have "entry_ok alias_state (\<lambda>s. mg_next_seq alias_state < s)"
    unfolding entry_ok_def alias_state_fields ring_idx_def
    by (auto simp: nth_list_update demo_pkt_def split: if_splits)
  moreover have "occupied alias_state = 1" unfolding occupied_def alias_state_fields by code_simp
  ultimately show ?thesis by (simp add: merge_inv_def alias_state_fields alias_cfg_def demo_cfg_def)
qed

theorem aliased_packet_lost_witness:
  "mg_window alias_state = 10 \<and> length (mg_ring alias_state) = 9 \<and>
   line_pkt alias_cfg True (\<lambda>_. 0) (demo_pkt 14) alias_state = alias_state \<and> buffered alias_state 14 = None"
proof -
  have "buffered alias_state 5 = Some (demo_pkt 5)"
    by (simp add: buffered_def ring_at_def ring_idx_def alias_state_fields)
  from aliased_packet_lost [OF alias_state_inv this, of "demo_pkt 14"] show ?thesis
    by (simp add: alias_state_fields demo_pkt_def alias_cfg_def demo_cfg_def)
qed



text \<open>
  A forwarded packet is never dropped: whatever the state of the output ring, \<open>forward\<close> returns, with the packet behind
  those still queued, as soon as the decoder ever takes a packet after a failed round.
\<close>

theorem forward_delivers:
  assumes "ring_rel q xs" "\<And>n i. consumes ring_rel cap_of (env n i)"
    "\<And>q xs. ring_rel q xs \<Longrightarrow> xs \<noteq> [] \<Longrightarrow> \<exists>k>0. ring_rel (env N 1024 q) (drop k xs)"
  shows "\<exists>q' k. forward_push env 0 q p = Some q' \<and> ring_rel q' (drop k xs @ [p])"
  using forward_push_law [where env = env and N = N and n = 0, OF assms(2,3) _ assms(1)] by simp

theorem forward_delivers_witness:
  "\<exists>q' k. forward_push (\<lambda>_ _ q. case spsc_pop q of None \<Rightarrow> q | Some (q', _) \<Rightarrow> q') 0 (spsc_new 4) (demo_pkt 1) = Some q' \<and>
     ring_rel q' (drop k [] @ [demo_pkt 1])"
proof (rule forward_delivers [OF spsc_new_rel consumes_pop])
  fix q :: "pkt spsc" and xs
  assume "ring_rel q xs" "xs \<noteq> []"
  then obtain y ys where "xs = y # ys" "ring_rel q (y # ys)" by (cases xs) auto
  then show "\<exists>k>0. ring_rel (case spsc_pop q of None \<Rightarrow> q | Some (q', _) \<Rightarrow> q') (drop k xs)"
    using spsc_fifo.pop_front [of q y ys] by (auto intro!: exI [of _ 1])
qed

end
