(* ===== verification/Merge_Live.thy ===== *)
theory Merge_Live
  imports Merge_Spec
begin

text \<open>
  Completeness of the arbiter of \<open>Merge\<close> on its runs: a block of packets that arrives on the lines and on the recovery queue, in any
  order, on any worker and any number of times, is forwarded as a whole.

  \<^item> \<open>receive_dup\<close>: further copies of a packet change nothing.
  \<^item> \<open>block_inv\<close>: the invariant of a run that sees only packets of the block: the abstract state is that of the numbers
    taken so far, and what has arrived is taken or queued. \<open>block_run\<close>: every step of the loop keeps it.
  \<^item> \<open>merge_iters\<close>: iterations without arrivals; \<open>queues_run_dry\<close>: enough of them empty all queues, whatever the preference does
    and although the index of the next worker wraps around.
\<close>

section \<open>Redundant arrivals\<close>

lemma buffered_card:
  assumes "R \<subseteq> {..<n}" "mex R < n"
  shows "card (dom (ra_buf (block_state n0 f out gaps R))) < n"
proof -
  have "dom (ra_buf (block_state n0 f out gaps R)) \<subseteq> (\<lambda>i. n0 + word_of_nat i) ` ({..<n} - {mex R})"
  proof
    fix t assume "t \<in> dom (ra_buf (block_state n0 f out gaps R))"
    then have u: "unat (t - n0) \<in> R" "mex R < unat (t - n0)" by (auto simp: block_state_def Let_def split: if_splits)
    have "t = n0 + word_of_nat (unat (t - n0))" by simp
    moreover have "unat (t - n0) \<in> {..<n} - {mex R}" using u assms(1) by auto
    ultimately show "t \<in> (\<lambda>i. n0 + word_of_nat i) ` ({..<n} - {mex R})" by blast
  qed
  then have "card (dom (ra_buf (block_state n0 f out gaps R))) \<le> card ({..<n} - {mex R})"
    by (meson card_image_le card_mono finite_Diff finite_imageI finite_lessThan le_trans)
  also have "\<dots> < n" using assms(2) by (simp add: card_Diff_subset)
  finally show ?thesis .
qed

lemma receive_dup:
  assumes B: "block_ok n0 n W mp f" and mp: "n \<le> mp" and R: "R \<subseteq> {..<n}" "j \<in> R" and p: "pk_seq p = n0 + word_of_nat j"
  shows "receive W mp rec p (block_state n0 f out gaps R) = block_state n0 f out gaps R"
proof -
  let ?S = "block_state n0 f out gaps R" and ?L = "mex R"
  note M = mex_props [OF finite_subset [OF R(1) finite_lessThan]]
  have b: "unat n0 + n < 2 ^ 64" "n \<le> unat W + 1" using B by (simp_all add: block_ok_def)
  have nx: "ra_next ?S = n0 + word_of_nat ?L" by (simp add: block_state_def)
  have j: "j < n" "j \<noteq> ?L" using R M(1) by auto
  show ?thesis
  proof (cases "j < ?L")
    case True
    have "?L \<le> n" using M(2) [of n] R(1) by (metis lessThan_iff not_le order_less_irrefl subset_iff)
    then have "pk_seq p < ra_next ?S" using block_less [of n0 j ?L] b(1) True p nx by simp
    then show ?thesis by (simp add: receive_def)
  next
    case False
    then have L: "?L < j" using j(2) by simp
    have less: "ra_next ?S < pk_seq p" using block_less [of n0 ?L j] b(1) L j(1) p nx by simp
    have "pk_seq p - ra_next ?S = word_of_nat (j - ?L)" using L p nx by (simp add: of_nat_diff)
    moreover have "unat (word_of_nat (j - ?L) :: u64) = j - ?L" using j(1) b(1) by (simp add: unat_of_nat take_bit_eq_mod)
    ultimately have dist: "pk_seq p - ra_next ?S \<le> W" using j b(2) by (simp only: word_le_nat_alt)
    have room: "card (dom (ra_buf ?S)) < mp" using buffered_card [OF R(1), of n0 f out gaps] L j(1) mp by simp
    have "ra_buf ?S (pk_seq p) = Some (f j)"
      using unat_diff_base [of j n0] b(1) j(1) R(2) L p by (simp add: block_state_def)
    then show ?thesis using less dist room by (auto simp: receive_def Let_def)
  qed
qed

definition in_block :: "u64 \<Rightarrow> nat \<Rightarrow> pkt \<Rightarrow> bool" where
  "in_block n0 n p \<longleftrightarrow> unat (pk_seq p - n0) < n"

lemma in_block_seq: "in_block n0 n p \<Longrightarrow> \<exists>j<n. pk_seq p = n0 + word_of_nat j"
  unfolding in_block_def by (rule exI [of _ "unat (pk_seq p - n0)"]) simp

lemma block_inj: "i < 2 ^ 64 \<Longrightarrow> j < 2 ^ 64 \<Longrightarrow> n0 + word_of_nat i = n0 + (word_of_nat j :: u64) \<Longrightarrow> i = j"
  using diff_base_iff [of i "n0 + word_of_nat j" n0] unat_diff_base [of j n0] by metis

text \<open>Every number of the block arrives, on some line.\<close>

definition covers :: "u64 \<Rightarrow> nat \<Rightarrow> pkt list \<Rightarrow> bool" where
  "covers n0 n ps \<longleftrightarrow> list_all (in_block n0 n) ps \<and> (\<forall>i<n. n0 + word_of_nat i \<in> pk_seq ` set ps)"

section \<open>The invariant of a run\<close>

text \<open>The packets waiting in the queues.\<close>

definition waiting :: "merge \<Rightarrow> pkt set" where
  "waiting m = set (concat (mg_qa m)) \<union> set (concat (mg_qb m)) \<union> set (concat (case mg_qrec m of None \<Rightarrow> [] | Some ps \<Rightarrow> [ps]))"

text \<open>A block that the arbiter can hold back whole.\<close>

definition block_fits :: "merge_config \<Rightarrow> nat \<Rightarrow> bool" where
  "block_fits cfg n \<longleftrightarrow> mc_reorder_window cfg \<noteq> - 1 \<and> \<not> mc_adaptive cfg \<and> unat (mc_next_seq cfg) + n < 2 ^ 64 \<and>
     n \<le> unat (mc_reorder_window cfg) + 1 \<and> n \<le> mc_max_pending cfg"

definition taken :: "u64 \<Rightarrow> nat \<Rightarrow> pkt set \<Rightarrow> pkt set \<Rightarrow> (nat \<Rightarrow> pkt) \<Rightarrow> nat set \<Rightarrow> bool" where
  "taken n0 n A Q f R \<longleftrightarrow> R \<subseteq> {..<n} \<and> (\<forall>i<n. pk_seq (f i) = n0 + word_of_nat i) \<and> f ` R \<subseteq> A \<and>
     (\<forall>p\<in>A. p \<in> Q \<or> (\<exists>j\<in>R. pk_seq p = n0 + word_of_nat j))"

definition block_inv :: "merge_config \<Rightarrow> nat \<Rightarrow> pkt set \<Rightarrow> pkt set \<Rightarrow> merge \<Rightarrow> bool" where
  "block_inv cfg n A Q m \<longleftrightarrow> merge_inv cfg m \<and> in_window cfg m \<and> mg_window m = mc_reorder_window cfg \<and> Q \<subseteq> A \<and>
     (\<exists>f R. taken (mc_next_seq cfg) n A Q f R \<and> view_of m = block_state (mc_next_seq cfg) f [] [] R)"

lemma block_state_cong:
  assumes "finite R" "\<And>i. i \<in> R \<Longrightarrow> f i = g i"
  shows "block_state n0 f out gaps R = block_state n0 g out gaps R"
  using mex_props(2) [OF assms(1)] assms(2) by (auto simp: block_state_def fun_eq_iff Let_def)

lemma block_inv_ok: "block_fits cfg n \<Longrightarrow> taken (mc_next_seq cfg) n A Q f R \<Longrightarrow>
    block_ok (mc_next_seq cfg) n (mc_reorder_window cfg) (mc_max_pending cfg) f \<and> n \<le> mc_max_pending cfg"
  by (simp add: block_fits_def taken_def block_ok_def)

lemma taken_step:
  assumes F: "block_fits cfg n" and T: "taken (mc_next_seq cfg) n A (insert p Q) f R" and p: "p \<in> A" "in_block (mc_next_seq cfg) n p"
  shows "\<exists>g S. taken (mc_next_seq cfg) n A Q g S \<and>
    receive (mc_reorder_window cfg) (mc_max_pending cfg) rec p (block_state (mc_next_seq cfg) f [] [] R) =
      block_state (mc_next_seq cfg) g [] [] S"
proof -
  let ?n0 = "mc_next_seq cfg"
  obtain j where j: "j < n" "pk_seq p = ?n0 + word_of_nat j" using in_block_seq [OF p(2)] by blast
  have R: "R \<subseteq> {..<n}" using T by (simp add: taken_def)
  note fin = finite_subset [OF R finite_lessThan]
  note B = block_inv_ok [OF F T]
  show ?thesis
  proof (cases "j \<in> R")
    case True
    then have "taken ?n0 n A Q f R" using T j(2) by (auto simp: taken_def)
    moreover note receive_dup [OF B [THEN conjunct1] B [THEN conjunct2] R True j(2), of rec "[]" "[]"]
    ultimately show ?thesis by blast
  next
    case False
    let ?g = "f(j := p)"
    have T': "taken ?n0 n A Q ?g (insert j R)" using T j p(1) by (auto simp: taken_def)
    then have B': "block_ok ?n0 n (mc_reorder_window cfg) (mc_max_pending cfg) ?g" using block_inv_ok [OF F] by blast
    have "block_state ?n0 f [] [] R = block_state ?n0 ?g [] [] R"
      by (rule block_state_cong [OF fin]) (use False in auto)
    then show ?thesis using receive_block_step [OF B' R j(1) False, of rec "[]" "[]"] T' by fastforce
  qed
qed

lemma block_inv_took:
  assumes F: "block_fits cfg n" and I: "block_inv cfg n A (insert p Q) m" and p: "in_block (mc_next_seq cfg) n p"
    and T: "took cfg rec p m m' \<and> merge_inv cfg m' \<and> same_env m m'"
  shows "block_inv cfg n A Q m'"
proof -
  have m: "merge_inv cfg m" "in_window cfg m" "mg_window m = mc_reorder_window cfg" "p \<in> A" "Q \<subseteq> A"
    using I by (auto simp: block_inv_def)
  obtain f R where R: "taken (mc_next_seq cfg) n A (insert p Q) f R" "view_of m = block_state (mc_next_seq cfg) f [] [] R"
    using I by (auto simp: block_inv_def)
  have v: "view_of m' = receive (mc_reorder_window cfg) (mc_max_pending cfg) rec p (view_of m)"
    using took_receive [OF _ m(1,2)] T m(3) by metis
  have "in_window cfg m'" using in_window_took [OF m(2) _ m(1)] T by blast
  moreover have "mg_window m' = mc_reorder_window cfg" using T m(3) by (simp add: same_env_def)
  ultimately show ?thesis using T m(5) v taken_step [OF F R(1) m(4) p, of rec] R(2) unfolding block_inv_def by auto
qed

text \<open>Changes that no packet depends on, and arrivals.\<close>

lemma block_inv_frame:
  assumes "block_inv cfg n A Q m" "mg_ring m' = mg_ring m" "mg_next_seq m' = mg_next_seq m" "mg_out m' = mg_out m"
    "mg_pending m' = mg_pending m" "mg_notes m' = mg_notes m" "mg_window m' = mg_window m" "Q \<subseteq> Q'" "Q' \<subseteq> A"
  shows "block_inv cfg n A Q' m'"
proof -
  have b: "buffered m' = buffered m" by (rule ext) (rule ring_frame(3) [OF assms(2)])
  then have "merge_inv cfg m' = merge_inv cfg m" "in_window cfg m' = in_window cfg m" "view_of m' = view_of m"
    unfolding merge_inv_def in_window_def view_of_def ring_frame(4,5) [OF assms(2)] assms(2-7) by simp_all
  moreover have "taken n0 n A Q f R \<Longrightarrow> taken n0 n A Q' f R" for n0 f R using assms(8) by (auto simp: taken_def)
  ultimately show ?thesis using assms(1,7,9) unfolding block_inv_def by metis
qed

lemma taken_arrive: "taken n0 n A Q f R \<Longrightarrow> taken n0 n (insert p A) (insert p Q) f R"
  by (auto simp: taken_def)

lemma block_inv_arrive: "block_inv cfg n A Q m \<Longrightarrow> block_inv cfg n (insert p A) (insert p Q) m"
  unfolding block_inv_def using taken_arrive by blast

section \<open>Every step keeps it\<close>

lemma waiting_env: "same_env m m' \<Longrightarrow> waiting m' = waiting m"
  by (simp add: same_env_def waiting_def)

lemma pop_line_waiting:
  assumes "0 < length qs"
  obtains qs' x where "pop_line idx qs = Some (qs', x)" "length qs' = length qs"
    "set (concat qs) = (case x of None \<Rightarrow> {} | Some p \<Rightarrow> {p}) \<union> set (concat qs')"
    "length (concat qs) = (case x of None \<Rightarrow> 0 | Some p \<Rightarrow> 1) + length (concat qs')"
    "x = None \<Longrightarrow> qs' = qs \<and> qs ! (idx mod length qs) = []"
proof -
  let ?i = "idx mod length qs"
  have i: "?i < length qs" using assms by simp
  have mx: "max (length qs) 1 = length qs" using assms by (intro max_absorb1) linarith
  show thesis
  proof (cases "qs ! ?i")
    case Nil
    then show thesis using that [of qs None] i by (simp add: pop_line_def mx Let_def)
  next
    case (Cons p ps)
    have split: "qs = take ?i qs @ (p # ps) # drop (Suc ?i) qs" using id_take_nth_drop [OF i] Cons by simp
    have upd: "qs[?i := ps] = take ?i qs @ ps # drop (Suc ?i) qs" using i by (rule upd_conv_take_nth_drop)
    have "set (concat qs) = {p} \<union> set (concat (qs[?i := ps]))" "length (concat qs) = 1 + length (concat (qs[?i := ps]))"
      unfolding upd by (subst split, simp)+
    then show thesis using that [of "qs[?i := ps]" "Some p"] i Cons by (simp add: pop_line_def mx Let_def)
  qed
qed

text \<open>The number of packets waiting.\<close>

definition backlog :: "merge \<Rightarrow> nat" where
  "backlog m = length (concat (mg_qa m)) + length (concat (mg_qb m)) + (case mg_qrec m of None \<Rightarrow> 0 | Some ps \<Rightarrow> length ps)"

text \<open>Polling one line: what is left alone, and what a poll without a packet does.\<close>

definition polled :: "merge \<Rightarrow> merge \<Rightarrow> bool" where
  "polled m m1 \<longleftrightarrow> mg_ring m1 = mg_ring m \<and> mg_next_seq m1 = mg_next_seq m \<and> mg_out m1 = mg_out m \<and> mg_pending m1 = mg_pending m \<and>
     mg_notes m1 = mg_notes m \<and> mg_window m1 = mg_window m \<and> mg_qrec m1 = mg_qrec m \<and>
     length (mg_qa m1) = length (mg_qa m) \<and> length (mg_qb m1) = length (mg_qb m)"

definition poll_empty :: "nat \<Rightarrow> merge \<Rightarrow> merge \<Rightarrow> bool" where
  "poll_empty src m m1 \<longleftrightarrow>
     (if (src = 0) = mg_prefer_a m
      then m1 = m\<lparr>mg_idx_a := usize_add (mg_idx_a m) 1\<rparr> \<and> mg_qa m ! (mg_idx_a m mod length (mg_qa m)) = []
      else m1 = m\<lparr>mg_idx_b := usize_add (mg_idx_b m) 1\<rparr> \<and> mg_qb m ! (mg_idx_b m mod length (mg_qb m)) = [])"

lemma take_line_cases:
  assumes pos: "0 < length (mg_qa m)" "0 < length (mg_qb m)"
  obtains m1 x where "take_line cfg rec clk src m = Some (case x of None \<Rightarrow> m1 | Some p \<Rightarrow> line_pkt cfg rec clk p m1)"
    "polled m m1" "waiting m = set_option x \<union> waiting m1" "backlog m = (case x of None \<Rightarrow> 0 | Some p \<Rightarrow> 1) + backlog m1"
    "x = None \<Longrightarrow> poll_empty src m m1"
proof (cases "(src = 0) = mg_prefer_a m")
  case True
  obtain qs x where P: "pop_line (mg_idx_a m) (mg_qa m) = Some (qs, x)" "length qs = length (mg_qa m)"
      "set (concat (mg_qa m)) = (case x of None \<Rightarrow> {} | Some p \<Rightarrow> {p}) \<union> set (concat qs)"
      "length (concat (mg_qa m)) = (case x of None \<Rightarrow> 0 | Some p \<Rightarrow> 1) + length (concat qs)"
      "x = None \<Longrightarrow> qs = mg_qa m \<and> mg_qa m ! (mg_idx_a m mod length (mg_qa m)) = []"
    using pop_line_waiting [OF pos(1), of "mg_idx_a m"] by blast
  let ?m = "m\<lparr>mg_qa := qs, mg_idx_a := usize_add (mg_idx_a m) 1\<rparr>"
  show thesis
  proof (rule that [of ?m x])
    show "take_line cfg rec clk src m = Some (case x of None \<Rightarrow> ?m | Some p \<Rightarrow> line_pkt cfg rec clk p ?m)"
      by (simp add: take_line_def Let_def if_P [OF True] P(1))
    show "polled m ?m" "backlog m = (case x of None \<Rightarrow> 0 | Some p \<Rightarrow> 1) + backlog ?m" using P(2,4) by (simp_all add: polled_def backlog_def)
    show "waiting m = set_option x \<union> waiting ?m" using P(3) by (cases x) (simp_all add: waiting_def Un_assoc)
    show "poll_empty src m ?m" if "x = None" using P(5) [OF that] by (simp add: poll_empty_def if_P [OF True])
  qed
next
  case False
  obtain qs x where P: "pop_line (mg_idx_b m) (mg_qb m) = Some (qs, x)" "length qs = length (mg_qb m)"
      "set (concat (mg_qb m)) = (case x of None \<Rightarrow> {} | Some p \<Rightarrow> {p}) \<union> set (concat qs)"
      "length (concat (mg_qb m)) = (case x of None \<Rightarrow> 0 | Some p \<Rightarrow> 1) + length (concat qs)"
      "x = None \<Longrightarrow> qs = mg_qb m \<and> mg_qb m ! (mg_idx_b m mod length (mg_qb m)) = []"
    using pop_line_waiting [OF pos(2), of "mg_idx_b m"] by blast
  let ?m = "m\<lparr>mg_qb := qs, mg_idx_b := usize_add (mg_idx_b m) 1\<rparr>"
  show thesis
  proof (rule that [of ?m x])
    show "take_line cfg rec clk src m = Some (case x of None \<Rightarrow> ?m | Some p \<Rightarrow> line_pkt cfg rec clk p ?m)"
      by (simp add: take_line_def Let_def if_not_P [OF False] P(1))
    show "polled m ?m" "backlog m = (case x of None \<Rightarrow> 0 | Some p \<Rightarrow> 1) + backlog ?m" using P(2,4) by (simp_all add: polled_def backlog_def)
    show "waiting m = set_option x \<union> waiting ?m" using P(3) by (cases x) (auto simp: waiting_def)
    show "poll_empty src m ?m" if "x = None" using P(5) [OF that] by (simp add: poll_empty_def if_not_P [OF False])
  qed
qed

text \<open>The number of queues does not change.\<close>

definition lines_ok :: "nat \<Rightarrow> nat \<Rightarrow> merge \<Rightarrow> bool" where
  "lines_ok na nb m \<longleftrightarrow> 0 < na \<and> 0 < nb \<and> length (mg_qa m) = na \<and> length (mg_qb m) = nb"

definition live_inv :: "merge_config \<Rightarrow> nat \<Rightarrow> nat \<Rightarrow> nat \<Rightarrow> pkt set \<Rightarrow> merge \<Rightarrow> bool" where
  "live_inv cfg na nb n A m \<longleftrightarrow> block_inv cfg n A (waiting m) m \<and> lines_ok na nb m"

lemma take_line_block:
  assumes F: "block_fits cfg n" and I: "live_inv cfg na nb n A m" and A: "\<forall>p\<in>A. in_block (mc_next_seq cfg) n p"
  shows "\<exists>m'. take_line cfg rec clk src m = Some m' \<and> live_inv cfg na nb n A m' \<and>
    (backlog m' < backlog m \<or> poll_empty src m m')"
proof -
  have L: "lines_ok na nb m" and B: "block_inv cfg n A (waiting m) m" using I by (simp_all add: live_inv_def)
  have pos: "0 < length (mg_qa m)" "0 < length (mg_qb m)" using L by (simp_all add: lines_ok_def)
  obtain m1 x where T: "take_line cfg rec clk src m = Some (case x of None \<Rightarrow> m1 | Some p \<Rightarrow> line_pkt cfg rec clk p m1)"
      "polled m m1" "waiting m = set_option x \<union> waiting m1" "backlog m = (case x of None \<Rightarrow> 0 | Some p \<Rightarrow> 1) + backlog m1"
      "x = None \<Longrightarrow> poll_empty src m m1"
    using take_line_cases [OF pos] by blast
  have "waiting m \<subseteq> A" using B by (simp add: block_inv_def)
  then have B1: "block_inv cfg n A (set_option x \<union> waiting m1) m1"
    by (intro block_inv_frame [OF B]) (use T(2,3) in \<open>auto simp: polled_def\<close>)
  have L1: "lines_ok na nb m1" using L T(2) by (simp add: polled_def lines_ok_def)
  show ?thesis
  proof (cases x)
    case None
    then show ?thesis using T B1 L1 by (simp add: live_inv_def)
  next
    case (Some p)
    then have B2: "block_inv cfg n A (insert p (waiting m1)) m1" and "p \<in> A" using B1 by (simp_all add: block_inv_def)
    then have p: "in_block (mc_next_seq cfg) n p" and m1: "merge_inv cfg m1" using A by (auto simp: block_inv_def)
    note law = line_law [OF m1, of rec p clk]
    have env: "same_env m1 (line_pkt cfg rec clk p m1)" using law by blast
    have "block_inv cfg n A (waiting m1) (line_pkt cfg rec clk p m1)" by (rule block_inv_took [OF F B2 p law])
    moreover have "lines_ok na nb (line_pkt cfg rec clk p m1)" "backlog (line_pkt cfg rec clk p m1) = backlog m1"
      using env L1 by (simp_all add: same_env_def lines_ok_def backlog_def)
    ultimately show ?thesis using T(1,4) Some waiting_env [OF env] by (simp add: live_inv_def)
  qed
qed

lemma recover_loop_block:
  assumes F: "block_fits cfg n" and A: "\<forall>p\<in>A. in_block (mc_next_seq cfg) n p"
  shows "live_inv cfg na nb n A m \<Longrightarrow> live_inv cfg na nb n A (recover_loop cfg rec clk k m) \<and>
    (backlog (recover_loop cfg rec clk k m) < backlog m \<or>
     recover_loop cfg rec clk k m = m \<and> (0 < k \<longrightarrow> mg_qrec m = None \<or> mg_qrec m = Some []))"
proof (induction k arbitrary: m)
  case (Suc k)
  show ?case
  proof (cases "\<exists>p ps. mg_qrec m = Some (p # ps)")
    case True
    then obtain p ps where q: "mg_qrec m = Some (p # ps)" by blast
    let ?m = "m\<lparr>mg_qrec := Some ps\<rparr>"
    have B: "block_inv cfg n A (waiting m) m" and L: "lines_ok na nb m" using Suc.prems by (simp_all add: live_inv_def)
    have w: "waiting m = insert p (waiting ?m)" by (auto simp: waiting_def q)
    have "waiting m \<subseteq> A" using B by (simp add: block_inv_def)
    then have I: "block_inv cfg n A (insert p (waiting ?m)) ?m" by (intro block_inv_frame [OF B]) (use w in auto)
    then have m: "merge_inv cfg ?m" and p: "in_block (mc_next_seq cfg) n p" using A by (auto simp: block_inv_def)
    note law = recover_law [OF m, of rec p clk]
    have env: "same_env ?m (recover_pkt cfg rec clk p ?m)" using law by blast
    have "block_inv cfg n A (waiting ?m) (recover_pkt cfg rec clk p ?m)" by (rule block_inv_took [OF F I p law])
    then have "live_inv cfg na nb n A (recover_pkt cfg rec clk p ?m)" "backlog (recover_pkt cfg rec clk p ?m) < backlog m"
      using env L q waiting_env [OF env] by (auto simp: live_inv_def same_env_def lines_ok_def backlog_def)
    then show ?thesis using Suc.IH q by fastforce
  next
    case False
    then show ?thesis using Suc.prems by (auto split: option.splits list.splits)
  qed
qed simp

lemma poll_empty_frame:
  assumes "poll_empty src m m1"
  shows "mg_qa m1 = mg_qa m" "mg_qb m1 = mg_qb m" "mg_qrec m1 = mg_qrec m" "mg_prefer_a m1 = mg_prefer_a m" "backlog m1 = backlog m"
  using assms by (auto simp: poll_empty_def backlog_def split: if_splits)

text \<open>An iteration that finds nothing: both lines have been polled, and both indices have moved on.\<close>

definition idle_iter :: "merge \<Rightarrow> merge \<Rightarrow> bool" where
  "idle_iter m m' \<longleftrightarrow> mg_qa m' = mg_qa m \<and> mg_qb m' = mg_qb m \<and> mg_qrec m' = mg_qrec m \<and>
     mg_idx_a m' = usize_add (mg_idx_a m) 1 \<and> mg_idx_b m' = usize_add (mg_idx_b m) 1 \<and>
     mg_qa m ! (mg_idx_a m mod length (mg_qa m)) = [] \<and> mg_qb m ! (mg_idx_b m mod length (mg_qb m)) = [] \<and>
     (mg_qrec m = None \<or> mg_qrec m = Some [])"

lemma poll_both:
  assumes "poll_empty 0 m m1" "poll_empty 1 m1 m2" "mg_qrec m = None \<or> mg_qrec m = Some []"
  shows "idle_iter m m2"
  using assms by (cases "mg_prefer_a m") (auto simp: poll_empty_def idle_iter_def)

lemma merge_iter_block:
  assumes F: "block_fits cfg n" and I: "live_inv cfg na nb n A m" and A: "\<forall>p\<in>A. in_block (mc_next_seq cfg) n p"
  shows "\<exists>m'. merge_iter cfg rec clk m = Some m' \<and> live_inv cfg na nb n A m' \<and> (backlog m' < backlog m \<or> idle_iter m m')"
proof -
  let ?m = "m\<lparr>mg_moved := False\<rparr>" and ?r = "recover_loop cfg rec clk 32 (m\<lparr>mg_moved := False\<rparr>)"
  have B: "block_inv cfg n A (waiting m) m" using I by (simp add: live_inv_def)
  have w: "waiting ?m = waiting m" "backlog ?m = backlog m" by (simp_all add: waiting_def backlog_def)
  have "waiting m \<subseteq> A" using B by (simp add: block_inv_def)
  then have "block_inv cfg n A (waiting ?m) ?m" by (intro block_inv_frame [OF B]) (use w in auto)
  then have "live_inv cfg na nb n A ?m" using I by (simp add: live_inv_def lines_ok_def)
  note R = recover_loop_block [OF F A this, of rec clk 32]
  obtain m1 where m1: "take_line cfg rec clk 0 ?r = Some m1" "live_inv cfg na nb n A m1" "backlog m1 < backlog ?r \<or> poll_empty 0 ?r m1"
    using take_line_block [OF F R [THEN conjunct1] A] by blast
  obtain m2 where m2: "take_line cfg rec clk 1 m1 = Some m2" "live_inv cfg na nb n A m2" "backlog m2 < backlog m1 \<or> poll_empty 1 m1 m2"
    using take_line_block [OF F m1(2) A] by blast
  have "adapt cfg m2 = m2" using F by (simp add: adapt_def block_fits_def)
  then have iter: "merge_iter cfg rec clk m = Some m2" using m1(1) m2(1) by (simp add: merge_iter_def)
  have "backlog m2 < backlog m \<or> idle_iter ?m m2"
  proof (cases "poll_empty 0 ?r m1 \<and> poll_empty 1 m1 m2 \<and> ?r = ?m")
    case True
    moreover have "mg_qrec ?m = None \<or> mg_qrec ?m = Some []" if "\<not> backlog ?r < backlog ?m" using R that by simp
    moreover have "\<not> backlog ?r < backlog ?m" using True by simp
    ultimately show ?thesis using poll_both [of ?m m1 m2] by metis
  next
    case False
    then show ?thesis using R m1(3) m2(3) poll_empty_frame(5) w(2) by fastforce
  qed
  then show ?thesis using iter m2(2) by (auto simp: idle_iter_def)
qed

section \<open>Runs\<close>

lemma merge_start:
  assumes "fits cfg" "qrec = None \<or> qrec = Some []" and m_def: "m = merge_init cfg clk (replicate na []) (replicate nb []) qrec"
  shows "merge_inv cfg m" "in_window cfg m" "buffered m = (\<lambda>_. None)" "mg_out m = []" "mg_notes m = []"
    "mg_next_seq m = mc_next_seq cfg" "mg_window m = mc_reorder_window cfg"
proof -
  show "merge_inv cfg m" "in_window cfg m"
    using merge_init_run [OF assms(2), of cfg na nb clk] assms(1) by (auto simp: run_ok_def m_def)
  have "ring_at m s = None" for s using ring_idx_less [of m s] by (auto simp: ring_at_def merge_init_def m_def)
  then show "buffered m = (\<lambda>_. None)" by (simp add: buffered_def fun_eq_iff)
qed (simp_all add: m_def merge_init_def)

lemma arrive_queue_eq:
  assumes "i < length qs"
  shows "set (concat (qs[i := qs ! i @ [p]])) = insert p (set (concat qs))"
proof -
  have split: "qs = take i qs @ qs ! i # drop (Suc i) qs" by (rule id_take_nth_drop [OF assms])
  have "qs[i := qs ! i @ [p]] = take i qs @ (qs ! i @ [p]) # drop (Suc i) qs" by (rule upd_conv_take_nth_drop [OF assms])
  then have "set (concat (qs[i := qs ! i @ [p]])) = insert p (set (concat (take i qs @ qs ! i # drop (Suc i) qs)))" by auto
  then show ?thesis unfolding split [symmetric] .
qed

lemma live_arrive:
  assumes "live_inv cfg na nb n A m" "waiting m' = insert p (waiting m)" "lines_ok na nb m'" "mg_ring m' = mg_ring m"
    "mg_next_seq m' = mg_next_seq m" "mg_out m' = mg_out m" "mg_pending m' = mg_pending m" "mg_notes m' = mg_notes m"
    "mg_window m' = mg_window m"
  shows "live_inv cfg na nb n (insert p A) m'"
proof -
  have I: "block_inv cfg n (insert p A) (insert p (waiting m)) m" using assms(1) block_inv_arrive by (simp add: live_inv_def)
  then have "insert p (waiting m) \<subseteq> insert p A" by (simp only: block_inv_def)
  from block_inv_frame [OF I assms(4-9) subset_refl this] show ?thesis using assms(2,3) by (simp add: live_inv_def)
qed

lemma block_run:
  assumes F: "block_fits cfg n" and pos: "0 < na" "0 < nb"
  shows "merge_run cfg rec clk na nb arr m \<Longrightarrow> list_all (in_block (mc_next_seq cfg) n) arr \<Longrightarrow> live_inv cfg na nb n (set arr) m"
proof (induction rule: merge_run.induct)
  case (start_up qrec)
  let ?m = "merge_init cfg clk (replicate na []) (replicate nb []) qrec" and ?f = "\<lambda>i. undefined\<lparr>pk_seq := mc_next_seq cfg + word_of_nat i\<rparr>"
  have "fits cfg" using F by (simp add: block_fits_def fits_def)
  note S = merge_start [OF this start_up.hyps refl, of clk na nb]
  have w: "waiting ?m = {}" using start_up.hyps by (auto simp: waiting_def merge_init_def)
  have "taken (mc_next_seq cfg) n {} {} ?f {}" by (simp add: taken_def)
  moreover have "view_of ?m = block_state (mc_next_seq cfg) ?f [] [] {}" using view_block [OF S(3), of ?f] S(4-6) by simp
  ultimately have "block_inv cfg n {} {} ?m" using S(1,2,7) unfolding block_inv_def by blast
  then show ?case using w pos by (simp add: live_inv_def lines_ok_def merge_init_def)
next
  case (arrive_a arr m i p)
  then have I: "live_inv cfg na nb n (set arr) m" by simp
  let ?m = "m\<lparr>mg_qa := (mg_qa m)[i := mg_qa m ! i @ [p]]\<rparr>"
  have "i < length (mg_qa m)" using I arrive_a.hyps(2) by (simp add: live_inv_def lines_ok_def)
  then have "waiting ?m = insert p (waiting m)" using arrive_queue_eq [of i "mg_qa m" p] by (auto simp: waiting_def)
  then show ?case using live_arrive [OF I, of ?m p] I by (simp add: live_inv_def lines_ok_def)
next
  case (arrive_b arr m i p)
  then have I: "live_inv cfg na nb n (set arr) m" by simp
  let ?m = "m\<lparr>mg_qb := (mg_qb m)[i := mg_qb m ! i @ [p]]\<rparr>"
  have "i < length (mg_qb m)" using I arrive_b.hyps(2) by (simp add: live_inv_def lines_ok_def)
  then have "waiting ?m = insert p (waiting m)" using arrive_queue_eq [of i "mg_qb m" p] by (auto simp: waiting_def)
  then show ?case using live_arrive [OF I, of ?m p] I by (simp add: live_inv_def lines_ok_def)
next
  case (arrive_rec arr m ps p)
  then have I: "live_inv cfg na nb n (set arr) m" by simp
  let ?m = "m\<lparr>mg_qrec := Some (ps @ [p])\<rparr>"
  have "waiting ?m = insert p (waiting m)" using arrive_rec.hyps(2) by (auto simp: waiting_def)
  then show ?case using live_arrive [OF I, of ?m p] I by (simp add: live_inv_def lines_ok_def)
next
  case (iterate arr m m')
  then show ?case using merge_iter_block [OF F iterate.IH, of rec clk] by (auto simp: list_all_iff)
qed

section \<open>The queues run dry\<close>

text \<open>Iterations of the loop between two arrivals.\<close>

primrec merge_iters :: "merge_config \<Rightarrow> bool \<Rightarrow> clock \<Rightarrow> nat \<Rightarrow> merge \<Rightarrow> merge option" where
  "merge_iters cfg rec clk 0 m = Some m"
| "merge_iters cfg rec clk (Suc k) m = Option.bind (merge_iter cfg rec clk m) (merge_iters cfg rec clk k)"

lemma merge_iters_add:
  "merge_iters cfg rec clk j m = Some m1 \<Longrightarrow> merge_iters cfg rec clk (j + k) m = merge_iters cfg rec clk k m1"
  by (induction j arbitrary: m) (auto split: bind_splits)

text \<open>The index of the next worker wraps around at the end of \<open>usize\<close>, and still reaches every worker.\<close>

lemma index_steps: "((\<lambda>i. usize_add i 1) ^^ Suc d) i = (i + Suc d) mod 2 ^ 64"
  by (induction d) (simp_all add: usize_add_eq mod_simps)

lemma index_reaches:
  assumes "t < 2 ^ 64"
  shows "\<exists>d. ((\<lambda>i. usize_add i 1) ^^ d) i = t"
proof -
  obtain d where d: "i + Suc d = t + 2 ^ 64 * (i + 1)"
  proof (rule that)
    have "i + 1 \<le> 2 ^ 64 * (i + 1)" by simp
    then show "i + Suc (t + 2 ^ 64 * (i + 1) - (i + 1)) = t + 2 ^ 64 * (i + 1)" by linarith
  qed
  from mod_less [OF assms] have "((\<lambda>i. usize_add i 1) ^^ Suc d) i = t" unfolding index_steps d mod_mult_self2 .
  then show ?thesis by blast
qed

text \<open>Either some iteration takes a packet, or all of them are idle.\<close>

lemma idle_prefix:
  assumes F: "block_fits cfg n" and A: "\<forall>p\<in>A. in_block (mc_next_seq cfg) n p" and I: "live_inv cfg na nb n A m"
  shows "(\<exists>k m'. merge_iters cfg rec clk k m = Some m' \<and> live_inv cfg na nb n A m' \<and> backlog m' < backlog m) \<or>
    (\<exists>m'. merge_iters cfg rec clk d m = Some m' \<and> live_inv cfg na nb n A m' \<and> mg_qa m' = mg_qa m \<and> mg_qb m' = mg_qb m \<and>
      mg_qrec m' = mg_qrec m \<and> mg_idx_a m' = ((\<lambda>i. usize_add i 1) ^^ d) (mg_idx_a m) \<and>
      mg_idx_b m' = ((\<lambda>i. usize_add i 1) ^^ d) (mg_idx_b m))"
proof (induction d)
  case (Suc d)
  then show ?case
  proof
    assume "\<exists>m'. merge_iters cfg rec clk d m = Some m' \<and> live_inv cfg na nb n A m' \<and> mg_qa m' = mg_qa m \<and> mg_qb m' = mg_qb m \<and>
      mg_qrec m' = mg_qrec m \<and> mg_idx_a m' = ((\<lambda>i. usize_add i 1) ^^ d) (mg_idx_a m) \<and>
      mg_idx_b m' = ((\<lambda>i. usize_add i 1) ^^ d) (mg_idx_b m)"
    then obtain m1 where m1: "merge_iters cfg rec clk d m = Some m1" "live_inv cfg na nb n A m1"
        "mg_qa m1 = mg_qa m" "mg_qb m1 = mg_qb m" "mg_qrec m1 = mg_qrec m"
        "mg_idx_a m1 = ((\<lambda>i. usize_add i 1) ^^ d) (mg_idx_a m)" "mg_idx_b m1 = ((\<lambda>i. usize_add i 1) ^^ d) (mg_idx_b m)" by blast
    obtain m2 where m2: "merge_iter cfg rec clk m1 = Some m2" "live_inv cfg na nb n A m2" "backlog m2 < backlog m1 \<or> idle_iter m1 m2"
      using merge_iter_block [OF F m1(2) A] by blast
    have it: "merge_iters cfg rec clk (Suc d) m = Some m2" using merge_iters_add [OF m1(1), of 1] m2(1) by simp
    have same: "backlog m1 = backlog m" using m1(3-5) by (simp add: backlog_def)
    from m2(3) show ?thesis
    proof
      assume "backlog m2 < backlog m1"
      then show ?thesis using it m2(2) same by (intro disjI1 exI [of _ "Suc d"] exI [of _ m2]) simp
    next
      assume "idle_iter m1 m2"
      then show ?thesis using it m1(3-7) m2(2) by (intro disjI2 exI [of _ m2]) (simp add: idle_iter_def del: merge_iters.simps)
    qed
  qed blast
qed (use I in simp)

lemma backlog_pos:
  assumes "0 < backlog m"
  obtains i where "i < length (mg_qa m)" "mg_qa m ! i \<noteq> []" | i where "i < length (mg_qb m)" "mg_qb m ! i \<noteq> []"
  | "\<not> (mg_qrec m = None \<or> mg_qrec m = Some [])"
proof -
  have "concat (mg_qa m) \<noteq> [] \<or> concat (mg_qb m) \<noteq> [] \<or> \<not> (mg_qrec m = None \<or> mg_qrec m = Some [])"
    using assms by (auto simp: backlog_def split: option.splits)
  then show thesis using that by (fastforce simp: in_set_conv_nth)
qed

lemma some_iteration_takes:
  assumes F: "block_fits cfg n" and A: "\<forall>p\<in>A. in_block (mc_next_seq cfg) n p" and I: "live_inv cfg na nb n A m"
    and usize: "na \<le> 2 ^ 64" "nb \<le> 2 ^ 64" and pos: "0 < backlog m"
  shows "\<exists>k m'. merge_iters cfg rec clk k m = Some m' \<and> live_inv cfg na nb n A m' \<and> backlog m' < backlog m"
proof (rule ccontr)
  assume none: "\<not> ?thesis"
  have idle: "\<exists>m1 m2. mg_qa m1 = mg_qa m \<and> mg_qb m1 = mg_qb m \<and> mg_qrec m1 = mg_qrec m \<and> idle_iter m1 m2 \<and>
      mg_idx_a m1 = ((\<lambda>i. usize_add i 1) ^^ d) (mg_idx_a m) \<and> mg_idx_b m1 = ((\<lambda>i. usize_add i 1) ^^ d) (mg_idx_b m)" for d
  proof -
    obtain m1 where m1: "merge_iters cfg rec clk d m = Some m1" "live_inv cfg na nb n A m1"
        "mg_qa m1 = mg_qa m" "mg_qb m1 = mg_qb m" "mg_qrec m1 = mg_qrec m"
        "mg_idx_a m1 = ((\<lambda>i. usize_add i 1) ^^ d) (mg_idx_a m)" "mg_idx_b m1 = ((\<lambda>i. usize_add i 1) ^^ d) (mg_idx_b m)"
      using idle_prefix [OF F A I, of rec clk d] none by blast
    obtain m2 where m2: "merge_iter cfg rec clk m1 = Some m2" "live_inv cfg na nb n A m2" "backlog m2 < backlog m1 \<or> idle_iter m1 m2"
      using merge_iter_block [OF F m1(2) A] by blast
    have "merge_iters cfg rec clk (d + 1) m = Some m2" using merge_iters_add [OF m1(1), of 1] m2(1) by simp
    moreover have "backlog m1 = backlog m" using m1(3-5) by (simp add: backlog_def)
    ultimately have "idle_iter m1 m2" using none m2(2,3) by metis
    then show ?thesis using m1 by blast
  qed
  have len: "length (mg_qa m) \<le> 2 ^ 64" "length (mg_qb m) \<le> 2 ^ 64" using I usize by (simp_all add: live_inv_def lines_ok_def)
  from pos show False
  proof (cases rule: backlog_pos)
    case (1 i)
    then obtain d where "((\<lambda>i. usize_add i 1) ^^ d) (mg_idx_a m) = i" using index_reaches [of i] len(1) by fastforce
    then show False using idle [of d] 1 by (auto simp: idle_iter_def)
  next
    case (2 i)
    then obtain d where "((\<lambda>i. usize_add i 1) ^^ d) (mg_idx_b m) = i" using index_reaches [of i] len(2) by fastforce
    then show False using idle [of d] 2 by (auto simp: idle_iter_def)
  next
    case 3
    then show False using idle [of 0] by (auto simp: idle_iter_def)
  qed
qed

lemma queues_run_dry:
  assumes F: "block_fits cfg n" and A: "\<forall>p\<in>A. in_block (mc_next_seq cfg) n p" and usize: "na \<le> 2 ^ 64" "nb \<le> 2 ^ 64"
  shows "live_inv cfg na nb n A m \<Longrightarrow>
    \<exists>k m'. merge_iters cfg rec clk k m = Some m' \<and> live_inv cfg na nb n A m' \<and> waiting m' = {}"
proof (induction "backlog m" arbitrary: m rule: less_induct)
  case less
  show ?case
  proof (cases "backlog m = 0")
    case True
    then have "waiting m = {}" by (auto simp: backlog_def waiting_def split: option.splits)
    then show ?thesis using less.prems by (intro exI [of _ 0] exI [of _ m]) simp
  next
    case False
    then obtain j m1 where j: "merge_iters cfg rec clk j m = Some m1" "live_inv cfg na nb n A m1" "backlog m1 < backlog m"
      using some_iteration_takes [OF F A less.prems usize] by blast
    obtain k m' where "merge_iters cfg rec clk k m1 = Some m'" "live_inv cfg na nb n A m'" "waiting m' = {}"
      using less.hyps [OF j(3,2)] by blast
    then show ?thesis using merge_iters_add [OF j(1), of k] by (intro exI [of _ "j + k"] exI [of _ m']) simp
  qed
qed

text \<open>With nothing waiting, a covered block has been forwarded.\<close>

lemma block_delivered:
  assumes F: "block_fits cfg n" and I: "live_inv cfg na nb n (set arr) m" and w: "waiting m = {}" and C: "covers (mc_next_seq cfg) n arr"
  shows "\<exists>f. (\<forall>i<n. f i \<in> set arr \<and> pk_seq (f i) = mc_next_seq cfg + word_of_nat i) \<and>
    view_of m = \<lparr>ra_next = mc_next_seq cfg + word_of_nat n, ra_buf = (\<lambda>_. None), ra_out = map (\<lambda>i. content_of (f i)) [0..<n], ra_gaps = []\<rparr>"
proof -
  obtain f R where T: "taken (mc_next_seq cfg) n (set arr) {} f R" "view_of m = block_state (mc_next_seq cfg) f [] [] R"
    using I w by (auto simp: live_inv_def block_inv_def)
  have "{..<n} \<subseteq> R"
  proof
    fix i assume "i \<in> {..<n}"
    then obtain p where p: "i < n" "p \<in> set arr" "pk_seq p = mc_next_seq cfg + word_of_nat i" using C by (auto simp: covers_def)
    then obtain j where j: "j \<in> R" "pk_seq p = mc_next_seq cfg + word_of_nat j" using T(1) by (auto simp: taken_def)
    then have "j < n" using T(1) by (auto simp: taken_def)
    then have "i = j" using block_inj [of i j "mc_next_seq cfg"] p j F by (simp add: block_fits_def)
    then show "i \<in> R" using j(1) by simp
  qed
  then have R: "R = {..<n}" using T(1) by (auto simp: taken_def)
  have "view_of m = \<lparr>ra_next = mc_next_seq cfg + word_of_nat n, ra_buf = (\<lambda>_. None), ra_out = map (\<lambda>i. content_of (f i)) [0..<n], ra_gaps = []\<rparr>"
    unfolding T(2) R by (simp add: block_state_def mex_upto fun_eq_iff Let_def)
  then show ?thesis using T(1) unfolding R taken_def by (intro exI [of _ f]) auto
qed

section \<open>Properties\<close>

text \<open>
  C4: Reordering is complete and live. Let the packets of a block of \<open>n\<close> numbers, \<open>n\<close> within the window and the pending limit, arrive
  in any order, on any worker of either line or on the recovery queue, any number of times each and interleaved in any way with the
  iterations of the loop. Once every number has arrived, finitely many iterations forward the whole block, each number once and
  in order, whatever the preference and the hysteresis do; nothing stays buffered and no gap is ever reported.
\<close>

theorem merge_run_delivers:
  assumes "merge_run cfg rec clk na nb arr m" "0 < na" "na \<le> 2 ^ 64" "0 < nb" "nb \<le> 2 ^ 64"
    and "block_fits cfg n" "covers (mc_next_seq cfg) n arr"
  shows "\<exists>k m' f. merge_iters cfg rec clk k m = Some m' \<and>
    (\<forall>i<n. f i \<in> set arr \<and> pk_seq (f i) = mc_next_seq cfg + word_of_nat i) \<and>
    view_of m' = \<lparr>ra_next = mc_next_seq cfg + word_of_nat n, ra_buf = (\<lambda>_. None),
      ra_out = map (\<lambda>i. content_of (f i)) [0..<n], ra_gaps = []\<rparr>"
proof -
  have A: "list_all (in_block (mc_next_seq cfg) n) arr" using assms(7) by (simp add: covers_def)
  then have A': "\<forall>p\<in>set arr. in_block (mc_next_seq cfg) n p" by (simp add: list_all_iff)
  obtain k m' where "merge_iters cfg rec clk k m = Some m'" "live_inv cfg na nb n (set arr) m'" "waiting m' = {}"
    using queues_run_dry [OF assms(6) A' assms(3,5) block_run [OF assms(6,2,4,1) A]] by blast
  then show ?thesis using block_delivered [OF assms(6) _ _ assms(7)] by blast
qed

text \<open>Two packets on two workers of line A, the second one also on line B, all before the first iteration.\<close>

lemma demo_arrivals:
  "\<exists>m. merge_run demo_cfg True (\<lambda>_. 7) 2 1 [demo_pkt 2, demo_pkt 2, demo_pkt 1] m \<and> mg_out m = []"
proof -
  define m0 where "m0 = merge_init demo_cfg (\<lambda>_. 7) (replicate 2 []) (replicate 1 []) None"
  define m1 where "m1 = m0\<lparr>mg_qa := (mg_qa m0)[1 := mg_qa m0 ! 1 @ [demo_pkt 2]]\<rparr>"
  define m2 where "m2 = m1\<lparr>mg_qb := (mg_qb m1)[0 := mg_qb m1 ! 0 @ [demo_pkt 2]]\<rparr>"
  define m3 where "m3 = m2\<lparr>mg_qa := (mg_qa m2)[0 := mg_qa m2 ! 0 @ [demo_pkt 1]]\<rparr>"
  have "merge_run demo_cfg True (\<lambda>_. 7) 2 1 [] m0" unfolding m0_def by (rule start_up) simp
  then have "merge_run demo_cfg True (\<lambda>_. 7) 2 1 ([] @ [demo_pkt 2]) m1" unfolding m1_def by (rule arrive_a) simp
  then have "merge_run demo_cfg True (\<lambda>_. 7) 2 1 (([] @ [demo_pkt 2]) @ [demo_pkt 2]) m2" unfolding m2_def by (rule arrive_b) simp
  then have "merge_run demo_cfg True (\<lambda>_. 7) 2 1 ((([] @ [demo_pkt 2]) @ [demo_pkt 2]) @ [demo_pkt 1]) m3"
    unfolding m3_def by (rule arrive_a) simp
  moreover have "mg_out m3 = []" by (simp add: m3_def m2_def m1_def m0_def merge_init_def)
  ultimately show ?thesis by auto
qed

lemma demo_block: "block_fits demo_cfg 2" "covers (mc_next_seq demo_cfg) 2 [demo_pkt 2, demo_pkt 2, demo_pkt 1]"
proof -
  show "block_fits demo_cfg 2" by (simp add: block_fits_def demo_cfg_def)
  show "covers (mc_next_seq demo_cfg) 2 [demo_pkt 2, demo_pkt 2, demo_pkt 1]"
    by (simp add: covers_def in_block_def demo_cfg_def demo_pkt_def less_2_cases_iff)
qed

theorem merge_run_delivers_witness:
  "\<exists>m k m' f. mg_out m = [] \<and> merge_iters demo_cfg True (\<lambda>_. 7) k m = Some m' \<and>
    (\<forall>i<2. f i \<in> {demo_pkt 1, demo_pkt 2} \<and> pk_seq (f i) = 1 + word_of_nat i) \<and>
    view_of m' = \<lparr>ra_next = 1 + word_of_nat 2, ra_buf = (\<lambda>_. None), ra_out = map (\<lambda>i. content_of (f i)) [0..<2], ra_gaps = []\<rparr>"
proof -
  obtain m where m: "merge_run demo_cfg True (\<lambda>_. 7) 2 1 [demo_pkt 2, demo_pkt 2, demo_pkt 1] m" "mg_out m = []"
    using demo_arrivals by blast
  have n0: "mc_next_seq demo_cfg = 1" by (simp add: demo_cfg_def)
  have s: "set [demo_pkt 2, demo_pkt 2, demo_pkt 1] = {demo_pkt 1, demo_pkt 2}" by auto
  have l: "0 < (2 :: nat)" "(2 :: nat) \<le> 2 ^ 64" "0 < (1 :: nat)" "(1 :: nat) \<le> 2 ^ 64" by simp_all
  note D = merge_run_delivers [OF m(1) l demo_block, unfolded n0 s]
  show ?thesis by (rule exI [of _ m]) (simp only: m(2) D simp_thms)
qed

end
