(* ===== verification/Level_Queue.thy ===== *)
theory Level_Queue
  imports Market_Event "HOL-Library.While_Combinator"
begin

text \<open>
  The order nodes and price levels of \<open>src/src/orderbook.rs\<close>: \<open>Node\<close>, \<open>Level\<close>, the
  handle encodings \<open>to_nz\<close>/\<open>from_nz\<close> and the FIFO iteration \<open>iter_fifo\<close>/\<open>LevelIter\<close>.

  Nodes live in a \<open>Slab\<close> (crate \<open>slab\<close>, not part of the repository). The slab's contents
  are a map from keys to values; indexing a vacant key panics. Which vacant key \<open>insert\<close> hands out
  is the crate's choice, a parameter \<open>alloc\<close> of the operations that insert, with the documented
  law \<open>slab_alloc\<close>: the key was vacant.

  \<open>dseg\<close> is the abstraction of a level: the handles reached from its head through \<open>next\<close>,
  with the \<open>prev\<close> pointers agreeing.
\<close>

type_synonym handle = nat
type_synonym nz = nat  \<comment> \<open>\<open>NonZeroUsize\<close>: a handle plus one\<close>

definition to_nz :: "handle \<Rightarrow> nz" where
  "to_nz h = h + 1"

definition from_nz :: "nz \<Rightarrow> handle" where
  "from_nz nz = nz - 1"

record node =
  node_price :: i64
  node_qty :: i64
  node_side :: side
  node_prev :: "nz option"
  node_next :: "nz option"

definition node_new :: "i64 \<Rightarrow> i64 \<Rightarrow> side \<Rightarrow> node" where
  "node_new price qty side =
     \<lparr>node_price = price, node_qty = qty, node_side = side, node_prev = None, node_next = None\<rparr>"

record level =
  lvl_head :: "nz option"
  lvl_tail :: "nz option"
  lvl_total_qty :: i64
  lvl_count :: nat

definition level_default :: level where
  "level_default = \<lparr>lvl_head = None, lvl_tail = None, lvl_total_qty = 0, lvl_count = 0\<rparr>"

definition level_is_empty :: "level \<Rightarrow> bool" where
  "level_is_empty l \<longleftrightarrow> lvl_count l = 0"

section \<open>The slab\<close>

record slab =
  slab_entries :: "handle \<rightharpoonup> node"
  slab_inserts :: nat  \<comment> \<open>insertions so far: the allocator may depend on the history\<close>

type_synonym slab_alloc_fn = "slab \<Rightarrow> handle"

definition slab_alloc :: "slab_alloc_fn \<Rightarrow> bool" where
  "slab_alloc alloc \<longleftrightarrow>
     (\<forall>s. finite (dom (slab_entries s)) \<longrightarrow> slab_entries s (alloc s) = None)"

text \<open>One allocator that satisfies the law: the lowest vacant key.\<close>

definition first_free :: slab_alloc_fn where
  "first_free s = while (\<lambda>k. slab_entries s k \<noteq> None) Suc 0"

lemma first_free_alloc: "slab_alloc first_free"
  unfolding slab_alloc_def first_free_def
proof (intro allI impI)
  fix s :: slab assume fin: "finite (dom (slab_entries s))"
  show "slab_entries s (while (\<lambda>k. slab_entries s k \<noteq> None) Suc 0) = None"
  proof (rule while_rule [where P = "\<lambda>_. True" and r = "measure (\<lambda>k. Suc (Max (dom (slab_entries s))) - k)"])
    fix k assume "slab_entries s k \<noteq> None"
    then have "k \<le> Max (dom (slab_entries s))" using fin by (intro Max_ge) auto
    then show "(Suc k, k) \<in> measure (\<lambda>k. Suc (Max (dom (slab_entries s))) - k)" by simp
  qed auto
qed

definition slab_new :: slab where
  "slab_new = \<lparr>slab_entries = Map.empty, slab_inserts = 0\<rparr>"

definition slab_insert :: "slab_alloc_fn \<Rightarrow> node \<Rightarrow> slab \<Rightarrow> handle \<times> slab" where
  "slab_insert alloc n s =
     (alloc s, s\<lparr>slab_entries := (slab_entries s)(alloc s \<mapsto> n), slab_inserts := slab_inserts s + 1\<rparr>)"

definition slab_index :: "slab \<Rightarrow> handle \<Rightarrow> node option" where
  "slab_index s h = slab_entries s h"

text \<open>\<open>slab[h].field = v\<close> panics on a vacant key; so does \<open>slab.remove(h)\<close>.\<close>

definition slab_update :: "slab \<Rightarrow> handle \<Rightarrow> (node \<Rightarrow> node) \<Rightarrow> slab option" where
  "slab_update s h f =
     (case slab_entries s h of
        None \<Rightarrow> None
      | Some n \<Rightarrow> Some (s\<lparr>slab_entries := (slab_entries s)(h \<mapsto> f n)\<rparr>))"

definition slab_remove :: "slab \<Rightarrow> handle \<Rightarrow> slab option" where
  "slab_remove s h =
     (case slab_entries s h of
        None \<Rightarrow> None
      | Some _ \<Rightarrow> Some (s\<lparr>slab_entries := (slab_entries s)(h := None)\<rparr>))"

text \<open>
  \<open>LevelIter\<close>: follow \<open>next\<close> from the cursor. A vacant handle panics and a cyclic list never
  ends; both are \<open>None\<close>.
\<close>

partial_function (option) iter_from :: "slab \<Rightarrow> nz option \<Rightarrow> handle list option" where
  "iter_from s cur =
     (case cur of
        None \<Rightarrow> Some []
      | Some z \<Rightarrow>
          (case slab_entries s (from_nz z) of
             None \<Rightarrow> None
           | Some n \<Rightarrow> Option.bind (iter_from s (node_next n)) (\<lambda>hs. Some (from_nz z # hs))))"

declare iter_from.simps [code]

definition iter_fifo :: "level \<Rightarrow> slab \<Rightarrow> handle list option" where
  "iter_fifo l s = iter_from s (lvl_head l)"

section \<open>Doubly linked segments\<close>

text \<open>
  \<open>dseg m p c hs c' t\<close>: starting at cursor \<open>c\<close>, whose predecessor is \<open>p\<close>, the nodes of \<open>hs\<close>
  follow one another; the last one is \<open>t\<close> and its \<open>next\<close> is \<open>c'\<close>.
\<close>

fun dseg :: "(handle \<rightharpoonup> node) \<Rightarrow> nz option \<Rightarrow> nz option \<Rightarrow> handle list \<Rightarrow> nz option \<Rightarrow> nz option \<Rightarrow> bool"
where
  "dseg m p c [] c' t \<longleftrightarrow> c = c' \<and> t = p"
| "dseg m p c (h # hs) c' t \<longleftrightarrow>
     c = Some (to_nz h) \<and>
     (case m h of None \<Rightarrow> False
      | Some n \<Rightarrow> node_prev n = p \<and> dseg m (Some (to_nz h)) (node_next n) hs c' t)"

lemma from_to_nz [simp]: "from_nz (to_nz h) = h"
  by (simp add: from_nz_def to_nz_def)

lemma to_nz_inject [simp]: "to_nz h = to_nz h' \<longleftrightarrow> h = h'"
  by (simp add: to_nz_def)

lemma dseg_append:
  "dseg m p c (xs @ ys) c' t \<longleftrightarrow> (\<exists>c1 t1. dseg m p c xs c1 t1 \<and> dseg m t1 c1 ys c' t)"
  by (induction xs arbitrary: p c) (auto split: option.splits)

lemma dseg_cong:
  "(\<And>h. h \<in> set hs \<Longrightarrow> m' h = m h) \<Longrightarrow> dseg m' p c hs c' t = dseg m p c hs c' t"
  by (induction hs arbitrary: p c) (auto split: option.splits)

lemma dseg_upd_notin [simp]: "h \<notin> set hs \<Longrightarrow> dseg (m(h := x)) p c hs c' t = dseg m p c hs c' t"
  by (rule dseg_cong) auto

lemma dseg_dom: "dseg m p c hs c' t \<Longrightarrow> set hs \<subseteq> dom m"
  by (induction hs arbitrary: p c) (auto split: option.splits)

lemma dseg_last: "dseg m p c hs c' t \<Longrightarrow> t = (if hs = [] then p else Some (to_nz (last hs)))"
  by (induction hs arbitrary: p c) (auto split: option.splits)

lemma dseg_first: "dseg m p c hs c' t \<Longrightarrow> c = (if hs = [] then c' else Some (to_nz (hd hs)))"
  by (cases hs) (auto split: option.splits)

text \<open>Only the links matter: changing quantities or prices keeps a segment.\<close>

lemma dseg_links:
  assumes "\<And>h n. m h = Some n \<Longrightarrow> h \<in> set hs \<Longrightarrow>
      \<exists>n'. m' h = Some n' \<and> node_prev n' = node_prev n \<and> node_next n' = node_next n"
    and "dseg m p c hs c' t"
  shows "dseg m' p c hs c' t"
  using assms
proof (induction hs arbitrary: p c)
  case (Cons h hs)
  then obtain n where n: "m h = Some n" "c = Some (to_nz h)" "node_prev n = p"
    "dseg m (Some (to_nz h)) (node_next n) hs c' t"
    by (auto split: option.splits)
  obtain n' where n': "m' h = Some n'" "node_prev n' = node_prev n" "node_next n' = node_next n"
    using Cons.prems(1) [OF n(1)] by auto
  have "dseg m' (Some (to_nz h)) (node_next n) hs c' t"
    using Cons.prems(1) n(4) by (intro Cons.IH) auto
  then show ?case using n n' by simp
qed simp

text \<open>The iterator visits exactly the handles of the segment, in order, and terminates.\<close>

lemma iter_from_dseg: "dseg (slab_entries s) p c hs None t \<Longrightarrow> iter_from s c = Some hs"
proof (induction hs arbitrary: p c)
  case Nil
  then show ?case by (simp add: iter_from.simps)
next
  case (Cons h hs)
  then obtain n where "c = Some (to_nz h)" "slab_entries s h = Some n"
    "dseg (slab_entries s) (Some (to_nz h)) (node_next n) hs None t"
    by (auto split: option.splits)
  then show ?case using Cons.IH by (subst iter_from.simps) simp
qed

section \<open>Appending at the tail\<close>

text \<open>
  Linking a fresh node behind the tail: the old tail's \<open>next\<close> is set and the new node's \<open>prev\<close>.
\<close>

lemma dseg_snoc:
  assumes seg: "dseg m p c hs None t" and dist: "distinct hs"
    and fresh: "h \<notin> set hs" and ne: "hs \<noteq> []" and last: "m (last hs) = Some nl"
    and new: "m' h = Some nh" "node_prev nh = t" "node_next nh = None"
    and lnk: "m' (last hs) = Some (nl\<lparr>node_next := Some (to_nz h)\<rparr>)"
    and frame: "\<And>x. x \<noteq> h \<Longrightarrow> x \<noteq> last hs \<Longrightarrow> m' x = m x"
  shows "dseg m' p c (hs @ [h]) None (Some (to_nz h))"
proof -
  obtain ys l where hs: "hs = ys @ [l]" using ne by (metis append_butlast_last_id)
  obtain c1 t1 where ys: "dseg m p c ys c1 t1" and l: "dseg m t1 c1 [l] None t"
    using seg by (auto simp: hs dseg_append)
  have "dseg m' p c ys c1 t1"
    using ys dist fresh frame by (subst dseg_cong [of ys m' m]) (auto simp: hs, metis)
  moreover have "dseg m' t1 c1 [l, h] None (Some (to_nz h))"
    using l last lnk new by (auto simp: hs split: option.splits)
  ultimately show ?thesis by (auto simp: hs dseg_append)
qed

section \<open>Unlinking a node\<close>

text \<open>
  Taking \<open>h\<close> out of the middle: the predecessor's \<open>next\<close> becomes \<open>h\<close>'s and the
  successor's \<open>prev\<close> becomes \<open>h\<close>'s; the head or tail moves when \<open>h\<close> was at that end.
\<close>

definition unlink_next :: "(handle \<rightharpoonup> node) \<Rightarrow> handle list \<Rightarrow> nz option \<Rightarrow> handle \<rightharpoonup> node" where
  "unlink_next m xs c =
     (if xs = [] then m else m(last xs := map_option (\<lambda>n. n\<lparr>node_next := c\<rparr>) (m (last xs))))"

definition unlink_prev :: "(handle \<rightharpoonup> node) \<Rightarrow> handle list \<Rightarrow> nz option \<Rightarrow> handle \<rightharpoonup> node" where
  "unlink_prev m ys p =
     (if ys = [] then m else m(hd ys := map_option (\<lambda>n. n\<lparr>node_prev := p\<rparr>) (m (hd ys))))"

lemma dseg_relink_next:
  assumes "dseg m p c xs c1 t1" "distinct xs"
  shows "dseg (unlink_next m xs c2) p (if xs = [] then c2 else c) xs c2 t1"
proof (cases "xs = []")
  case True
  then show ?thesis using assms by simp
next
  case False
  then obtain ys l where xs: "xs = ys @ [l]" by (metis append_butlast_last_id)
  obtain c0 t0 where ys: "dseg m p c ys c0 t0" and l: "dseg m t0 c0 [l] c1 t1"
    using assms(1) by (auto simp: xs dseg_append)
  have "dseg (unlink_next m xs c2) p c ys c0 t0"
    using ys assms(2) by (subst dseg_cong [of ys _ m]) (auto simp: xs unlink_next_def)
  moreover have "dseg (unlink_next m xs c2) t0 c0 [l] c2 t1"
    using l by (auto simp: xs unlink_next_def split: option.splits)
  ultimately show ?thesis by (auto simp: xs dseg_append)
qed

lemma dseg_relink_prev:
  assumes "dseg m p c ys c' t" "distinct ys"
  shows "dseg (unlink_prev m ys p2) p2 c ys c' (if ys = [] then p2 else t)"
proof (cases ys)
  case Nil
  then show ?thesis using assms by simp
next
  case (Cons y zs)
  then have "y \<notin> set zs" using assms(2) by simp
  then show ?thesis
    using assms(1) by (auto simp: Cons unlink_prev_def split: option.splits)
qed

lemma dseg_unlink:
  assumes seg: "dseg m None c (xs @ h # ys) None t" and dist: "distinct (xs @ h # ys)"
    and h: "m h = Some n"
    and m': "m' = (unlink_prev (unlink_next m xs (node_next n)) ys (node_prev n))(h := None)"
  shows "dseg m' None (if xs = [] then node_next n else c) (xs @ ys) None
           (if ys = [] then node_prev n else t)"
proof -
  obtain c1 t1 where xs: "dseg m None c xs c1 t1"
    and hys: "dseg m t1 c1 (h # ys) None t"
    using seg by (auto simp: dseg_append)
  then have prev: "node_prev n = t1" and ys: "dseg m (Some (to_nz h)) (node_next n) ys None t"
    using h by auto
  let ?m1 = "unlink_next m xs (node_next n)"
  have xs1: "dseg ?m1 None (if xs = [] then node_next n else c) xs (node_next n) t1"
    using dseg_relink_next [OF xs] dist by simp
  have "dseg ?m1 (Some (to_nz h)) (node_next n) ys None t"
    using ys dist last_in_set [of xs]
    by (subst dseg_cong [of ys _ m]) (auto simp: unlink_next_def disjoint_iff)
  then have ys1: "dseg (unlink_prev ?m1 ys t1) t1 (node_next n) ys None (if ys = [] then t1 else t)"
    using dist by (intro dseg_relink_prev) auto
  have "dseg m' None (if xs = [] then node_next n else c) xs (node_next n) t1"
    using xs1 dist by (subst dseg_cong [of xs _ ?m1]) (auto simp: m' unlink_prev_def)
  moreover have "dseg m' t1 (node_next n) ys None (if ys = [] then t1 else t)"
    using ys1 dist prev by (subst dseg_cong [of ys _ "unlink_prev ?m1 ys t1"]) (auto simp: m')
  ultimately show ?thesis unfolding dseg_append prev by blast
qed

text \<open>In a distinct segment the links of a node name its neighbours.\<close>

lemma dseg_neighbours:
  assumes "dseg m None c (xs @ h # ys) None t" "m h = Some n"
  shows "node_prev n = (if xs = [] then None else Some (to_nz (last xs)))"
    and "node_next n = (if ys = [] then None else Some (to_nz (hd ys)))"
proof -
  obtain c1 t1 where xs: "dseg m None c xs c1 t1" and hys: "dseg m t1 c1 (h # ys) None t"
    using assms(1) by (auto simp: dseg_append)
  show "node_prev n = (if xs = [] then None else Some (to_nz (last xs)))"
    using hys assms(2) dseg_last [OF xs] by simp
  show "node_next n = (if ys = [] then None else Some (to_nz (hd ys)))"
    using hys assms(2) dseg_first [of m _ "node_next n" ys] by auto
qed

end
