(* ===== verification/Btree_Map.thy ===== *)
theory Btree_Map
  imports Prelude
begin

text \<open>
  The part of \<open>std::collections::BTreeMap\<close> the order book uses for its overflow levels
  (\<open>src/src/orderbook.rs\<close>): lookup, \<open>insert\<close>, \<open>remove\<close>, \<open>entry(..).or_insert(..)\<close>
  and in-order iteration from either end. A map is the list of its entries in ascending key
  order; the locale \<open>ordered_map\<close> states what clients rely on and is interpreted on it.
\<close>

type_synonym 'v btree = "(i64 \<times> 'v) list"

definition bt_wf :: "'v btree \<Rightarrow> bool" where
  "bt_wf m \<longleftrightarrow> sorted_wrt (<) (map fst m)"

definition bt_get :: "'v btree \<Rightarrow> i64 \<Rightarrow> 'v option" where
  "bt_get m k = map_of m k"

fun bt_insert :: "i64 \<Rightarrow> 'v \<Rightarrow> 'v btree \<Rightarrow> 'v btree" where
  "bt_insert k v [] = [(k, v)]"
| "bt_insert k v ((k', v') # m) =
     (if k < k' then (k, v) # (k', v') # m
      else if k = k' then (k, v) # m
      else (k', v') # bt_insert k v m)"

definition bt_remove :: "i64 \<Rightarrow> 'v btree \<Rightarrow> 'v btree" where
  "bt_remove k m = filter (\<lambda>e. fst e \<noteq> k) m"

text \<open>\<open>entry(k).or_insert(d)\<close>: the entry is created with \<open>d\<close> only when it is vacant.\<close>

definition bt_or_insert :: "i64 \<Rightarrow> 'v \<Rightarrow> 'v btree \<Rightarrow> 'v btree" where
  "bt_or_insert k d m = (case bt_get m k of None \<Rightarrow> bt_insert k d m | Some _ \<Rightarrow> m)"

text \<open>\<open>iter().next()\<close> and \<open>iter().next_back()\<close>.\<close>

definition bt_first :: "'v btree \<Rightarrow> (i64 \<times> 'v) option" where
  "bt_first m = (case m of [] \<Rightarrow> None | e # _ \<Rightarrow> Some e)"

definition bt_last :: "'v btree \<Rightarrow> (i64 \<times> 'v) option" where
  "bt_last m = (if m = [] then None else Some (last m))"

section \<open>The interface: a map iterated in key order\<close>

locale ordered_map =
  fixes wf :: "'m \<Rightarrow> bool"
    and get :: "'m \<Rightarrow> i64 \<Rightarrow> 'v option"
    and put :: "i64 \<Rightarrow> 'v \<Rightarrow> 'm \<Rightarrow> 'm"
    and del :: "i64 \<Rightarrow> 'm \<Rightarrow> 'm"
    and entries :: "'m \<Rightarrow> (i64 \<times> 'v) list"
  assumes wf_put: "wf m \<Longrightarrow> wf (put k v m)"
    and wf_del: "wf m \<Longrightarrow> wf (del k m)"
    and get_put: "wf m \<Longrightarrow> get (put k v m) = (get m)(k \<mapsto> v)"
    and get_del: "wf m \<Longrightarrow> get (del k m) = (get m)(k := None)"
    and entries_sorted: "wf m \<Longrightarrow> sorted_wrt (<) (map fst (entries m))"
    and entries_get: "wf m \<Longrightarrow> (k, v) \<in> set (entries m) \<longleftrightarrow> get m k = Some v"
begin

lemma last_is_max:
  assumes "wf m" "entries m \<noteq> []" "last (entries m) = (k, v)"
  shows "get m k = Some v \<and> (\<forall>k' v'. get m k' = Some v' \<longrightarrow> k' \<le> k)"
proof -
  obtain es where es: "entries m = es @ [(k, v)]"
    using assms(2,3) by (metis append_butlast_last_id)
  have "\<forall>e\<in>set es. fst e < k"
    using entries_sorted [OF assms(1)] by (auto simp: es sorted_wrt_append)
  moreover have "get m k = Some v"
    using entries_get [OF assms(1), of k v] by (simp add: es)
  moreover have "(k', v') \<in> set (entries m)" if "get m k' = Some v'" for k' v'
    using that entries_get [OF assms(1)] by blast
  ultimately show ?thesis by (fastforce simp: es)
qed

lemma hd_is_min:
  assumes "wf m" "entries m = (k, v) # es"
  shows "get m k = Some v \<and> (\<forall>k' v'. get m k' = Some v' \<longrightarrow> k \<le> k')"
proof -
  have "\<forall>e\<in>set es. k < fst e"
    using entries_sorted [OF assms(1)] by (auto simp: assms(2))
  moreover have "(k', v') \<in> set (entries m)" if "get m k' = Some v'" for k' v'
    using that entries_get [OF assms(1)] by blast
  moreover have "get m k = Some v"
    using entries_get [OF assms(1), of k v] by (simp add: assms(2))
  ultimately show ?thesis by (fastforce simp: assms(2))
qed

lemma entries_Nil_iff:
  assumes "wf m"
  shows "entries m = [] \<longleftrightarrow> (\<forall>k. get m k = None)"
proof
  assume nil: "entries m = []"
  show "\<forall>k. get m k = None"
  proof
    fix k
    show "get m k = None"
    proof (cases "get m k")
      case (Some v)
      then show ?thesis using nil entries_get [OF assms, of k v] by simp
    qed simp
  qed
next
  assume none: "\<forall>k. get m k = None"
  show "entries m = []"
  proof (rule ccontr)
    assume "entries m \<noteq> []"
    then obtain k v where "(k, v) \<in> set (entries m)"
      by (metis list.set_intros(1) neq_Nil_conv surj_pair)
    then show False using none entries_get [OF assms, of k v] by simp
  qed
qed

end

section \<open>The sorted list provides it\<close>

lemma bt_insert_keys: "set (map fst (bt_insert k v m)) = insert k (set (map fst m))"
  by (induction k v m rule: bt_insert.induct) auto

lemma bt_insert_wf: "bt_wf m \<Longrightarrow> bt_wf (bt_insert k v m)"
proof (induction k v m rule: bt_insert.induct)
  case (2 k v k' v' m)
  then show ?case
    using bt_insert_keys [of k v m] by (auto simp: bt_wf_def)
qed (simp add: bt_wf_def)

lemma bt_remove_wf: "bt_wf m \<Longrightarrow> bt_wf (bt_remove k m)"
  by (auto simp: bt_wf_def bt_remove_def sorted_wrt_map intro: sorted_wrt_filter)

lemma bt_get_insert: "bt_wf m \<Longrightarrow> bt_get (bt_insert k v m) = (bt_get m)(k \<mapsto> v)"
proof (induction k v m rule: bt_insert.induct)
  case (2 k v k' v' m)
  then show ?case by (auto simp: bt_wf_def bt_get_def fun_eq_iff)
qed (auto simp: bt_get_def)

lemma bt_get_remove: "bt_get (bt_remove k m) = (bt_get m)(k := None)"
  by (induction m) (auto simp: bt_get_def bt_remove_def fun_eq_iff)

lemma bt_entries_get: "bt_wf m \<Longrightarrow> (k, v) \<in> set m \<longleftrightarrow> bt_get m k = Some v"
  using strict_sorted_iff [of "map fst m"]
  by (auto simp: bt_wf_def bt_get_def strict_sorted_iff dest: map_of_SomeD)

interpretation bt: ordered_map bt_wf bt_get bt_insert bt_remove "\<lambda>m. m"
proof unfold_locales
  show "bt_wf m \<Longrightarrow> sorted_wrt (<) (map fst m)" for m :: "'a btree"
    by (simp add: bt_wf_def)
qed (simp_all add: bt_insert_wf bt_remove_wf bt_get_insert bt_get_remove bt_entries_get)

lemma bt_wf_Nil [simp]: "bt_wf []"
  by (simp add: bt_wf_def)

lemma bt_get_Nil [simp]: "bt_get [] = Map.empty"
  by (simp add: bt_get_def fun_eq_iff)

lemma bt_or_insert_wf: "bt_wf m \<Longrightarrow> bt_wf (bt_or_insert k d m)"
  by (simp add: bt_or_insert_def bt_insert_wf split: option.split)

lemma bt_get_or_insert:
  "bt_wf m \<Longrightarrow> bt_get (bt_or_insert k d m) =
     (bt_get m)(k \<mapsto> (case bt_get m k of None \<Rightarrow> d | Some v \<Rightarrow> v))"
  by (auto simp: bt_or_insert_def bt_get_insert fun_eq_iff split: option.split)

lemmas bt_view [view_simps] = bt_get_insert bt_get_remove bt_get_or_insert

lemma bt_last_max:
  "bt_wf m \<Longrightarrow> bt_last m = Some (k, v) \<Longrightarrow>
     bt_get m k = Some v \<and> (\<forall>k' v'. bt_get m k' = Some v' \<longrightarrow> k' \<le> k)"
  by (rule bt.last_is_max) (auto simp: bt_last_def split: if_splits)

lemma bt_first_min:
  "bt_wf m \<Longrightarrow> bt_first m = Some (k, v) \<Longrightarrow>
     bt_get m k = Some v \<and> (\<forall>k' v'. bt_get m k' = Some v' \<longrightarrow> k \<le> k')"
  by (cases m) (auto simp: bt_first_def dest!: bt.hd_is_min split: list.splits)

lemma bt_last_None: "bt_wf m \<Longrightarrow> bt_last m = None \<longleftrightarrow> (\<forall>k. bt_get m k = None)"
  using bt.entries_Nil_iff [of m] by (simp add: bt_last_def)

lemma bt_first_None: "bt_wf m \<Longrightarrow> bt_first m = None \<longleftrightarrow> (\<forall>k. bt_get m k = None)"
  using bt.entries_Nil_iff [of m] by (cases m) (auto simp: bt_first_def)

end
