(* ===== verification/Price_Grid.thy ===== *)
theory Price_Grid
  imports Level_Queue Btree_Map
begin

text \<open>
  \<open>PriceGrid\<close> of \<open>src/src/orderbook.rs\<close>: a window of consecutive ticks, each slot holding
  at most one level. A \<open>&mut Level\<close> is the index of its slot.

  \<open>gview\<close> is the grid read as a partial map from prices to levels; \<open>grid_wf\<close> is what the
  arithmetic needs: a positive tick, a window that fits in \<open>i64\<close> and is aligned on the tick.
\<close>

record grid =
  grid_initialized :: bool
  grid_start_price :: i64
  grid_tick :: i64
  grid_slots :: "level option list"

definition grid_new :: "i64 \<Rightarrow> nat \<Rightarrow> grid" where
  "grid_new tick span =
     \<lparr>grid_initialized = False, grid_start_price = 0, grid_tick = tick,
      grid_slots = replicate span None\<rparr>"

definition init_around :: "grid \<Rightarrow> i64 \<Rightarrow> grid option" where
  "init_around g price = do {
     let half = int (length (grid_slots g) div 2);
     r \<leftarrow> i64_rem_euclid price (grid_tick g);
     let aligned = i64_sub price r;
     Some (g\<lparr>grid_start_price := i64_sub aligned (i64_mul half (grid_tick g)),
             grid_initialized := True\<rparr>)
   }"

definition price_to_idx :: "grid \<Rightarrow> i64 \<Rightarrow> nat option option" where
  "price_to_idx g price =
     (if \<not> grid_initialized g then Some None
      else let d = i64_sub price (grid_start_price g) in
        if d < 0 then Some None
        else do {
          r \<leftarrow> i64_rem d (grid_tick g);
          if r \<noteq> 0 then Some None
          else do {
            q \<leftarrow> i64_div d (grid_tick g);
            let idx = i64_as_usize q;
            Some (if idx < length (grid_slots g) then Some idx else None)
          }
        })"

definition grid_get :: "grid \<Rightarrow> i64 \<Rightarrow> level option option" where
  "grid_get g price = do {
     i \<leftarrow> price_to_idx g price;
     Some (case i of Some i \<Rightarrow> grid_slots g ! i | None \<Rightarrow> None)
   }"

text \<open>\<open>get_mut\<close> returns the slot's index when the slot is occupied.\<close>

definition grid_get_mut :: "grid \<Rightarrow> i64 \<Rightarrow> nat option option" where
  "grid_get_mut g price = do {
     i \<leftarrow> price_to_idx g price;
     Some (case i of
             Some i \<Rightarrow> if grid_slots g ! i \<noteq> None then Some i else None
           | None \<Rightarrow> None)
   }"

definition get_mut_or_create :: "grid \<Rightarrow> i64 \<Rightarrow> (grid \<times> nat option) option" where
  "get_mut_or_create g price = do {
     g \<leftarrow> (if \<not> grid_initialized g then init_around g price else Some g);
     i \<leftarrow> price_to_idx g price;
     Some (case i of
             Some i \<Rightarrow>
               (if grid_slots g ! i = None
                then g\<lparr>grid_slots := (grid_slots g)[i := Some level_default]\<rparr> else g, Some i)
           | None \<Rightarrow> (g, None))
   }"

definition grid_remove :: "grid \<Rightarrow> i64 \<Rightarrow> (grid \<times> bool) option" where
  "grid_remove g price = do {
     i \<leftarrow> price_to_idx g price;
     Some (case i of
             Some i \<Rightarrow>
               (case grid_slots g ! i of
                  Some l \<Rightarrow>
                    if level_is_empty l
                    then (g\<lparr>grid_slots := (grid_slots g)[i := None]\<rparr>, True) else (g, False)
                | None \<Rightarrow> (g, False))
           | None \<Rightarrow> (g, False))
   }"

definition slot_price :: "grid \<Rightarrow> nat \<Rightarrow> i64" where
  "slot_price g i = i64_add (grid_start_price g) (i64_mul (int i) (grid_tick g))"

text \<open>The scans stop at the first slot, in the given order, that holds a non-empty level.\<close>

fun first_candidate :: "grid \<Rightarrow> nat list \<Rightarrow> (i64 \<times> i64) option" where
  "first_candidate g [] = None"
| "first_candidate g (i # is) =
     (case grid_slots g ! i of
        Some l \<Rightarrow>
          if \<not> level_is_empty l then Some (slot_price g i, lvl_total_qty l)
          else first_candidate g is
      | None \<Rightarrow> first_candidate g is)"

definition best_bid_candidate :: "grid \<Rightarrow> (i64 \<times> i64) option" where
  "best_bid_candidate g = first_candidate g (rev [0..<length (grid_slots g)])"

definition best_ask_candidate :: "grid \<Rightarrow> (i64 \<times> i64) option" where
  "best_ask_candidate g = first_candidate g [0..<length (grid_slots g)]"

section \<open>Well-formed grids and their view\<close>

text \<open>Prices the arithmetic is exact for, whatever window they lead to.\<close>

definition px_ok :: "i64 \<Rightarrow> bool" where
  "px_ok p \<longleftrightarrow> - (2 ^ 62) \<le> p \<and> p \<le> 2 ^ 62"

definition grid_wf :: "grid \<Rightarrow> bool" where
  "grid_wf g \<longleftrightarrow>
     0 < grid_tick g \<and> 0 < length (grid_slots g) \<and>
     grid_tick g * (int (length (grid_slots g)) + 1) < 2 ^ 62 \<and>
     (if grid_initialized g
      then - (2 ^ 63) \<le> grid_start_price g \<and> grid_start_price g \<le> 2 ^ 62 \<and>
           grid_tick g dvd grid_start_price g
      else \<forall>l \<in> set (grid_slots g). l = None)"

definition in_window :: "grid \<Rightarrow> i64 \<Rightarrow> bool" where
  "in_window g p \<longleftrightarrow>
     grid_initialized g \<and> grid_start_price g \<le> p \<and>
     grid_tick g dvd p - grid_start_price g \<and>
     (p - grid_start_price g) div grid_tick g < int (length (grid_slots g))"

definition idx_of :: "grid \<Rightarrow> i64 \<Rightarrow> nat" where
  "idx_of g p = nat ((p - grid_start_price g) div grid_tick g)"

definition gview :: "grid \<Rightarrow> i64 \<rightharpoonup> level" where
  "gview g p = (if in_window g p then grid_slots g ! idx_of g p else None)"

lemma grid_wf_tick [simp, dest]: "grid_wf g \<Longrightarrow> 0 < grid_tick g"
  by (simp add: grid_wf_def)

lemma idx_of_less: "grid_wf g \<Longrightarrow> in_window g p \<Longrightarrow> idx_of g p < length (grid_slots g)"
  by (auto simp: in_window_def idx_of_def grid_wf_def nat_less_iff pos_imp_zdiv_nonneg_iff)

lemma grid_wf_i64_start: "grid_wf g \<Longrightarrow> grid_initialized g \<Longrightarrow> i64_ok (grid_start_price g)"
  by (auto simp: grid_wf_def i64_ok_def)

text \<open>The wrapped distance is the real one where it matters.\<close>

lemma i64_sub_start:
  assumes "grid_wf g" "grid_initialized g" "px_ok p"
  shows "i64_sub p (grid_start_price g) =
     (if p - grid_start_price g < 2 ^ 63 then p - grid_start_price g
      else p - grid_start_price g - 2 ^ 64)"
proof -
  let ?d = "p - grid_start_price g"
  have lo: "- (2 ^ 63) \<le> ?d" and hi: "?d < 2 ^ 64"
    using assms by (auto simp: grid_wf_def px_ok_def)
  show ?thesis
  proof (cases "?d < 2 ^ 63")
    case True
    then show ?thesis using lo by (simp add: i64_sub_def i64_ok_def)
  next
    case False
    then have "i64_wrap ?d = i64_wrap (?d - 2 ^ 64)"
      by (intro i64_wrap_congI) simp
    moreover have "i64_ok (?d - 2 ^ 64)" using False hi by (simp add: i64_ok_def)
    ultimately show ?thesis using False by (simp add: i64_sub_def)
  qed
qed

lemma price_to_idx_eq:
  assumes wf: "grid_wf g" and px: "px_ok p"
  shows "price_to_idx g p = Some (if in_window g p then Some (idx_of g p) else None)"
proof (cases "grid_initialized g")
  case False
  then show ?thesis by (simp add: price_to_idx_def in_window_def)
next
  case init: True
  let ?d = "p - grid_start_price g" and ?n = "int (length (grid_slots g))"
  have t: "0 < grid_tick g" and span: "grid_tick g * (?n + 1) < 2 ^ 62"
    using wf by (simp_all add: grid_wf_def)
  show ?thesis
  proof (cases "?d < 0 \<or> 2 ^ 63 \<le> ?d")
    case True
    have "\<not> in_window g p"
    proof
      assume w: "in_window g p"
      then have "?d div grid_tick g < ?n" "?d mod grid_tick g = 0" "0 \<le> ?d"
        by (auto simp: in_window_def)
      then have "?d < grid_tick g * ?n"
        using t by (metis add.right_neutral mult_div_mod_eq mult_less_cancel_left_pos)
      then show False using True \<open>0 \<le> ?d\<close> span t by (simp add: algebra_simps)
    qed
    moreover have "i64_sub p (grid_start_price g) < 0"
      using True i64_sub_start [OF wf init px] wf px
      by (auto simp: grid_wf_def px_ok_def init)
    ultimately show ?thesis using init by (simp add: price_to_idx_def)
  next
    case False
    then have d: "i64_sub p (grid_start_price g) = ?d"
      using i64_sub_start [OF wf init px] by simp
    have q: "0 \<le> ?d div grid_tick g" using False t by (simp add: pos_imp_zdiv_nonneg_iff)
    have "?d div grid_tick g \<le> ?d" using False t zdiv_mono2 [of ?d 1 "grid_tick g"] by simp
    then have "i64_ok (?d div grid_tick g)" using False q by (auto simp: i64_ok_def)
    then show ?thesis
      using init d False t q
      by (auto simp: price_to_idx_def Let_def in_window_def idx_of_def dvd_eq_mod_eq_0 nat_less_iff)
  qed
qed

lemma window_decomp:
  assumes "grid_wf g" "in_window g p"
  shows "p = grid_start_price g + grid_tick g * int (idx_of g p)"
proof -
  have "0 \<le> (p - grid_start_price g) div grid_tick g"
    using assms by (simp add: in_window_def pos_imp_zdiv_nonneg_iff)
  moreover have "grid_tick g * ((p - grid_start_price g) div grid_tick g) = p - grid_start_price g"
    using assms by (simp add: in_window_def)
  ultimately show ?thesis by (simp add: idx_of_def)
qed

lemma idx_of_inj: "grid_wf g \<Longrightarrow> in_window g p \<Longrightarrow> in_window g q \<Longrightarrow> idx_of g p = idx_of g q \<longleftrightarrow> p = q"
  using window_decomp [of g p] window_decomp [of g q] by auto

text \<open>Writing one slot changes the view at that slot's price only.\<close>

lemma gview_upd_slot:
  assumes "grid_wf g" "in_window g p"
  shows "gview (g\<lparr>grid_slots := (grid_slots g)[idx_of g p := x]\<rparr>) = (gview g)(p := x)"
proof
  fix q
  let ?g = "g\<lparr>grid_slots := (grid_slots g)[idx_of g p := x]\<rparr>"
  have w: "in_window ?g r = in_window g r" and i: "idx_of ?g r = idx_of g r" for r
    by (simp_all add: in_window_def idx_of_def)
  show "gview ?g q = ((gview g)(p := x)) q"
    using assms idx_of_less [of g p] idx_of_less [of g q] idx_of_inj [of g p q]
    by (auto simp: gview_def w i nth_list_update)
qed

lemma grid_wf_upd_slot:
  assumes "grid_wf g" "in_window g p"
  shows "grid_wf (g\<lparr>grid_slots := (grid_slots g)[i := x]\<rparr>)"
  using assms by (auto simp: grid_wf_def in_window_def)

lemma slot_price_eq:
  assumes wf: "grid_wf g" and init: "grid_initialized g" and i: "i < length (grid_slots g)"
  shows "slot_price g i = grid_start_price g + int i * grid_tick g"
    and "in_window g (slot_price g i)" and "idx_of g (slot_price g i) = i"
proof -
  have t: "0 < grid_tick g" and span: "grid_tick g * (int (length (grid_slots g)) + 1) < 2 ^ 62"
    using wf by (simp_all add: grid_wf_def)
  define k where "k = int i * grid_tick g"
  have k0: "0 \<le> k" using t by (simp add: k_def)
  have "k \<le> int (length (grid_slots g)) * grid_tick g"
    using i t unfolding k_def by (intro mult_right_mono) auto
  moreover have "grid_tick g * (int (length (grid_slots g)) + 1) =
      int (length (grid_slots g)) * grid_tick g + grid_tick g"
    by (simp add: algebra_simps)
  ultimately have k1: "k < 2 ^ 62" using span t by linarith
  have "i64_ok k" using k0 k1 by (simp add: i64_ok_def)
  moreover have "i64_ok (grid_start_price g + k)"
    using wf init k0 k1 by (simp add: grid_wf_def i64_ok_def)
  ultimately show eq: "slot_price g i = grid_start_price g + int i * grid_tick g"
    by (simp add: slot_price_def i64_add_def i64_mul_def k_def)
  show "in_window g (slot_price g i)" "idx_of g (slot_price g i) = i"
    using init i t by (auto simp: eq in_window_def idx_of_def)
qed

lemma slot_price_idx:
  assumes wf: "grid_wf g" and w: "in_window g p"
  shows "slot_price g (idx_of g p) = p"
proof -
  have init: "grid_initialized g" using w by (simp add: in_window_def)
  have "idx_of g (slot_price g (idx_of g p)) = idx_of g p" "in_window g (slot_price g (idx_of g p))"
    using slot_price_eq [OF wf init idx_of_less [OF wf w]] by auto
  then show ?thesis using idx_of_inj [OF wf _ w] by blast
qed

section \<open>Reading and writing through the view\<close>

lemma grid_get_eq: "grid_wf g \<Longrightarrow> px_ok p \<Longrightarrow> grid_get g p = Some (gview g p)"
  by (simp add: grid_get_def price_to_idx_eq gview_def)

lemma grid_get_mut_eq:
  "grid_wf g \<Longrightarrow> px_ok p \<Longrightarrow>
     grid_get_mut g p = Some (if gview g p = None then None else Some (idx_of g p))"
  by (simp add: grid_get_mut_def price_to_idx_eq gview_def)

lemma grid_remove_eq:
  assumes "grid_wf g" "px_ok p"
  shows "\<exists>g'. grid_remove g p =
      Some (g', case gview g p of Some l \<Rightarrow> level_is_empty l | None \<Rightarrow> False) \<and> grid_wf g' \<and>
      gview g' = (case gview g p of
          Some l \<Rightarrow> if level_is_empty l then (gview g)(p := None) else gview g
        | None \<Rightarrow> gview g)"
proof (cases "in_window g p")
  case True
  then show ?thesis
    using assms gview_upd_slot [OF assms(1) True] grid_wf_upd_slot [OF assms(1) True]
    by (auto simp: grid_remove_def price_to_idx_eq gview_def split: option.splits)
next
  case False
  then show ?thesis using assms by (auto simp: grid_remove_def price_to_idx_eq gview_def)
qed

lemma gview_slot:
  assumes "grid_wf g" "grid_initialized g" "i < length (grid_slots g)"
  shows "gview g (slot_price g i) = grid_slots g ! i"
  using slot_price_eq [OF assms] by (simp add: gview_def)

lemma slot_price_mono:
  assumes "grid_wf g" "grid_initialized g" "i < j" "j < length (grid_slots g)"
  shows "slot_price g i < slot_price g j"
proof -
  have "0 < grid_tick g" using assms(1) by simp
  then have "int i * grid_tick g < int j * grid_tick g"
    using assms(3) by (simp add: mult_less_cancel_right)
  then show ?thesis using assms slot_price_eq(1) [of g i] slot_price_eq(1) [of g j] by simp
qed

section \<open>The scans find the best occupied price of the window\<close>

lemma first_candidate_Some:
  assumes "first_candidate g is = Some (p, q)"
  shows "\<exists>xs i ys l. is = xs @ i # ys \<and> grid_slots g ! i = Some l \<and> \<not> level_is_empty l \<and>
     p = slot_price g i \<and> q = lvl_total_qty l \<and>
     (\<forall>j \<in> set xs. \<forall>l'. grid_slots g ! j = Some l' \<longrightarrow> level_is_empty l')"
  using assms
proof (induction "is")
  case (Cons i "is")
  show ?case
  proof (cases "\<exists>l. grid_slots g ! i = Some l \<and> \<not> level_is_empty l")
    case True
    then obtain l where l: "grid_slots g ! i = Some l" "\<not> level_is_empty l" by blast
    then have "i # is = [] @ i # is \<and> p = slot_price g i \<and> q = lvl_total_qty l"
      using Cons.prems by simp
    then show ?thesis using l by fastforce
  next
    case False
    then have e: "\<forall>l'. grid_slots g ! i = Some l' \<longrightarrow> level_is_empty l'" by blast
    with Cons.prems have "first_candidate g is = Some (p, q)" by (auto split: option.splits)
    then obtain xs j ys l where
      "is = xs @ j # ys" "grid_slots g ! j = Some l" "\<not> level_is_empty l"
      "p = slot_price g j" "q = lvl_total_qty l"
      "\<forall>k \<in> set xs. \<forall>l'. grid_slots g ! k = Some l' \<longrightarrow> level_is_empty l'"
      using Cons.IH by blast
    then show ?thesis
      using e by (rule_tac exI [of _ "i # xs"], rule_tac exI [of _ j]) auto
  qed
qed simp

lemma first_candidate_None:
  "first_candidate g is = None \<longleftrightarrow>
     (\<forall>i \<in> set is. \<forall>l. grid_slots g ! i = Some l \<longrightarrow> level_is_empty l)"
  by (induction "is") (auto split: option.splits)

end
