(* ===== verification/Price_Ranking.thy ===== *)
theory Price_Ranking
  imports Market_Event
begin

text \<open>
  Maintaining the best price of one side. The locale states what a ranking of prices is (a strict
  total order); the lemmas say how the best price of a partial map moves when a price is added,
  replaced or removed, and are used for bids and asks through one interpretation per side.
\<close>

fun is_best :: "(i64 \<Rightarrow> i64 \<Rightarrow> bool) \<Rightarrow> (i64 \<rightharpoonup> 'l) \<Rightarrow> i64 option \<Rightarrow> bool" where
  "is_best beats v None \<longleftrightarrow> v = Map.empty"
| "is_best beats v (Some p) \<longleftrightarrow> v p \<noteq> None \<and> (\<forall>q. v q \<noteq> None \<longrightarrow> q = p \<or> beats p q)"

locale price_ranking =
  fixes beats :: "i64 \<Rightarrow> i64 \<Rightarrow> bool"
  assumes irrefl: "\<not> beats p p"
    and trans: "beats p q \<Longrightarrow> beats q r \<Longrightarrow> beats p r"
    and total: "p \<noteq> q \<Longrightarrow> beats p q \<or> beats q p"
begin

lemma best_unique: "is_best beats v a \<Longrightarrow> is_best beats v b \<Longrightarrow> a = b"
  by (cases a; cases b) (auto, (metis irrefl option.distinct(1) trans)+)

lemma best_replace: "is_best beats v b \<Longrightarrow> v p \<noteq> None \<Longrightarrow> is_best beats (v(p \<mapsto> l)) b"
  by (cases b) auto

lemma best_insert:
  assumes "is_best beats v b"
  shows "is_best beats (v(p \<mapsto> l)) (case b of None \<Rightarrow> Some p | Some q \<Rightarrow> if beats p q then Some p else b)"
proof (cases b)
  case None
  then show ?thesis using assms by simp
next
  case (Some q)
  then have q: "v q \<noteq> None" "\<forall>r. v r \<noteq> None \<longrightarrow> r = q \<or> beats q r" using assms by auto
  show ?thesis
  proof (cases "beats p q")
    case True
    then show ?thesis using q Some trans by auto
  next
    case False
    then show ?thesis using q Some total [of p q] by auto
  qed
qed

lemma best_remove_other: "is_best beats v b \<Longrightarrow> b \<noteq> Some p \<Longrightarrow> is_best beats (v(p := None)) b"
  by (cases b) (auto simp: fun_eq_iff)

text \<open>The best of two maps, the first taking precedence, is the better of their bests.\<close>

lemma best_overlay:
  assumes "is_best beats v b" "is_best beats w c"
  shows "is_best beats (\<lambda>p. case v p of Some l \<Rightarrow> Some l | None \<Rightarrow> w p)
    (case (b, c) of (Some p, Some q) \<Rightarrow> if beats q p then Some q else Some p
       | (Some p, None) \<Rightarrow> Some p | (None, x) \<Rightarrow> x)"
proof -
  let ?u = "\<lambda>p. case v p of Some l \<Rightarrow> Some l | None \<Rightarrow> w p"
  have dom_u: "?u r \<noteq> None \<longleftrightarrow> v r \<noteq> None \<or> w r \<noteq> None" for r
    by (cases "v r") auto
  show ?thesis
  proof (cases b)
    case None
    then have "?u = w" using assms(1) by simp
    then show ?thesis using assms(2) None by simp
  next
    case b: (Some p)
    show ?thesis
    proof (cases c)
      case None
      then show ?thesis using assms b by (simp add: dom_u del: not_None_eq)
    next
      case c: (Some q)
      have p: "v p \<noteq> None" "\<And>r. v r \<noteq> None \<Longrightarrow> r = p \<or> beats p r"
        and q: "w q \<noteq> None" "\<And>r. w r \<noteq> None \<Longrightarrow> r = q \<or> beats q r"
        using assms b c by auto
      show ?thesis
      proof (cases "beats q p")
        case True
        then have "?u r \<noteq> None \<Longrightarrow> r = q \<or> beats q r" for r
          unfolding dom_u using p(2) q(2) trans by blast
        then show ?thesis using True b c q(1) by (simp add: dom_u del: not_None_eq)
      next
        case False
        then have "p = q \<or> beats p q" using total by blast
        then have "?u r \<noteq> None \<Longrightarrow> r = p \<or> beats p r" for r
          unfolding dom_u using p(2) q(2) trans by blast
        then show ?thesis using False b c p(1) by (simp add: dom_u del: not_None_eq)
      qed
    qed
  qed
qed

end

interpretation ranking: price_ranking "better s" for s
  by unfold_locales (auto simp: better_def split: side.splits)

end
