(* ===== verification/Side_Levels.thy ===== *)
theory Side_Levels
  imports Price_Grid Price_Ranking
begin

text \<open>
  The levels of one side of an instrument (\<open>src/src/orderbook.rs\<close>): a \<open>PriceGrid\<close> for the
  hot window and an overflow \<open>BTreeMap\<close> for everything else, with
  \<open>ensure_level_mut_in_grid\<close>, \<open>recenter_grid\<close> and the per-side parts of \<open>get_level_mut\<close>,
  \<open>remove_level_if_empty\<close> and \<open>recompute_best_after_removal\<close>.

  A \<open>&mut Level\<close> is a \<open>level_ref\<close>, the place it points to. \<open>lview\<close> is the pair read as one
  map from prices to levels, and \<open>side_wf\<close> the invariant that makes it one: no price has a level in
  both structures. \<open>add_safe\<close> is the exact condition under which \<open>ensure_level_mut_in_grid\<close> finds an
  existing level: an on-tick price whose level was moved to the overflow map gets a second, empty
  level in the grid instead.
\<close>

datatype level_ref = InGrid nat | InOverflow i64

definition read_ref :: "grid \<Rightarrow> level btree \<Rightarrow> level_ref \<Rightarrow> level option" where
  "read_ref g ovf r =
     (case r of InGrid i \<Rightarrow> (if i < length (grid_slots g) then grid_slots g ! i else None)
      | InOverflow p \<Rightarrow> bt_get ovf p)"

definition write_ref :: "grid \<Rightarrow> level btree \<Rightarrow> level_ref \<Rightarrow> level \<Rightarrow> grid \<times> level btree" where
  "write_ref g ovf r l =
     (case r of InGrid i \<Rightarrow> (g\<lparr>grid_slots := (grid_slots g)[i := Some l]\<rparr>, ovf)
      | InOverflow p \<Rightarrow> (g, bt_insert p l ovf))"

fun recenter_move :: "grid \<Rightarrow> nat \<Rightarrow> level option list \<Rightarrow> level btree \<Rightarrow> level btree" where
  "recenter_move g i [] ovf = ovf"
| "recenter_move g i (None # ss) ovf = recenter_move g (i + 1) ss ovf"
| "recenter_move g i (Some l # ss) ovf =
     recenter_move g (i + 1) ss
       (if level_is_empty l then ovf else bt_or_insert (slot_price g i) l ovf)"

definition recenter_grid :: "grid \<Rightarrow> level btree \<Rightarrow> i64 \<Rightarrow> (grid \<times> level btree) option" where
  "recenter_grid g ovf around_price = do {
     let ovf' = recenter_move g 0 (grid_slots g) ovf;
     g' \<leftarrow> init_around (g\<lparr>grid_slots := map (\<lambda>_. None) (grid_slots g)\<rparr>) around_price;
     Some (g', ovf')
   }"

text \<open>The \<open>expect\<close>s of the source panic when the slot is missing.\<close>

definition create_in_grid :: "grid \<Rightarrow> level btree \<Rightarrow> i64 \<Rightarrow> (grid \<times> level btree \<times> level_ref) option" where
  "create_in_grid g ovf price = do {
     (g', i) \<leftarrow> get_mut_or_create g price;
     i \<leftarrow> i;
     Some (g', ovf, InGrid i)
   }"

definition create_in_overflow :: "grid \<Rightarrow> level btree \<Rightarrow> i64 \<Rightarrow> (grid \<times> level btree \<times> level_ref) option" where
  "create_in_overflow g ovf price =
     Some (g, bt_or_insert price level_default ovf, InOverflow price)"

definition ensure_level_mut_in_grid ::
    "grid \<Rightarrow> level btree \<Rightarrow> i64 \<Rightarrow> (grid \<times> level btree \<times> level_ref) option" where
  "ensure_level_mut_in_grid g ovf price = do {
     i \<leftarrow> price_to_idx g price;
     if i \<noteq> None then create_in_grid g ovf price
     else if grid_tick g = 0 then create_in_overflow g ovf price
     else do {
       r \<leftarrow> i64_rem_euclid price (grid_tick g);
       if r \<noteq> 0 then create_in_overflow g ovf price
       else do {
         (g, ovf) \<leftarrow> recenter_grid g ovf price;
         i \<leftarrow> price_to_idx g price;
         if i \<noteq> None then create_in_grid g ovf price
         else create_in_overflow g ovf price
       }
     }
   }"

definition levels_get_mut :: "grid \<Rightarrow> level btree \<Rightarrow> i64 \<Rightarrow> level_ref option option" where
  "levels_get_mut g ovf price = do {
     i \<leftarrow> grid_get_mut g price;
     Some (case i of
             Some i \<Rightarrow> Some (InGrid i)
           | None \<Rightarrow> (if bt_get ovf price \<noteq> None then Some (InOverflow price) else None))
   }"

definition levels_get :: "grid \<Rightarrow> level btree \<Rightarrow> i64 \<Rightarrow> level option option" where
  "levels_get g ovf price = do {
     l \<leftarrow> grid_get g price;
     Some (case l of Some l \<Rightarrow> Some l | None \<Rightarrow> bt_get ovf price)
   }"

definition levels_remove_if_empty ::
    "grid \<Rightarrow> level btree \<Rightarrow> i64 \<Rightarrow> (grid \<times> level btree \<times> bool) option" where
  "levels_remove_if_empty g ovf price = do {
     (g', removed) \<leftarrow> grid_remove g price;
     Some (if removed then (g', ovf, True)
           else case bt_get ovf price of
             Some l \<Rightarrow>
               if level_is_empty l then (g', bt_remove price ovf, True) else (g', ovf, False)
           | None \<Rightarrow> (g', ovf, False))
   }"

text \<open>The candidate of each structure and the pick between them; ties go to the grid.\<close>

definition best_pick :: "side \<Rightarrow> grid \<Rightarrow> level btree \<Rightarrow> (i64 \<times> i64) option" where
  "best_pick s g ovf =
     (let grid_cand = (case s of Bid \<Rightarrow> best_bid_candidate g | Ask \<Rightarrow> best_ask_candidate g);
          of_cand = map_option (\<lambda>(p, l). (p, lvl_total_qty l))
                      (case s of Bid \<Rightarrow> bt_last ovf | Ask \<Rightarrow> bt_first ovf)
      in case (grid_cand, of_cand) of
           (Some c, Some d) \<Rightarrow>
             (if (case s of Bid \<Rightarrow> fst c \<ge> fst d | Ask \<Rightarrow> fst c \<le> fst d) then Some c else Some d)
         | (Some c, None) \<Rightarrow> Some c
         | (None, Some d) \<Rightarrow> Some d
         | (None, None) \<Rightarrow> None)"

section \<open>The view and its invariant\<close>

definition lview :: "grid \<Rightarrow> level btree \<Rightarrow> i64 \<rightharpoonup> level" where
  "lview g ovf p = (case gview g p of Some l \<Rightarrow> Some l | None \<Rightarrow> bt_get ovf p)"

definition side_wf :: "grid \<Rightarrow> level btree \<Rightarrow> bool" where
  "side_wf g ovf \<longleftrightarrow>
     grid_wf g \<and> bt_wf ovf \<and> (\<forall>p. gview g p \<noteq> None \<longrightarrow> bt_get ovf p = None)"

definition no_empty :: "(i64 \<rightharpoonup> level) \<Rightarrow> bool" where
  "no_empty v \<longleftrightarrow> (\<forall>p l. v p = Some l \<longrightarrow> \<not> level_is_empty l)"

definition add_safe :: "grid \<Rightarrow> level btree \<Rightarrow> i64 \<Rightarrow> bool" where
  "add_safe g ovf p \<longleftrightarrow> bt_get ovf p = None \<or> \<not> grid_tick g dvd p"

text \<open>The reference points at the level of price \<open>p\<close>.\<close>

definition ref_at :: "grid \<Rightarrow> level btree \<Rightarrow> level_ref \<Rightarrow> i64 \<Rightarrow> bool" where
  "ref_at g ovf r p \<longleftrightarrow>
     (case r of
        InGrid i \<Rightarrow> in_window g p \<and> i = idx_of g p \<and> gview g p \<noteq> None
      | InOverflow q \<Rightarrow> q = p \<and> gview g p = None \<and> bt_get ovf p \<noteq> None)"

lemma side_wfD:
  assumes "side_wf g ovf"
  shows "grid_wf g" "bt_wf ovf" "gview g p = Some l \<Longrightarrow> bt_get ovf p = None"
  using assms by (auto simp: side_wf_def)

lemma level_default_empty [simp]: "level_is_empty level_default"
  by (simp add: level_is_empty_def level_default_def)

lemma read_ref_at:
  assumes "side_wf g ovf" "ref_at g ovf r p"
  shows "read_ref g ovf r = lview g ovf p" "lview g ovf p \<noteq> None"
  using assms idx_of_less [of g p]
  by (auto simp: ref_at_def read_ref_def lview_def gview_def side_wf_def split: level_ref.splits)

lemma write_ref_at:
  assumes wf: "side_wf g ovf" and r: "ref_at g ovf r p" and w: "write_ref g ovf r l = (g', ovf')"
  shows "side_wf g' ovf'" "lview g' ovf' = (lview g ovf)(p \<mapsto> l)"
    "grid_tick g' = grid_tick g" "ref_at g' ovf' r p"
proof -
  have "side_wf g' ovf' \<and> lview g' ovf' = (lview g ovf)(p \<mapsto> l) \<and>
      grid_tick g' = grid_tick g \<and> ref_at g' ovf' r p"
  proof (cases r)
    case (InGrid i)
    then have win: "in_window g p" "i = idx_of g p" "gview g p \<noteq> None"
      and eq: "g' = g\<lparr>grid_slots := (grid_slots g)[idx_of g p := Some l]\<rparr>" "ovf' = ovf"
      using r w by (auto simp: ref_at_def write_ref_def)
    have v: "gview g' = (gview g)(p \<mapsto> l)" and gw: "grid_wf g'"
      using gview_upd_slot grid_wf_upd_slot win(1) wf by (auto simp: side_wf_def eq)
    then show ?thesis
      using wf win InGrid
      by (auto simp: side_wf_def lview_def ref_at_def eq fun_eq_iff in_window_def idx_of_def
          split: option.splits)
  next
    case (InOverflow q)
    then have "q = p" "gview g p = None" "g' = g" "ovf' = bt_insert p l ovf"
      using r w by (auto simp: ref_at_def write_ref_def)
    then show ?thesis
      using wf InOverflow
      by (auto simp: side_wf_def lview_def ref_at_def fun_eq_iff bt_get_insert bt_insert_wf
          split: option.splits)
  qed
  then show "side_wf g' ovf'" "lview g' ovf' = (lview g ovf)(p \<mapsto> l)"
    "grid_tick g' = grid_tick g" "ref_at g' ovf' r p" by auto
qed

lemma levels_get_eq:
  "side_wf g ovf \<Longrightarrow> px_ok p \<Longrightarrow> levels_get g ovf p = Some (lview g ovf p)"
  by (simp add: levels_get_def side_wf_def grid_get_eq lview_def)

lemma levels_get_mut_eq:
  assumes "side_wf g ovf" "px_ok p"
  shows "case lview g ovf p of
      None \<Rightarrow> levels_get_mut g ovf p = Some None
    | Some l \<Rightarrow> \<exists>r. levels_get_mut g ovf p = Some (Some r) \<and> ref_at g ovf r p"
  using assms
  by (auto simp: levels_get_mut_def side_wf_def grid_get_mut_eq lview_def ref_at_def gview_def
      split: option.splits if_splits)

lemma levels_remove_if_empty_eq:
  assumes wf: "side_wf g ovf" and px: "px_ok p"
  shows "\<exists>g' ovf' b. levels_remove_if_empty g ovf p = Some (g', ovf', b) \<and> side_wf g' ovf' \<and>
    lview g' ovf' = (case lview g ovf p of
        Some l \<Rightarrow> if level_is_empty l then (lview g ovf)(p := None) else lview g ovf
      | None \<Rightarrow> lview g ovf)"
proof -
  obtain g' where g': "grid_remove g p =
      Some (g', case gview g p of Some l \<Rightarrow> level_is_empty l | None \<Rightarrow> False)" "grid_wf g'"
    "gview g' = (case gview g p of
          Some l \<Rightarrow> if level_is_empty l then (gview g)(p := None) else gview g
        | None \<Rightarrow> gview g)"
    using grid_remove_eq [of g p] wf px by (auto simp: side_wf_def)
  show ?thesis
  proof (cases "gview g p")
    case (Some l)
    then show ?thesis
      using wf g'
      by (auto simp: levels_remove_if_empty_def side_wf_def lview_def fun_eq_iff split: option.splits)
  next
    case None
    then show ?thesis
      using wf g'
      by (auto simp: levels_remove_if_empty_def side_wf_def lview_def fun_eq_iff bt_get_remove
          bt_remove_wf split: option.splits)
  qed
qed

section \<open>Recentering moves every level to the overflow map\<close>

lemma init_around_eq:
  assumes wf: "grid_wf g" and px: "px_ok p" and none: "\<forall>l \<in> set (grid_slots g). l = None"
  shows "\<exists>g'. init_around g p = Some g' \<and> grid_wf g' \<and> grid_tick g' = grid_tick g \<and>
      grid_slots g' = grid_slots g \<and> grid_initialized g' \<and>
      (grid_tick g dvd p \<longrightarrow> in_window g' p)"
proof -
  define t where "t = grid_tick g"
  define n where "n = length (grid_slots g)"
  define half where "half = int (n div 2)"
  define k where "k = half * t"
  define al where "al = p - p mod t"
  have t: "0 < t" and n: "0 < n" and span: "t * (int n + 1) < 2 ^ 62"
    using wf by (simp_all add: grid_wf_def t_def n_def)
  have k0: "0 \<le> k" using t by (simp add: k_def half_def)
  have "k \<le> int n * t" unfolding k_def half_def using t by (intro mult_right_mono) auto
  moreover have "t * (int n + 1) = int n * t + t" by (simp add: algebra_simps)
  ultimately have kt: "k + t < 2 ^ 62" using span by linarith
  have al: "p - t < al" "al \<le> p" using t by (simp_all add: al_def)
  have ok: "i64_ok al" "i64_ok k" "i64_ok (al - k)"
    using px kt k0 al t by (simp_all add: i64_ok_def px_ok_def)
  have init: "init_around g p = Some (g\<lparr>grid_start_price := al - k, grid_initialized := True\<rparr>)"
    using t ok unfolding init_around_def
    by (simp add: i64_sub_def i64_mul_def t_def [symmetric] n_def [symmetric] half_def [symmetric]
        k_def [symmetric] al_def [symmetric])
  let ?g = "g\<lparr>grid_start_price := al - k, grid_initialized := True\<rparr>"
  have "t dvd al" by (simp add: al_def)
  then have "t dvd al - k" by (simp add: k_def)
  then have wf': "grid_wf ?g"
    using wf px kt k0 al t by (simp add: grid_wf_def t_def [symmetric] px_ok_def)
  have "in_window ?g p" if "t dvd p"
  proof -
    have "al = p" using that by (simp add: al_def)
    moreover have "half < int n" using n by (simp add: half_def)
    ultimately show ?thesis
      using k0 t by (simp add: in_window_def t_def [symmetric] n_def [symmetric] k_def)
  qed
  then show ?thesis using init wf' by (auto simp: t_def)
qed

lemma recenter_move_None: "\<forall>l \<in> set ss. l = None \<Longrightarrow> recenter_move g i ss ovf = ovf"
  by (induction ss arbitrary: i) auto

lemma recenter_move_get:
  assumes wf: "grid_wf g" and init: "grid_initialized g"
    and "bt_wf ovf" and "ss = drop i (grid_slots g)"
    and "\<And>l. Some l \<in> set ss \<Longrightarrow> \<not> level_is_empty l"
    and "\<And>j. i \<le> j \<Longrightarrow> j < length (grid_slots g) \<Longrightarrow> grid_slots g ! j \<noteq> None \<Longrightarrow>
           bt_get ovf (slot_price g j) = None"
  shows "bt_wf (recenter_move g i ss ovf) \<and>
    bt_get (recenter_move g i ss ovf) p =
      (case (if in_window g p \<and> i \<le> idx_of g p then grid_slots g ! idx_of g p else None) of
         Some l \<Rightarrow> Some l | None \<Rightarrow> bt_get ovf p)"
  using assms(3-6)
proof (induction ss arbitrary: i ovf)
  case Nil
  have "\<not> (in_window g p \<and> i \<le> idx_of g p)"
    using Nil.prems(2) idx_of_less [OF wf, of p] by auto
  then show ?case using Nil.prems(1) by (simp only: recenter_move.simps if_False) simp
next
  case (Cons s ss)
  have i: "i < length (grid_slots g)" and s: "s = grid_slots g ! i" and ss: "ss = drop (i + 1) (grid_slots g)"
    using Cons.prems(2) by (metis drop_eq_Nil2 list.distinct(1) not_le)
      (metis Cons.prems(2) Cons_nth_drop_Suc drop_eq_Nil2 list.inject list.distinct(1) not_le Suc_eq_plus1)+
  have pi: "p = slot_price g i \<longleftrightarrow> in_window g p \<and> idx_of g p = i"
    using slot_price_eq(2,3) [OF wf init i] slot_price_idx [OF wf, of p] by auto
  have full: "\<not> level_is_empty l" if "Some l \<in> set ss" for l
    using Cons.prems(3) that by simp
  show ?case
  proof (cases s)
    case None
    have *: "bt_wf (recenter_move g (i + 1) ss ovf) \<and> bt_get (recenter_move g (i + 1) ss ovf) p =
        (case (if in_window g p \<and> i + 1 \<le> idx_of g p then grid_slots g ! idx_of g p else None) of
           Some l \<Rightarrow> Some l | None \<Rightarrow> bt_get ovf p)"
      using Cons.prems(4) by (intro Cons.IH Cons.prems(1) ss full) simp_all
    have "(if in_window g p \<and> i \<le> idx_of g p then grid_slots g ! idx_of g p else None) =
        (if in_window g p \<and> i + 1 \<le> idx_of g p then grid_slots g ! idx_of g p else None)"
      using None s by (auto simp: le_less Suc_le_eq)
    then show ?thesis using * None by simp
  next
    case (Some l)
    let ?o = "bt_or_insert (slot_price g i) l ovf"
    have ne: "\<not> level_is_empty l" using Cons.prems(3) Some by simp
    have vac: "bt_get ovf (slot_price g i) = None" 
      using Cons.prems(4) [of i] i s Some by (metis le_refl option.distinct(1))
    have get: "bt_get ?o = (bt_get ovf)(slot_price g i \<mapsto> l)"
      using Cons.prems(1) vac by (simp add: bt_get_or_insert)
    have other: "slot_price g j \<noteq> slot_price g i" if "i + 1 \<le> j" "j < length (grid_slots g)" for j
      using slot_price_mono [OF wf init, of i j] that by simp
    have *: "bt_wf (recenter_move g (i + 1) ss ?o) \<and> bt_get (recenter_move g (i + 1) ss ?o) p =
        (case (if in_window g p \<and> i + 1 \<le> idx_of g p then grid_slots g ! idx_of g p else None) of
           Some l \<Rightarrow> Some l | None \<Rightarrow> bt_get ?o p)"
      using Cons.prems(4) get other
      by (intro Cons.IH bt_or_insert_wf Cons.prems(1) ss full) simp_all
    show ?thesis
    proof (cases "p = slot_price g i")
      case True
      then show ?thesis using * ne get pi Some s by (auto split: option.splits)
    next
      case False
      then have "(in_window g p \<and> i \<le> idx_of g p) = (in_window g p \<and> i + 1 \<le> idx_of g p)"
        using pi by auto
      moreover have "bt_get ?o p = bt_get ovf p" using get False by simp
      ultimately show ?thesis using * ne Some by (simp split: option.split)
    qed
  qed
qed

lemma recenter_move_view:
  assumes wf: "side_wf g ovf" and ne: "no_empty (lview g ovf)"
  shows "bt_wf (recenter_move g 0 (grid_slots g) ovf) \<and>
    bt_get (recenter_move g 0 (grid_slots g) ovf) = lview g ovf"
proof (cases "grid_initialized g")
  case False
  then have none: "\<forall>l \<in> set (grid_slots g). l = None" using wf by (simp add: side_wf_def grid_wf_def)
  have "gview g = Map.empty" using False by (simp add: gview_def in_window_def fun_eq_iff)
  then show ?thesis
    using wf recenter_move_None [OF none, of g 0 ovf] by (simp add: side_wf_def lview_def fun_eq_iff)
next
  case init: True
  have gw: "grid_wf g" and bw: "bt_wf ovf" using wf by (auto simp: side_wf_def)
  have slot: "gview g (slot_price g j) = grid_slots g ! j" if "j < length (grid_slots g)" for j
    using gview_slot [OF gw init that] .
  have full: "\<not> level_is_empty l" if l: "Some l \<in> set (grid_slots g)" for l
  proof -
    obtain j where "j < length (grid_slots g)" "grid_slots g ! j = Some l"
      using l unfolding in_set_conv_nth by blast
    then have "lview g ovf (slot_price g j) = Some l" using slot by (simp add: lview_def)
    then show ?thesis using ne by (auto simp: no_empty_def)
  qed
  have vac: "bt_get ovf (slot_price g j) = None" if "j < length (grid_slots g)" "grid_slots g ! j \<noteq> None" for j
    using that slot wf by (auto simp: side_wf_def)
  have "bt_wf (recenter_move g 0 (grid_slots g) ovf) \<and>
      bt_get (recenter_move g 0 (grid_slots g) ovf) p =
        (case (if in_window g p \<and> 0 \<le> idx_of g p then grid_slots g ! idx_of g p else None) of
           Some l \<Rightarrow> Some l | None \<Rightarrow> bt_get ovf p)" for p
    by (rule recenter_move_get [OF gw init bw drop_0 [symmetric] full vac])
  then show ?thesis by (simp add: lview_def gview_def fun_eq_iff)
qed

lemma recenter_grid_eq:
  assumes wf: "side_wf g ovf" and ne: "no_empty (lview g ovf)" and px: "px_ok p"
  shows "\<exists>g' ovf'. recenter_grid g ovf p = Some (g', ovf') \<and> grid_wf g' \<and> bt_wf ovf' \<and>
     grid_tick g' = grid_tick g \<and> gview g' = Map.empty \<and> bt_get ovf' = lview g ovf \<and>
     (grid_tick g dvd p \<longrightarrow> in_window g' p)"
proof -
  let ?g = "g\<lparr>grid_slots := map (\<lambda>_. None) (grid_slots g)\<rparr>"
  have "grid_wf ?g" using wf by (simp add: side_wf_def grid_wf_def split: if_splits)
  then obtain g' where g': "init_around ?g p = Some g'" "grid_wf g'" "grid_tick g' = grid_tick g"
      "grid_slots g' = map (\<lambda>_. None) (grid_slots g)" "grid_tick g dvd p \<longrightarrow> in_window g' p"
    using init_around_eq [of ?g p] px by auto
  have "gview g' q = None" for q
    using idx_of_less [OF g'(2), of q] by (simp add: gview_def g'(4))
  then show ?thesis
    using g' recenter_move_view [OF wf ne] by (auto simp: recenter_grid_def)
qed

section \<open>Finding or creating a level\<close>

abbreviation or_default :: "level option \<Rightarrow> level" where
  "or_default x \<equiv> (case x of None \<Rightarrow> level_default | Some l \<Rightarrow> l)"

lemma window_dvd: "grid_wf g \<Longrightarrow> in_window g p \<Longrightarrow> grid_tick g dvd p"
  by (auto simp: grid_wf_def in_window_def) (metis diff_add_cancel dvd_add)

lemma create_in_grid_eq:
  assumes wf: "grid_wf g" and px: "px_ok p" and win: "in_window g p"
  shows "\<exists>g'. create_in_grid g ovf p = Some (g', ovf, InGrid (idx_of g p)) \<and> grid_wf g' \<and>
     grid_tick g' = grid_tick g \<and> gview g' = (gview g)(p \<mapsto> or_default (gview g p)) \<and>
     in_window g' p \<and> idx_of g' p = idx_of g p"
proof -
  have init: "grid_initialized g" using win by (simp add: in_window_def)
  let ?g = "g\<lparr>grid_slots := (grid_slots g)[idx_of g p := Some level_default]\<rparr>"
  have "in_window ?g p" "idx_of ?g p = idx_of g p"
    using win by (simp_all add: in_window_def idx_of_def)
  moreover have "gview g p = grid_slots g ! idx_of g p" using win by (simp add: gview_def)
  ultimately show ?thesis
    using gview_upd_slot [OF wf win] grid_wf_upd_slot [OF wf win] wf win init px
    by (auto simp: create_in_grid_def get_mut_or_create_def price_to_idx_eq fun_upd_idem_iff
        split: option.splits)
qed

lemma ensure_in_window:
  assumes "grid_wf g" "px_ok p" "in_window g p"
  shows "ensure_level_mut_in_grid g ovf p = create_in_grid g ovf p"
  using assms by (simp add: ensure_level_mut_in_grid_def price_to_idx_eq)

lemma ensure_off_tick:
  assumes "grid_wf g" "px_ok p" "\<not> grid_tick g dvd p"
  shows "ensure_level_mut_in_grid g ovf p = create_in_overflow g ovf p"
  using assms window_dvd [of g p]
  by (auto simp: ensure_level_mut_in_grid_def price_to_idx_eq dvd_eq_mod_eq_0)

lemma ensure_recenter:
  assumes wf: "side_wf g ovf" and ne: "no_empty (lview g ovf)" and px: "px_ok p"
    and out: "\<not> in_window g p" and dvd: "grid_tick g dvd p"
  shows "\<exists>g1 ovf1. ensure_level_mut_in_grid g ovf p = create_in_grid g1 ovf1 p \<and>
     grid_wf g1 \<and> bt_wf ovf1 \<and> grid_tick g1 = grid_tick g \<and> gview g1 = Map.empty \<and>
     bt_get ovf1 = lview g ovf \<and> in_window g1 p"
proof -
  have gw: "grid_wf g" using wf by (simp add: side_wf_def)
  have t: "grid_tick g \<noteq> 0" using grid_wf_tick [OF gw] by simp
  obtain g1 ovf1 where 1: "recenter_grid g ovf p = Some (g1, ovf1)" "grid_wf g1" "bt_wf ovf1"
    "grid_tick g1 = grid_tick g" "gview g1 = Map.empty" "bt_get ovf1 = lview g ovf" "in_window g1 p"
    using recenter_grid_eq [OF wf ne px] dvd by auto
  then have "ensure_level_mut_in_grid g ovf p = create_in_grid g1 ovf1 p"
    using gw px out dvd t by (simp add: ensure_level_mut_in_grid_def price_to_idx_eq)
  then show ?thesis using 1 by blast
qed

lemma side_wf_in_grid:
  assumes "create_in_grid g ovf p = Some (g', ovf, InGrid (idx_of g p))"
    and "grid_wf g'" "bt_wf ovf" "gview g' = (gview g)(p \<mapsto> or_default (gview g p))"
    and "in_window g' p" "idx_of g' p = idx_of g p"
    and disj: "\<And>q. gview g q \<noteq> None \<Longrightarrow> bt_get ovf q = None" and vac: "bt_get ovf p = None"
  shows "side_wf g' ovf" "lview g' ovf = (lview g ovf)(p \<mapsto> or_default (lview g ovf p))"
    "ref_at g' ovf (InGrid (idx_of g p)) p"
  using assms by (auto simp: side_wf_def lview_def ref_at_def fun_eq_iff split: option.splits)

lemma ensure_level_law:
  assumes wf: "side_wf g ovf" and ne: "no_empty (lview g ovf)" and px: "px_ok p"
    and safe: "add_safe g ovf p"
  shows "\<exists>g' ovf' r. ensure_level_mut_in_grid g ovf p = Some (g', ovf', r) \<and> side_wf g' ovf' \<and>
     grid_tick g' = grid_tick g \<and> lview g' ovf' = (lview g ovf)(p \<mapsto> or_default (lview g ovf p)) \<and>
     ref_at g' ovf' r p \<and> (\<forall>q. r = InOverflow q \<longrightarrow> \<not> grid_tick g dvd p)"
proof -
  have gw: "grid_wf g" and bw: "bt_wf ovf" and disj: "\<And>q. gview g q \<noteq> None \<Longrightarrow> bt_get ovf q = None"
    using wf by (auto simp: side_wf_def)
  show ?thesis
  proof (cases "in_window g p")
    case True
    then have vac: "bt_get ovf p = None"
      using safe window_dvd [OF gw True] by (simp add: add_safe_def)
    obtain g' where g': "create_in_grid g ovf p = Some (g', ovf, InGrid (idx_of g p))" "grid_wf g'"
        "grid_tick g' = grid_tick g" "gview g' = (gview g)(p \<mapsto> or_default (gview g p))"
        "in_window g' p" "idx_of g' p = idx_of g p"
      using create_in_grid_eq [OF gw px True] by blast
    then show ?thesis
      using side_wf_in_grid [OF g'(1,2) bw g'(4-6) disj vac] ensure_in_window [OF gw px True, of ovf] by auto
  next
    case out: False
    show ?thesis
    proof (cases "grid_tick g dvd p")
      case False
      then have "ensure_level_mut_in_grid g ovf p =
          Some (g, bt_or_insert p level_default ovf, InOverflow p)"
        using ensure_off_tick [OF gw px] by (simp add: create_in_overflow_def)
      moreover have "gview g p = None" using out by (simp add: gview_def)
      ultimately show ?thesis
        using wf False
        by (auto simp: side_wf_def lview_def ref_at_def fun_eq_iff bt_get_or_insert bt_or_insert_wf
            split: option.splits)
    next
      case dvd: True
      obtain g1 ovf1 where 1: "ensure_level_mut_in_grid g ovf p = create_in_grid g1 ovf1 p"
          "grid_wf g1" "bt_wf ovf1" "grid_tick g1 = grid_tick g" "gview g1 = Map.empty"
          "bt_get ovf1 = lview g ovf" "in_window g1 p"
        using ensure_recenter [OF wf ne px out dvd] by blast
      have vac: "bt_get ovf1 p = None"
        using 1(6) safe dvd out by (simp add: add_safe_def lview_def gview_def)
      obtain g' where g': "create_in_grid g1 ovf1 p = Some (g', ovf1, InGrid (idx_of g1 p))" "grid_wf g'"
          "grid_tick g' = grid_tick g1" "gview g' = (gview g1)(p \<mapsto> or_default (gview g1 p))"
          "in_window g' p" "idx_of g' p = idx_of g1 p"
        using create_in_grid_eq [OF 1(2) px 1(7)] by blast
      have view: "lview g1 ovf1 = lview g ovf" using 1(5,6) by (simp add: lview_def fun_eq_iff)
      show ?thesis
        using side_wf_in_grid [OF g'(1,2) 1(3) g'(4-6) _ vac] g' 1(1,4,5) by (auto simp: view)
    qed
  qed
qed

text \<open>Asking again for a level that is in place returns the same reference and changes nothing.\<close>

lemma ensure_again:
  assumes wf: "side_wf g ovf" and px: "px_ok p" and r: "ref_at g ovf r p"
    and off: "\<forall>q. r = InOverflow q \<longrightarrow> \<not> grid_tick g dvd p"
  shows "ensure_level_mut_in_grid g ovf p = Some (g, ovf, r)"
proof (cases r)
  case (InGrid i)
  then have "in_window g p" "i = idx_of g p" "gview g p \<noteq> None" using r by (auto simp: ref_at_def)
  then show ?thesis
    using wf px InGrid
    by (auto simp: side_wf_def ensure_in_window create_in_grid_def get_mut_or_create_def
        price_to_idx_eq gview_def in_window_def)
next
  case (InOverflow q)
  then have "q = p" "bt_get ovf p \<noteq> None" "\<not> grid_tick g dvd p" using r off by (auto simp: ref_at_def)
  then show ?thesis
    using wf px InOverflow
    by (auto simp: side_wf_def ensure_off_tick create_in_overflow_def bt_or_insert_def)
qed

text \<open>
  Outside \<open>add_safe\<close> the level of the price is in the overflow map, and the reference returned
  is to an empty level of the grid that hides it.
\<close>

lemma ensure_shadows:
  assumes wf: "side_wf g ovf" and ne: "no_empty (lview g ovf)" and px: "px_ok p"
    and unsafe: "\<not> add_safe g ovf p"
  shows "\<exists>g' ovf' r l. ensure_level_mut_in_grid g ovf p = Some (g', ovf', r) \<and>
     lview g ovf p = Some l \<and> \<not> level_is_empty l \<and> bt_get ovf' p = Some l \<and>
     read_ref g' ovf' r = Some level_default \<and> lview g' ovf' p = Some level_default"
proof -
  have gw: "grid_wf g" and dvd: "grid_tick g dvd p" using wf unsafe by (auto simp: side_wf_def add_safe_def)
  obtain l where l: "bt_get ovf p = Some l" using unsafe by (auto simp: add_safe_def)
  have gv: "gview g p = None" using wf l by (cases "gview g p") (auto simp: side_wf_def)
  have lv: "lview g ovf p = Some l" using l gv by (simp add: lview_def)
  have hid: "\<exists>g' ovf' r. ensure_level_mut_in_grid g ovf p = Some (g', ovf', r) \<and>
      bt_get ovf' p = Some l \<and> read_ref g' ovf' r = Some level_default \<and> gview g' p = Some level_default"
    if hyps: "ensure_level_mut_in_grid g ovf p = create_in_grid g1 ovf1 p" "grid_wf g1" "in_window g1 p"
      "gview g1 p = None" "bt_get ovf1 p = Some l" for g1 ovf1
  proof -
    obtain g' where g': "create_in_grid g1 ovf1 p = Some (g', ovf1, InGrid (idx_of g1 p))" "grid_wf g'"
        "gview g' = (gview g1)(p \<mapsto> or_default (gview g1 p))" "in_window g' p" "idx_of g' p = idx_of g1 p"
      using create_in_grid_eq [OF hyps(2) px hyps(3)] by blast
    have "gview g' p = Some level_default" using g'(3) hyps(4) by simp
    moreover have "read_ref g' ovf1 (InGrid (idx_of g1 p)) = Some level_default"
      using calculation g'(2,4,5) idx_of_less [OF g'(2,4)] by (simp add: read_ref_def gview_def)
    ultimately show ?thesis using hyps g'(1) by auto
  qed
  have "\<exists>g' ovf' r. ensure_level_mut_in_grid g ovf p = Some (g', ovf', r) \<and>
      bt_get ovf' p = Some l \<and> read_ref g' ovf' r = Some level_default \<and> gview g' p = Some level_default"
  proof (cases "in_window g p")
    case True
    then show ?thesis using hid [OF ensure_in_window [OF gw px True] gw True gv l] by blast
  next
    case False
    then obtain g1 ovf1 where 1: "ensure_level_mut_in_grid g ovf p = create_in_grid g1 ovf1 p"
        "grid_wf g1" "gview g1 = Map.empty" "bt_get ovf1 = lview g ovf" "in_window g1 p"
      using ensure_recenter [OF wf ne px False dvd] by blast
    then show ?thesis using hid [OF 1(1,2,5)] lv by simp
  qed
  moreover have "\<not> level_is_empty l" using ne lv by (simp add: no_empty_def)
  ultimately show ?thesis using lv by (auto simp: lview_def)
qed

section \<open>The recomputed best price\<close>

lemma grid_candidate_best:
  assumes wf: "side_wf g ovf" and ne: "no_empty (lview g ovf)"
    and c: "c = (case s of Bid \<Rightarrow> best_bid_candidate g | Ask \<Rightarrow> best_ask_candidate g)"
  shows "is_best (better s) (gview g) (map_option fst c)"
    and "c = Some (p, q) \<Longrightarrow> \<exists>l. gview g p = Some l \<and> q = lvl_total_qty l"
proof -
  define js where "js = (case s of Bid \<Rightarrow> rev [0..<length (grid_slots g)] | Ask \<Rightarrow> [0..<length (grid_slots g)])"
  have cand: "c = first_candidate g js"
    by (cases s) (simp_all add: c js_def best_bid_candidate_def best_ask_candidate_def)
  have set_js: "set js = {0..<length (grid_slots g)}" by (cases s) (simp_all add: js_def)
  have gw: "grid_wf g" using wf by (simp add: side_wf_def)
  have full: "gview g x = Some l \<Longrightarrow> \<not> level_is_empty l" for x l
    using ne by (auto simp: no_empty_def lview_def split: option.splits)
  have occ: "\<exists>i l. i \<in> set js \<and> x = slot_price g i \<and> grid_slots g ! i = Some l \<and> \<not> level_is_empty l"
    if "gview g x = Some l" for x l
  proof -
    have "in_window g x" "grid_slots g ! idx_of g x = Some l"
      using that by (auto simp: gview_def split: if_splits)
    then show ?thesis
      using idx_of_less [OF gw] slot_price_idx [OF gw] full [OF that] set_js by fastforce
  qed
  have "is_best (better s) (gview g) (map_option fst c) \<and>
      (\<forall>p q. c = Some (p, q) \<longrightarrow> (\<exists>l. gview g p = Some l \<and> q = lvl_total_qty l))"
  proof (cases c)
    case None
    then have "\<forall>i \<in> set js. \<forall>l. grid_slots g ! i = Some l \<longrightarrow> level_is_empty l"
      using cand first_candidate_None by metis
    then have "gview g x = None" for x using occ [of x] by (cases "gview g x") auto
    then show ?thesis using None by (simp add: fun_eq_iff)
  next
    case (Some pq)
    obtain p q where pq: "pq = (p, q)" by fastforce
    obtain xs i ys l where i: "js = xs @ i # ys" "grid_slots g ! i = Some l" "\<not> level_is_empty l"
        "p = slot_price g i" "q = lvl_total_qty l"
        and xs: "\<forall>j \<in> set xs. \<forall>l'. grid_slots g ! j = Some l' \<longrightarrow> level_is_empty l'"
      using first_candidate_Some [of g js p q] Some pq cand by auto
    have il: "i < length (grid_slots g)" using i(1) set_js by auto
    have init: "grid_initialized g"
    proof (rule ccontr)
      assume "\<not> grid_initialized g"
      then have "grid_slots g ! i = None" using gw il by (auto simp: grid_wf_def)
      then show False using i(2) by simp
    qed
    have gp: "gview g p = Some l" using gview_slot [OF gw init il] i by simp
    have "x = p \<or> better s p x" if gx: "gview g x = Some m" for x m
    proof -
      obtain j l' where j: "j \<in> set js" "x = slot_price g j" "grid_slots g ! j = Some l'" "\<not> level_is_empty l'"
        using occ [OF gx] by blast
      then have "j = i \<or> j \<in> set ys" using xs i(1) by auto
      moreover have "better s p x" if "j \<in> set ys"
      proof -
        have "sorted_wrt (case s of Bid \<Rightarrow> (>) | Ask \<Rightarrow> (<)) js"
          by (cases s) (simp_all add: js_def sorted_wrt_rev)
        then have "case s of Bid \<Rightarrow> j < i | Ask \<Rightarrow> i < j"
          using that by (cases s) (auto simp: i(1) sorted_wrt_append)
        moreover have "j < length (grid_slots g)" using j(1) set_js by simp
        ultimately show ?thesis
          using slot_price_mono [OF gw init] il j(2) i(4) by (cases s) (auto simp: better_def)
      qed
      ultimately show ?thesis using j(2) i(4) by auto
    qed
    then show ?thesis using Some pq gp i(5) by auto
  qed
  then show "is_best (better s) (gview g) (map_option fst c)"
    and "c = Some (p, q) \<Longrightarrow> \<exists>l. gview g p = Some l \<and> q = lvl_total_qty l" by auto
qed

lemma overflow_candidate_best:
  assumes "bt_wf ovf" and c: "c = (case s of Bid \<Rightarrow> bt_last ovf | Ask \<Rightarrow> bt_first ovf)"
  shows "is_best (better s) (bt_get ovf) (map_option fst c)"
    and "c = Some (p, l) \<Longrightarrow> bt_get ovf p = Some l"
proof -
  have "is_best (better s) (bt_get ovf) (map_option fst c) \<and>
      (\<forall>p l. c = Some (p, l) \<longrightarrow> bt_get ovf p = Some l)"
  proof (cases c)
    case None
    then have "\<forall>k. bt_get ovf k = None"
      using bt_last_None bt_first_None assms by (cases s) auto
    then show ?thesis using None by (simp add: fun_eq_iff)
  next
    case (Some e)
    obtain k v where e: "e = (k, v)" by fastforce
    have "bt_get ovf k = Some v \<and> (\<forall>k' v'. bt_get ovf k' = Some v' \<longrightarrow> k' = k \<or> better s k k')"
      using bt_last_max [of ovf k v] bt_first_min [of ovf k v] assms Some e
      by (cases s) (fastforce simp: better_def)+
    then show ?thesis using Some e by auto
  qed
  then show "is_best (better s) (bt_get ovf) (map_option fst c)"
    and "c = Some (p, l) \<Longrightarrow> bt_get ovf p = Some l" by auto
qed

lemma best_pick_law:
  assumes wf: "side_wf g ovf" and ne: "no_empty (lview g ovf)"
  shows "is_best (better s) (lview g ovf) (map_option fst (best_pick s g ovf))"
    and "best_pick s g ovf = Some (p, q) \<Longrightarrow> \<exists>l. lview g ovf p = Some l \<and> q = lvl_total_qty l"
proof -
  define gc where "gc = (case s of Bid \<Rightarrow> best_bid_candidate g | Ask \<Rightarrow> best_ask_candidate g)"
  define oc where "oc = (case s of Bid \<Rightarrow> bt_last ovf | Ask \<Rightarrow> bt_first ovf)"
  note G = grid_candidate_best [OF wf ne gc_def]
  note O = overflow_candidate_best [OF side_wfD(2) [OF wf] oc_def]
  have pick: "best_pick s g ovf =
      (case (gc, oc) of
         (Some c, Some d) \<Rightarrow>
           if better s (fst d) (fst c) then Some (fst d, lvl_total_qty (snd d)) else Some c
       | (Some c, None) \<Rightarrow> Some c
       | (None, Some d) \<Rightarrow> Some (fst d, lvl_total_qty (snd d))
       | (None, None) \<Rightarrow> None)"
    by (cases s; cases gc; cases oc)
       (auto simp: best_pick_def gc_def oc_def better_def split: prod.split)
  have fst_pick: "map_option fst (best_pick s g ovf) =
      (case (map_option fst gc, map_option fst oc) of
         (Some p, Some q) \<Rightarrow> if better s q p then Some q else Some p
       | (Some p, None) \<Rightarrow> Some p | (None, x) \<Rightarrow> x)"
    by (cases gc; cases oc) (auto simp: pick)
  show "is_best (better s) (lview g ovf) (map_option fst (best_pick s g ovf))"
    unfolding fst_pick using ranking.best_overlay [OF G(1) O(1)] by (simp add: lview_def [abs_def])
  have over: "lview g ovf k = Some l" if "bt_get ovf k = Some l" for k l
    using that wf by (cases "gview g k") (auto simp: lview_def side_wf_def)
  have grid: "lview g ovf k = Some l" if "gview g k = Some l" for k l
    using that by (simp add: lview_def)
  show "best_pick s g ovf = Some (p, q) \<Longrightarrow> \<exists>l. lview g ovf p = Some l \<and> q = lvl_total_qty l"
    using G(2) [of p q] O(2) [of p] over grid
    by (cases gc; cases oc) (auto simp: pick split: if_splits)
qed

end
