(* ===== verification/Book_Spec.thy ===== *)
theory Book_Spec
  imports Side_Levels
begin

text \<open>
  The abstract price-time book of one instrument and its relation to linked levels.

  An abstract book is the list of live orders in arrival order. The queue of a side and price is the
  sublist of its orders, so first-in-first-out within a level is by construction; adding appends,
  changing a quantity keeps the place, cancelling removes.

  \<open>levels_rel m v os\<close> relates a node store \<open>m\<close> and, per side, a map \<open>v\<close> from prices to levels
  to the order list \<open>os\<close>. The three lemmas at the end say that the pointer manipulations of \<open>add\<close>,
  \<open>set_qty\<close> and \<open>cancel\<close> preserve it; they do not depend on how the levels are stored.
\<close>

record order =
  o_handle :: handle
  o_side :: side
  o_price :: i64
  o_qty :: i64

type_synonym abook = "order list"

definition spec_add :: "abook \<Rightarrow> handle \<Rightarrow> i64 \<Rightarrow> i64 \<Rightarrow> side \<Rightarrow> abook" where
  "spec_add os h price qty s = os @ [\<lparr>o_handle = h, o_side = s, o_price = price, o_qty = qty\<rparr>]"

definition spec_set_qty :: "abook \<Rightarrow> handle \<Rightarrow> i64 \<Rightarrow> abook" where
  "spec_set_qty os h qty = map (\<lambda>ord. if o_handle ord = h then ord\<lparr>o_qty := qty\<rparr> else ord) os"

definition spec_cancel :: "abook \<Rightarrow> handle \<Rightarrow> abook" where
  "spec_cancel os h = filter (\<lambda>ord. o_handle ord \<noteq> h) os"

definition queue :: "abook \<Rightarrow> side \<Rightarrow> i64 \<Rightarrow> abook" where
  "queue os s p = filter (\<lambda>ord. o_side ord = s \<and> o_price ord = p) os"

definition total_qty :: "abook \<Rightarrow> int" where
  "total_qty os = sum_list (map o_qty os)"

text \<open>The occupied prices of a side and the best of them.\<close>

definition spec_prices :: "abook \<Rightarrow> side \<Rightarrow> i64 \<rightharpoonup> abook" where
  "spec_prices os s p = (if queue os s p = [] then None else Some (queue os s p))"

section \<open>The relation\<close>

definition node_for :: "(handle \<rightharpoonup> node) \<Rightarrow> order \<Rightarrow> bool" where
  "node_for m ord = (case m (o_handle ord) of None \<Rightarrow> False
     | Some n \<Rightarrow> node_price n = o_price ord \<and> node_side n = o_side ord \<and> node_qty n = o_qty ord)"

definition level_rel :: "(handle \<rightharpoonup> node) \<Rightarrow> level \<Rightarrow> abook \<Rightarrow> bool" where
  "level_rel m l q \<longleftrightarrow>
     dseg m None (lvl_head l) (map o_handle q) None (lvl_tail l) \<and>
     lvl_count l = length q \<and> lvl_total_qty l = i64_wrap (total_qty q)"

definition queue_rel :: "(handle \<rightharpoonup> node) \<Rightarrow> level option \<Rightarrow> abook \<Rightarrow> bool" where
  "queue_rel m lo q = (case lo of None \<Rightarrow> q = [] | Some l \<Rightarrow> q \<noteq> [] \<and> level_rel m l q)"

definition levels_rel :: "(handle \<rightharpoonup> node) \<Rightarrow> (side \<Rightarrow> i64 \<rightharpoonup> level) \<Rightarrow> abook \<Rightarrow> bool" where
  "levels_rel m v os \<longleftrightarrow>
     distinct (map o_handle os) \<and> dom m = o_handle ` set os \<and>
     (\<forall>ord \<in> set os. node_for m ord \<and> px_ok (o_price ord)) \<and>
     (\<forall>s p. queue_rel m (v s p) (queue os s p))"

section \<open>Queues under the abstract operations\<close>

lemma queue_add [view_simps]:
  "queue (spec_add os h price qty s) s' p' =
     queue os s' p' @ (if s' = s \<and> p' = price
       then [\<lparr>o_handle = h, o_side = s, o_price = price, o_qty = qty\<rparr>] else [])"
  by (simp add: queue_def spec_add_def)

lemma queue_set_qty [view_simps]:
  "queue (spec_set_qty os h qty) s p = spec_set_qty (queue os s p) h qty"
  by (induction os) (simp_all add: queue_def spec_set_qty_def)

lemma queue_cancel [view_simps]: "queue (spec_cancel os h) s p = spec_cancel (queue os s p) h"
  by (simp add: queue_def spec_cancel_def conj_commute)

lemma queue_sub: "set (queue os s p) \<subseteq> set os"
  by (auto simp: queue_def)

lemma queue_distinct: "distinct (map o_handle os) \<Longrightarrow> distinct (map o_handle (queue os s p))"
  by (simp add: queue_def distinct_map_filter)

lemma handles_set_qty [simp]: "map o_handle (spec_set_qty os h qty) = map o_handle os"
  by (simp add: spec_set_qty_def)

lemma handles_cancel: "map o_handle (spec_cancel os h) = filter (\<lambda>x. x \<noteq> h) (map o_handle os)"
  by (simp add: spec_cancel_def filter_map comp_def)

lemma spec_set_qty_other: "h \<notin> o_handle ` set q \<Longrightarrow> spec_set_qty q h qty = q"
  by (auto simp: spec_set_qty_def intro!: map_idI)

lemma spec_cancel_other: "h \<notin> o_handle ` set q \<Longrightarrow> spec_cancel q h = q"
  by (auto simp: spec_cancel_def intro!: filter_True)

lemma handle_unique:
  "distinct (map o_handle os) \<Longrightarrow> a \<in> set os \<Longrightarrow> b \<in> set os \<Longrightarrow> o_handle a = o_handle b \<Longrightarrow> a = b"
  by (metis distinct_map inj_on_def)

lemma total_set_qty:
  assumes "distinct (map o_handle q)" "ord \<in> set q"
  shows "total_qty (spec_set_qty q (o_handle ord) qty) = total_qty q + (qty - o_qty ord)"
  using assms
proof (induction q)
  case (Cons a q)
  show ?case
  proof (cases "a = ord")
    case True
    then have "spec_set_qty q (o_handle ord) qty = q" using Cons.prems by (intro spec_set_qty_other) auto
    then show ?thesis using True by (simp add: total_qty_def spec_set_qty_def)
  next
    case False
    then have "o_handle a \<noteq> o_handle ord" using Cons.prems by auto
    then show ?thesis using Cons False by (simp add: total_qty_def spec_set_qty_def)
  qed
qed simp

lemma cancel_split:
  assumes "distinct (map o_handle q)" "ord \<in> set q"
  obtains xs ys where "q = xs @ ord # ys" "spec_cancel q (o_handle ord) = xs @ ys"
proof -
  obtain xs ys where q: "q = xs @ ord # ys" using assms(2) by (metis split_list)
  have "spec_cancel xs (o_handle ord) = xs" "spec_cancel ys (o_handle ord) = ys"
    using assms(1) by (auto simp: q intro!: spec_cancel_other)
  then have "spec_cancel q (o_handle ord) = xs @ ys" by (simp add: q spec_cancel_def)
  then show ?thesis using q that by blast
qed

section \<open>Consequences of the relation\<close>

lemma levels_relD:
  assumes "levels_rel m v os"
  shows "distinct (map o_handle os)" "dom m = o_handle ` set os" "finite (dom m)"
    "ord \<in> set os \<Longrightarrow> node_for m ord" "ord \<in> set os \<Longrightarrow> px_ok (o_price ord)"
    "queue_rel m (v s p) (queue os s p)"
  using assms by (auto simp: levels_rel_def)

lemma levels_rel_no_empty: "levels_rel m v os \<Longrightarrow> no_empty (v s)"
  unfolding no_empty_def level_is_empty_def
proof (intro allI impI)
  fix p l assume "levels_rel m v os" "v s p = Some l"
  then show "lvl_count l \<noteq> 0"
    using levels_relD(6) [of m v os s p] by (auto simp: queue_rel_def level_rel_def)
qed

lemma levels_rel_live:
  assumes "levels_rel m v os" "m h = Some n"
  obtains ord where "ord \<in> set os" "o_handle ord = h" "node_price n = o_price ord"
    "node_side n = o_side ord" "node_qty n = o_qty ord" "v (o_side ord) (o_price ord) \<noteq> None"
    "ord \<in> set (queue os (o_side ord) (o_price ord))"
proof -
  obtain ord where ord: "ord \<in> set os" "o_handle ord = h"
    using assms levels_relD(2) [OF assms(1)] by (metis domI imageE)
  moreover have "ord \<in> set (queue os (o_side ord) (o_price ord))" using ord by (simp add: queue_def)
  moreover have "v (o_side ord) (o_price ord) \<noteq> None"
    using levels_relD(6) [OF assms(1), of "o_side ord" "o_price ord"] calculation(3)
    by (auto simp: queue_rel_def split: option.splits)
  ultimately show ?thesis
    using that levels_relD(4) [OF assms(1) ord(1)] assms(2) by (auto simp: node_for_def)
qed

text \<open>Queues of different sides or prices share no handle.\<close>

lemma queues_disjoint:
  assumes "distinct (map o_handle os)" "(s, p) \<noteq> (s', p')"
  shows "o_handle ` set (queue os s p) \<inter> o_handle ` set (queue os s' p') = {}"
proof (rule ccontr)
  assume "o_handle ` set (queue os s p) \<inter> o_handle ` set (queue os s' p') \<noteq> {}"
  then obtain a b where ab: "a \<in> set (queue os s p)" "b \<in> set (queue os s' p')" "o_handle a = o_handle b"
    by auto
  then have "a = b" using handle_unique [OF assms(1)] by (simp add: queue_def)
  then show False using ab assms(2) by (simp add: queue_def)
qed

lemma level_rel_frame:
  "level_rel m l q \<Longrightarrow> (\<And>ord. ord \<in> set q \<Longrightarrow> m' (o_handle ord) = m (o_handle ord)) \<Longrightarrow> level_rel m' l q"
  unfolding level_rel_def by (subst dseg_cong [of "map o_handle q" m' m]) auto

lemma queue_rel_frame:
  "queue_rel m lo q \<Longrightarrow> (\<And>ord. ord \<in> set q \<Longrightarrow> m' (o_handle ord) = m (o_handle ord)) \<Longrightarrow> queue_rel m' lo q"
  using level_rel_frame by (auto simp: queue_rel_def split: option.splits)

text \<open>The tail of a level is a live handle of its queue.\<close>

lemma tail_queue:
  assumes "levels_rel m v os" "l = or_default (v s p)" "lvl_tail l = Some z"
  shows "from_nz z \<in> o_handle ` set (queue os s p)" "z = to_nz (from_nz z)"
  using levels_relD(6) [OF assms(1), of s p] assms(2,3) last_in_set [of "queue os s p"]
    dseg_last [of m None "lvl_head l" "map o_handle (queue os s p)" None "lvl_tail l"]
  by (auto simp: queue_rel_def level_rel_def level_default_def last_map split: option.splits)

lemma tail_live:
  assumes "levels_rel m v os" "l = or_default (v s p)" "lvl_tail l = Some z"
  shows "m (from_nz z) \<noteq> None"
proof -
  have "from_nz z \<in> o_handle ` set os"
    using tail_queue(1) [OF assms] queue_sub [of os s p] by auto
  then show ?thesis using levels_relD(2) [OF assms(1)] by (metis domIff)
qed

section \<open>Adding\<close>

definition link_tail :: "(handle \<rightharpoonup> node) \<Rightarrow> nz option \<Rightarrow> handle \<Rightarrow> handle \<rightharpoonup> node" where
  "link_tail m t h = (case t of None \<Rightarrow> m
     | Some z \<Rightarrow> m(from_nz z := map_option (\<lambda>n. n\<lparr>node_next := Some (to_nz h)\<rparr>) (m (from_nz z))))"

definition level_push :: "level \<Rightarrow> handle \<Rightarrow> i64 \<Rightarrow> level" where
  "level_push l h qty =
     l\<lparr>lvl_head := (if lvl_tail l = None then Some (to_nz h) else lvl_head l),
       lvl_tail := Some (to_nz h), lvl_count := lvl_count l + 1,
       lvl_total_qty := i64_add (lvl_total_qty l) qty\<rparr>"

lemma level_rel_push:
  assumes rel: "queue_rel m lo q" and dist: "distinct (map o_handle q)" and fresh: "m h = None"
    and dom: "o_handle ` set q \<subseteq> dom m" and l: "l = or_default lo"
    and nh: "node_prev nh = lvl_tail l" "node_next nh = None" and hd: "o_handle ord = h"
  shows "level_rel ((link_tail m (lvl_tail l) h)(h \<mapsto> nh)) (level_push l h (o_qty ord)) (q @ [ord])"
proof (cases "q = []")
  case True
  then have "l = level_default" using rel l by (auto simp: queue_rel_def split: option.splits)
  then show ?thesis
    using True nh hd
    by (simp add: level_rel_def level_push_def level_default_def link_tail_def total_qty_def i64_add_def)
next
  case False
  then have lo: "lo = Some l" and lr: "level_rel m l q"
    using rel l by (auto simp: queue_rel_def split: option.splits)
  let ?hs = "map o_handle q"
  have seg: "dseg m None (lvl_head l) ?hs None (lvl_tail l)" using lr by (simp add: level_rel_def)
  have tail: "lvl_tail l = Some (to_nz (last ?hs))" using dseg_last [OF seg] False by simp
  have notin: "h \<notin> set ?hs" using dom fresh by auto
  have lastin: "last ?hs \<in> set ?hs" using False by (intro last_in_set) simp
  then obtain nl where nl: "m (last ?hs) = Some nl" using dom by fastforce
  have "last ?hs \<noteq> h" using lastin notin by metis
  then have "dseg ((link_tail m (lvl_tail l) h)(h \<mapsto> nh)) None (lvl_head l) (?hs @ [h]) None (Some (to_nz h))"
    using seg dist notin False nl nh
    by (intro dseg_snoc [where m = m and t = "lvl_tail l" and nl = nl and nh = nh])
       (auto simp: link_tail_def tail)
  then show ?thesis
    using lr hd by (simp add: level_rel_def level_push_def tail total_qty_def i64_add_def i64_arith)
qed

theorem levels_rel_add:
  assumes rel: "levels_rel m v os" and fresh: "m h = None" and px: "px_ok price"
    and l: "l = or_default (v s price)"
    and nh: "nh = (node_new price qty s)\<lparr>node_prev := lvl_tail l, node_next := None\<rparr>"
  shows "levels_rel ((link_tail m (lvl_tail l) h)(h \<mapsto> nh))
           (v(s := (v s)(price \<mapsto> level_push l h qty))) (spec_add os h price qty s)"
proof -
  let ?m = "(link_tail m (lvl_tail l) h)(h \<mapsto> nh)" and ?q = "queue os s price"
  let ?ord = "\<lparr>o_handle = h, o_side = s, o_price = price, o_qty = qty\<rparr>"
  note D = levels_relD [OF rel]
  have fresh': "h \<notin> o_handle ` set os" using fresh D(2) by auto
  have qdom: "o_handle ` set (queue os s' p') \<subseteq> dom m" for s' p'
    using D(2) queue_sub [of os s' p'] by auto
  have tail: "lvl_tail l = None \<or> (\<exists>t. lvl_tail l = Some (to_nz t) \<and> t \<in> o_handle ` set ?q)"
    using tail_queue [OF rel l] by (cases "lvl_tail l") auto
  have keep: "?m x = m x" if "x \<noteq> h" "x \<notin> o_handle ` set ?q" for x
    using that tail by (auto simp: link_tail_def)
  have attrs: "node_for ?m ord" if "ord \<in> set os" for ord
  proof -
    have "o_handle ord \<noteq> h" using fresh' that by auto
    then show ?thesis
      using D(4) [OF that] by (auto simp: node_for_def link_tail_def split: option.splits)
  qed
  have dom: "dom ?m = insert h (dom m)"
    by (auto simp: link_tail_def split: option.split)
  have "queue_rel ?m ((v(s := (v s)(price \<mapsto> level_push l h qty))) s' p')
          (queue (spec_add os h price qty s) s' p')" for s' p'
  proof (cases "(s', p') = (s, price)")
    case True
    have "level_rel ?m (level_push l h (o_qty ?ord)) (?q @ [?ord])"
      using D(6) [of s price] queue_distinct [OF D(1)] fresh qdom l nh
      by (intro level_rel_push) auto
    then show ?thesis using True by (simp add: queue_rel_def queue_add)
  next
    case False
    have "m (o_handle ord) = ?m (o_handle ord)" if "ord \<in> set (queue os s' p')" for ord
    proof -
      have "o_handle ord \<in> o_handle ` set os" using that queue_sub [of os s' p'] by auto
      then have "o_handle ord \<noteq> h" using fresh' by metis
      moreover have "o_handle ord \<notin> o_handle ` set ?q"
        using queues_disjoint [OF D(1) False] that by blast
      ultimately show ?thesis using keep by metis
    qed
    then have "queue_rel ?m (v s' p') (queue os s' p')"
      using queue_rel_frame [OF D(6) [of s' p']] by metis
    then show ?thesis using False by (auto simp: queue_add)
  qed
  then show ?thesis
    using D(1,2,5) dom fresh' attrs px unfolding levels_rel_def
    by (auto simp: spec_add_def node_for_def nh node_new_def)
qed

section \<open>Changing a quantity\<close>

definition level_adjust :: "level \<Rightarrow> i64 \<Rightarrow> i64 \<Rightarrow> level" where
  "level_adjust l new_qty old_qty = l\<lparr>lvl_total_qty := i64_add (lvl_total_qty l) (i64_sub new_qty old_qty)\<rparr>"

theorem levels_rel_set_qty:
  assumes rel: "levels_rel m v os" and h: "m h = Some n"
    and l: "v (node_side n) (node_price n) = Some l"
  shows "levels_rel (m(h \<mapsto> n\<lparr>node_qty := qty\<rparr>))
           (v(node_side n := (v (node_side n))(node_price n \<mapsto> level_adjust l qty (node_qty n))))
           (spec_set_qty os h qty)"
proof -
  let ?m = "m(h \<mapsto> n\<lparr>node_qty := qty\<rparr>)"
  note D = levels_relD [OF rel]
  obtain ord where ord: "ord \<in> set os" "o_handle ord = h" "node_price n = o_price ord"
      "node_side n = o_side ord" "node_qty n = o_qty ord" "ord \<in> set (queue os (o_side ord) (o_price ord))"
    using levels_rel_live [OF rel h] by metis
  have seg: "dseg ?m p c hs c' t" if "dseg m p c hs c' t" for p c hs c' t
    using that by (rule dseg_links [rotated]) (use h in auto)
  have "queue_rel ?m ((v(node_side n := (v (node_side n))(node_price n \<mapsto> level_adjust l qty (node_qty n)))) s p)
      (queue (spec_set_qty os h qty) s p)" for s p
  proof (cases "(s, p) = (node_side n, node_price n)")
    case True
    let ?q = "queue os s p"
    have q: "ord \<in> set ?q" and lr: "level_rel m l ?q"
      using True ord D(6) [of s p] l by (auto simp: queue_rel_def)
    have "total_qty (spec_set_qty ?q h qty) = total_qty ?q + (qty - o_qty ord)"
      using total_set_qty [OF queue_distinct [OF D(1)] q] ord(2) by simp
    then have "level_rel ?m (level_adjust l qty (node_qty n)) (spec_set_qty ?q h qty)"
      using lr seg ord(5)
      by (simp add: level_rel_def level_adjust_def i64_add_def i64_sub_def i64_arith) (simp add: spec_set_qty_def)
    moreover have "spec_set_qty ?q h qty \<noteq> []" using q by (auto simp: spec_set_qty_def)
    ultimately show ?thesis using True by (simp add: queue_rel_def queue_set_qty)
  next
    case False
    then have "(s, p) \<noteq> (o_side ord, o_price ord)" using ord by simp
    then have "h \<notin> o_handle ` set (queue os s p)"
      using queues_disjoint [OF D(1)] ord(2,6) by (metis disjoint_iff imageI)
    then have "spec_set_qty (queue os s p) h qty = queue os s p" by (rule spec_set_qty_other)
    moreover have "queue_rel ?m (v s p) (queue os s p)"
      using D(6) [of s p] seg by (auto simp: queue_rel_def level_rel_def split: option.splits)
    ultimately show ?thesis using False by (auto simp: queue_set_qty)
  qed
  moreover have "dom ?m = o_handle ` set (spec_set_qty os h qty)"
  proof -
    have "o_handle ` set (spec_set_qty os h qty) = o_handle ` set os"
      using handles_set_qty [of os h qty] by (metis list.set_map)
    then show ?thesis using D(2) h by auto
  qed
  moreover have "node_for ?m x \<and> px_ok (o_price x)" if x: "x \<in> set (spec_set_qty os h qty)" for x
  proof -
    obtain y where y: "y \<in> set os" "x = (if o_handle y = h then y\<lparr>o_qty := qty\<rparr> else y)"
      using x by (auto simp: spec_set_qty_def)
    show ?thesis using D(4) [OF y(1)] D(5) [OF y(1)] y(2) h by (auto simp: node_for_def)
  qed
  ultimately show ?thesis using D(1) unfolding levels_rel_def by (metis handles_set_qty)
qed

section \<open>Cancelling\<close>

definition unlink :: "(handle \<rightharpoonup> node) \<Rightarrow> handle \<Rightarrow> node \<Rightarrow> handle \<rightharpoonup> node" where
  "unlink m h n =
     (let m1 = (case node_prev n of None \<Rightarrow> m
          | Some z \<Rightarrow> m(from_nz z := map_option (\<lambda>k. k\<lparr>node_next := node_next n\<rparr>) (m (from_nz z))));
          m2 = (case node_next n of None \<Rightarrow> m1
          | Some z \<Rightarrow> m1(from_nz z := map_option (\<lambda>k. k\<lparr>node_prev := node_prev n\<rparr>) (m1 (from_nz z))))
      in m2(h := None))"

definition level_take :: "level \<Rightarrow> node \<Rightarrow> level" where
  "level_take l n =
     l\<lparr>lvl_head := (if node_prev n = None then node_next n else lvl_head l),
       lvl_tail := (if node_next n = None then node_prev n else lvl_tail l),
       lvl_count := lvl_count l - 1,
       lvl_total_qty := i64_sub (lvl_total_qty l) (node_qty n)\<rparr>"

lemma level_rel_unlink:
  assumes lr: "level_rel m l (xs @ ord # ys)" and dist: "distinct (map o_handle (xs @ ord # ys))"
    and h: "m (o_handle ord) = Some n" and qty: "node_qty n = o_qty ord"
  shows "level_rel (unlink m (o_handle ord) n) (level_take l n) (xs @ ys)"
    and "\<And>x. x \<notin> o_handle ` set (xs @ ord # ys) \<Longrightarrow> unlink m (o_handle ord) n x = m x"
proof -
  let ?xs = "map o_handle xs" and ?ys = "map o_handle ys" and ?h = "o_handle ord"
  have seg: "dseg m None (lvl_head l) (?xs @ ?h # ?ys) None (lvl_tail l)"
    using lr by (simp add: level_rel_def)
  note nb = dseg_neighbours [OF seg h]
  have un: "unlink m ?h n = (unlink_prev (unlink_next m ?xs (node_next n)) ?ys (node_prev n))(?h := None)"
    by (simp add: unlink_def unlink_next_def unlink_prev_def nb)
  have "dseg (unlink m ?h n) None (if ?xs = [] then node_next n else lvl_head l) (?xs @ ?ys) None
          (if ?ys = [] then node_prev n else lvl_tail l)"
    using seg dist h un by (intro dseg_unlink) auto
  moreover have "node_prev n = None \<longleftrightarrow> ?xs = []" "node_next n = None \<longleftrightarrow> ?ys = []"
    using nb by auto
  ultimately show "level_rel (unlink m ?h n) (level_take l n) (xs @ ys)"
    using lr qty by (simp add: level_rel_def level_take_def total_qty_def i64_sub_def i64_arith algebra_simps)
  show "unlink m ?h n x = m x" if "x \<notin> o_handle ` set (xs @ ord # ys)" for x
  proof -
    have x: "x \<noteq> ?h" "x \<notin> set ?xs" "x \<notin> set ?ys" using that by auto
    have "?xs \<noteq> [] \<Longrightarrow> x \<noteq> last ?xs" using last_in_set [of ?xs] x(2) by metis
    moreover have "?ys \<noteq> [] \<Longrightarrow> x \<noteq> hd ?ys" using hd_in_set [of ?ys] x(3) by metis
    ultimately show ?thesis using x(1) unfolding un unlink_next_def unlink_prev_def by simp
  qed
qed

lemma node_for_unlink: "node_for m x \<Longrightarrow> o_handle x \<noteq> h \<Longrightarrow> node_for (unlink m h n) x"
  by (auto simp: node_for_def unlink_def Let_def split: option.splits)

lemma dom_unlink: "dom (unlink m h n) = dom m - {h}"
  by (simp add: unlink_def Let_def del: dom_fun_upd split: option.split)
     (auto simp: dom_def split: if_splits)

theorem levels_rel_cancel:
  assumes rel: "levels_rel m v os" and h: "m h = Some n"
    and l: "v (node_side n) (node_price n) = Some l"
  shows "levels_rel (unlink m h n)
           (v(node_side n := (v (node_side n))(node_price n :=
                if lvl_count (level_take l n) = 0 then None else Some (level_take l n))))
           (spec_cancel os h)"
proof -
  let ?v = "v(node_side n := (v (node_side n))(node_price n :=
                if lvl_count (level_take l n) = 0 then None else Some (level_take l n)))"
  note D = levels_relD [OF rel]
  obtain ord where ord: "ord \<in> set os" "o_handle ord = h" "node_price n = o_price ord"
      "node_side n = o_side ord" "node_qty n = o_qty ord" "ord \<in> set (queue os (o_side ord) (o_price ord))"
    using levels_rel_live [OF rel h] by metis
  let ?q = "queue os (o_side ord) (o_price ord)"
  obtain xs ys where q: "?q = xs @ ord # ys" and can: "spec_cancel ?q h = xs @ ys"
    using cancel_split [OF queue_distinct [OF D(1)] ord(6)] ord(2) by metis
  have lr: "level_rel m l (xs @ ord # ys)"
    using D(6) [of "o_side ord" "o_price ord"] l ord(3,4) q by (simp add: queue_rel_def)
  have dist: "distinct (map o_handle (xs @ ord # ys))"
    using queue_distinct [OF D(1)] q by metis
  note U = level_rel_unlink [OF lr dist _ ord(5), of, unfolded ord(2), OF h]
  have "queue_rel (unlink m h n) (?v s p) (queue (spec_cancel os h) s p)" for s p
  proof (cases "(s, p) = (o_side ord, o_price ord)")
    case True
    have "lvl_count (level_take l n) = length (xs @ ys)" using U(1) by (simp add: level_rel_def)
    then show ?thesis
      using True U(1) can ord(3,4) by (auto simp: queue_rel_def queue_cancel)
  next
    case False
    have disj: "o_handle ` set (queue os s p) \<inter> o_handle ` set (xs @ ord # ys) = {}"
      using queues_disjoint [OF D(1) False] q by metis
    then have "h \<notin> o_handle ` set (queue os s p)" using ord(2) by auto
    then have "spec_cancel (queue os s p) h = queue os s p" by (rule spec_cancel_other)
    moreover have "unlink m h n (o_handle x) = m (o_handle x)" if "x \<in> set (queue os s p)" for x
      using U(2) disj that by blast
    then have "queue_rel (unlink m h n) (v s p) (queue os s p)"
      using queue_rel_frame [OF D(6)] by blast
    ultimately show ?thesis using False ord(3,4) by (auto simp: queue_cancel)
  qed
  moreover have "node_for (unlink m h n) x \<and> px_ok (o_price x)" if "x \<in> set (spec_cancel os h)" for x
    using that D(4,5) node_for_unlink by (auto simp: spec_cancel_def)
  moreover have "distinct (map o_handle (spec_cancel os h))"
    using D(1) by (simp add: handles_cancel)
  moreover have "dom (unlink m h n) = o_handle ` set (spec_cancel os h)"
    using D(2) by (auto simp: dom_unlink spec_cancel_def)
  ultimately show ?thesis unfolding levels_rel_def by blast
qed

end
