(* ===== verification/Instrument_Book.thy ===== *)
theory Instrument_Book
  imports Book_Spec
begin

text \<open>
  \<open>InstrumentBook\<close> of \<open>src/src/orderbook.rs\<close>: both sides' levels, the slab of order nodes and
  the cached best prices, with \<open>add\<close>, \<open>set_qty\<close>, \<open>cancel\<close>, \<open>bbo\<close> and \<open>top_n\<close>. Every
  slab index and every \<open>expect\<close> is a possible panic (\<open>None\<close>).

  \<open>book_rel b os\<close> is the refinement relation to the abstract book \<open>os\<close>. Each operation is shown
  not to panic and to simulate its abstract counterpart; \<open>add\<close> needs \<open>add_safe\<close>, and
  \<open>add_split_level\<close> shows that without it the book splits a price level in two.
\<close>

record ibook =
  bids_grid :: grid
  asks_grid :: grid
  bids_overflow :: "level btree"
  asks_overflow :: "level btree"
  ib_orders :: slab
  best_bid :: "i64 option"
  best_ask :: "i64 option"
  best_bid_qty :: i64
  best_ask_qty :: i64

definition with_params :: "i64 \<Rightarrow> nat \<Rightarrow> ibook" where
  "with_params tick span =
     \<lparr>bids_grid = grid_new tick span, asks_grid = grid_new tick span,
      bids_overflow = [], asks_overflow = [], ib_orders = slab_new,
      best_bid = None, best_ask = None, best_bid_qty = 0, best_ask_qty = 0\<rparr>"

text \<open>The two arms of \<open>match side\<close>.\<close>

fun side_grid :: "ibook \<Rightarrow> side \<Rightarrow> grid" where
  "side_grid b Bid = bids_grid b"
| "side_grid b Ask = asks_grid b"

fun side_ovf :: "ibook \<Rightarrow> side \<Rightarrow> level btree" where
  "side_ovf b Bid = bids_overflow b"
| "side_ovf b Ask = asks_overflow b"

fun set_side :: "ibook \<Rightarrow> side \<Rightarrow> grid \<Rightarrow> level btree \<Rightarrow> ibook" where
  "set_side b Bid g ovf = b\<lparr>bids_grid := g, bids_overflow := ovf\<rparr>"
| "set_side b Ask g ovf = b\<lparr>asks_grid := g, asks_overflow := ovf\<rparr>"

fun side_best :: "ibook \<Rightarrow> side \<Rightarrow> i64 option" where
  "side_best b Bid = best_bid b"
| "side_best b Ask = best_ask b"

fun side_best_qty :: "ibook \<Rightarrow> side \<Rightarrow> i64" where
  "side_best_qty b Bid = best_bid_qty b"
| "side_best_qty b Ask = best_ask_qty b"

fun set_best :: "ibook \<Rightarrow> side \<Rightarrow> i64 option \<Rightarrow> i64 \<Rightarrow> ibook" where
  "set_best b Bid p q = b\<lparr>best_bid := p, best_bid_qty := q\<rparr>"
| "set_best b Ask p q = b\<lparr>best_ask := p, best_ask_qty := q\<rparr>"

section \<open>Operations\<close>

definition ensure_level_mut :: "ibook \<Rightarrow> side \<Rightarrow> i64 \<Rightarrow> (ibook \<times> level_ref) option" where
  "ensure_level_mut b s price = do {
     (g, ovf, r) \<leftarrow> ensure_level_mut_in_grid (side_grid b s) (side_ovf b s) price;
     Some (set_side b s g ovf, r)
   }"

definition get_level_mut :: "ibook \<Rightarrow> side \<Rightarrow> i64 \<Rightarrow> level_ref option option" where
  "get_level_mut b s price = levels_get_mut (side_grid b s) (side_ovf b s) price"

definition get_level :: "ibook \<Rightarrow> side \<Rightarrow> i64 \<Rightarrow> level option option" where
  "get_level b s price = levels_get (side_grid b s) (side_ovf b s) price"

definition read_level :: "ibook \<Rightarrow> side \<Rightarrow> level_ref \<Rightarrow> level option" where
  "read_level b s r = read_ref (side_grid b s) (side_ovf b s) r"

definition write_level :: "ibook \<Rightarrow> side \<Rightarrow> level_ref \<Rightarrow> level \<Rightarrow> ibook" where
  "write_level b s r l = (case write_ref (side_grid b s) (side_ovf b s) r l of (g, ovf) \<Rightarrow> set_side b s g ovf)"

definition remove_level_if_empty :: "ibook \<Rightarrow> side \<Rightarrow> i64 \<Rightarrow> (ibook \<times> bool) option" where
  "remove_level_if_empty b s price = do {
     (g, ovf, removed) \<leftarrow> levels_remove_if_empty (side_grid b s) (side_ovf b s) price;
     Some (set_side b s g ovf, removed)
   }"

definition recompute_best_after_removal :: "ibook \<Rightarrow> side \<Rightarrow> ibook" where
  "recompute_best_after_removal b s =
     (case best_pick s (side_grid b s) (side_ovf b s) of
        Some (p, q) \<Rightarrow> set_best b s (Some p) q
      | None \<Rightarrow> set_best b s None 0)"

text \<open>The last step of \<open>add\<close>: the cached best price and quantity.\<close>

definition best_after_add :: "ibook \<Rightarrow> side \<Rightarrow> i64 \<Rightarrow> i64 \<Rightarrow> ibook" where
  "best_after_add b s price new_total =
     (if (case side_best b s of None \<Rightarrow> True | Some x \<Rightarrow> (case s of Bid \<Rightarrow> price > x | Ask \<Rightarrow> price < x))
      then set_best b s (Some price) new_total
      else if side_best b s = Some price then set_best b s (side_best b s) new_total
      else b)"

definition add :: "slab_alloc_fn \<Rightarrow> ibook \<Rightarrow> i64 \<Rightarrow> i64 \<Rightarrow> side \<Rightarrow> (handle \<times> ibook) option" where
  "add alloc b price qty s = do {
     let (h, sl) = slab_insert alloc (node_new price qty s) (ib_orders b);
     let b = b\<lparr>ib_orders := sl\<rparr>;
     (b, r) \<leftarrow> ensure_level_mut b s price;
     lvl \<leftarrow> read_level b s r;
     let prev_tail = lvl_tail lvl;
     let h_nz = to_nz h;
     sl \<leftarrow> (case prev_tail of
              Some t \<Rightarrow> slab_update (ib_orders b) (from_nz t) (\<lambda>n. n\<lparr>node_next := Some h_nz\<rparr>)
            | None \<Rightarrow> Some (ib_orders b));
     sl \<leftarrow> slab_update sl h (\<lambda>n. n\<lparr>node_prev := prev_tail, node_next := None\<rparr>);
     let b = b\<lparr>ib_orders := sl\<rparr>;
     (b, r) \<leftarrow> ensure_level_mut b s price;
     lvl \<leftarrow> read_level b s r;
     let lvl = lvl\<lparr>lvl_head := (if prev_tail = None then Some h_nz else lvl_head lvl),
                   lvl_tail := Some h_nz,
                   lvl_count := lvl_count lvl + 1,
                   lvl_total_qty := i64_add (lvl_total_qty lvl) qty\<rparr>;
     Some (h, best_after_add (write_level b s r lvl) s price (lvl_total_qty lvl))
   }"

definition set_qty :: "ibook \<Rightarrow> handle \<Rightarrow> i64 \<Rightarrow> ibook option" where
  "set_qty b h new_qty = do {
     n \<leftarrow> slab_index (ib_orders b) h;
     sl \<leftarrow> slab_update (ib_orders b) h (\<lambda>n. n\<lparr>node_qty := new_qty\<rparr>);
     let b = b\<lparr>ib_orders := sl\<rparr>;
     r \<leftarrow> get_level_mut b (node_side n) (node_price n);
     (case r of
        None \<Rightarrow> Some b
      | Some r \<Rightarrow> do {
          lvl \<leftarrow> read_level b (node_side n) r;
          let lvl = lvl\<lparr>lvl_total_qty := i64_add (lvl_total_qty lvl) (i64_sub new_qty (node_qty n))\<rparr>;
          let b = write_level b (node_side n) r lvl;
          Some (if side_best b (node_side n) = Some (node_price n)
                then set_best b (node_side n) (side_best b (node_side n)) (lvl_total_qty lvl) else b)
        })
   }"

definition cancel :: "ibook \<Rightarrow> handle \<Rightarrow> ibook option" where
  "cancel b h = do {
     n \<leftarrow> slab_index (ib_orders b) h;
     let s = node_side n;
     let price = node_price n;
     sl \<leftarrow> (case node_prev n of
              Some p \<Rightarrow> slab_update (ib_orders b) (from_nz p) (\<lambda>k. k\<lparr>node_next := node_next n\<rparr>)
            | None \<Rightarrow> Some (ib_orders b));
     sl \<leftarrow> (case node_next n of
              Some nh \<Rightarrow> slab_update sl (from_nz nh) (\<lambda>k. k\<lparr>node_prev := node_prev n\<rparr>)
            | None \<Rightarrow> Some sl);
     let b = b\<lparr>ib_orders := sl\<rparr>;
     let is_best = (side_best b s = Some price);
     r \<leftarrow> get_level_mut b s price;
     (b, remove_level, new_best_qty) \<leftarrow>
       (case r of
          None \<Rightarrow> Some (b, False, None)
        | Some r \<Rightarrow> do {
            lvl \<leftarrow> read_level b s r;
            let lvl = lvl\<lparr>lvl_head := (if node_prev n = None then node_next n else lvl_head lvl),
                          lvl_tail := (if node_next n = None then node_prev n else lvl_tail lvl),
                          lvl_count := lvl_count lvl - 1,
                          lvl_total_qty := i64_sub (lvl_total_qty lvl) (node_qty n)\<rparr>;
            let remove_level = level_is_empty lvl;
            Some (write_level b s r lvl, remove_level,
                  if is_best \<and> \<not> remove_level then Some (lvl_total_qty lvl) else None)
          });
     b \<leftarrow> (if remove_level then do {
              (b, removed) \<leftarrow> remove_level_if_empty b s price;
              Some (if is_best then recompute_best_after_removal b s else b)
            }
            else case new_best_qty of
              Some q \<Rightarrow> Some (if is_best then set_best b s (side_best b s) q else b)
            | None \<Rightarrow> Some b);
     sl \<leftarrow> slab_remove (ib_orders b) h;
     Some (b\<lparr>ib_orders := sl\<rparr>)
   }"

definition ib_bbo :: "ibook \<Rightarrow> (i64 \<times> i64) option \<times> (i64 \<times> i64) option" where
  "ib_bbo b = (map_option (\<lambda>p. (p, best_bid_qty b)) (best_bid b),
               map_option (\<lambda>p. (p, best_ask_qty b)) (best_ask b))"

section \<open>The refinement relation\<close>

definition bview :: "ibook \<Rightarrow> side \<Rightarrow> i64 \<rightharpoonup> level" where
  "bview b s = lview (side_grid b s) (side_ovf b s)"

abbreviation nodes :: "ibook \<Rightarrow> handle \<rightharpoonup> node" where
  "nodes b \<equiv> slab_entries (ib_orders b)"

definition sides_wf :: "ibook \<Rightarrow> bool" where
  "sides_wf b \<longleftrightarrow> (\<forall>s. side_wf (side_grid b s) (side_ovf b s))"

definition best_rel :: "(i64 \<rightharpoonup> level) \<Rightarrow> side \<Rightarrow> i64 option \<Rightarrow> i64 \<Rightarrow> bool" where
  "best_rel v s best q \<longleftrightarrow>
     is_best (better s) v best \<and>
     q = (case best of None \<Rightarrow> 0 | Some p \<Rightarrow> (case v p of None \<Rightarrow> 0 | Some l \<Rightarrow> lvl_total_qty l))"

definition book_rel :: "ibook \<Rightarrow> abook \<Rightarrow> bool" where
  "book_rel b os \<longleftrightarrow>
     levels_rel (nodes b) (bview b) os \<and> sides_wf b \<and>
     (\<forall>s. best_rel (bview b s) s (side_best b s) (side_best_qty b s))"

text \<open>When \<open>add\<close> finds the level of its price: the exact condition (see \<open>Side_Levels\<close>).\<close>

definition book_add_safe :: "ibook \<Rightarrow> side \<Rightarrow> i64 \<Rightarrow> bool" where
  "book_add_safe b s p \<longleftrightarrow> add_safe (side_grid b s) (side_ovf b s) p"

lemma side_grid_set [simp]: "side_grid (set_side b s g ovf) s' = (if s' = s then g else side_grid b s')"
  by (cases s; cases s') simp_all

lemma side_ovf_set [simp]: "side_ovf (set_side b s g ovf) s' = (if s' = s then ovf else side_ovf b s')"
  by (cases s; cases s') simp_all

lemma set_side_frame [simp]:
  "ib_orders (set_side b s g ovf) = ib_orders b"
  "side_best (set_side b s g ovf) s' = side_best b s'"
  "side_best_qty (set_side b s g ovf) s' = side_best_qty b s'"
  by (cases s; cases s'; simp)+

lemma set_best_frame [simp]:
  "ib_orders (set_best b s p q) = ib_orders b"
  "side_grid (set_best b s p q) s' = side_grid b s'"
  "side_ovf (set_best b s p q) s' = side_ovf b s'"
  "side_best (set_best b s p q) s' = (if s' = s then p else side_best b s')"
  "side_best_qty (set_best b s p q) s' = (if s' = s then q else side_best_qty b s')"
  by (cases s; cases s'; simp)+

lemma orders_frame [simp]:
  "side_grid (b\<lparr>ib_orders := x\<rparr>) s = side_grid b s"
  "side_ovf (b\<lparr>ib_orders := x\<rparr>) s = side_ovf b s"
  "side_best (b\<lparr>ib_orders := x\<rparr>) s = side_best b s"
  "side_best_qty (b\<lparr>ib_orders := x\<rparr>) s = side_best_qty b s"
  by (cases s; simp)+

lemma bview_frame [simp]:
  "bview (set_best b s p q) = bview b"
  "bview (b\<lparr>ib_orders := x\<rparr>) = bview b"
  "sides_wf (set_best b s p q) = sides_wf b"
  "sides_wf (b\<lparr>ib_orders := x\<rparr>) = sides_wf b"
  by (simp_all add: bview_def fun_eq_iff sides_wf_def)

lemma bview_set_side: "bview (set_side b s g ovf) = (bview b)(s := lview g ovf)"
  by (simp add: bview_def fun_eq_iff)

lemma sides_wf_set_side: "sides_wf b \<Longrightarrow> side_wf g ovf \<Longrightarrow> sides_wf (set_side b s g ovf)"
  by (simp add: sides_wf_def)

lemma best_rel_better: "(case s of Bid \<Rightarrow> price > x | Ask \<Rightarrow> price < x) = better s price x"
  by (simp add: better_def)

text \<open>The fresh book is related to the empty list of orders.\<close>

lemma grid_new_wf:
  "0 < tick \<Longrightarrow> 0 < span \<Longrightarrow> tick * (int span + 1) < 2 ^ 62 \<Longrightarrow> grid_wf (grid_new tick span)"
  by (simp add: grid_wf_def grid_new_def)

lemma with_params_rel:
  assumes "0 < tick" "0 < span" "tick * (int span + 1) < 2 ^ 62"
  shows "book_rel (with_params tick span) []"
proof -
  have gv: "gview (grid_new tick span) = Map.empty"
    by (simp add: gview_def grid_new_def in_window_def fun_eq_iff)
  then have v: "bview (with_params tick span) s = Map.empty" for s
    by (cases s) (simp_all add: bview_def with_params_def lview_def fun_eq_iff)
  have "sides_wf (with_params tick span)"
    unfolding sides_wf_def
  proof
    fix s show "side_wf (side_grid (with_params tick span) s) (side_ovf (with_params tick span) s)"
      using grid_new_wf [OF assms] gv by (cases s) (simp_all add: with_params_def side_wf_def)
  qed
  moreover have "best_rel Map.empty s (side_best (with_params tick span) s) (side_best_qty (with_params tick span) s)" for s
    by (cases s) (simp_all add: best_rel_def with_params_def)
  moreover have "nodes (with_params tick span) = Map.empty"
    by (simp add: with_params_def slab_new_def)
  ultimately show ?thesis
    by (simp add: book_rel_def v levels_rel_def queue_rel_def queue_def)
qed

section \<open>Adding an order\<close>

lemma book_relD:
  assumes "book_rel b os"
  shows "levels_rel (nodes b) (bview b) os" "sides_wf b" "side_wf (side_grid b s) (side_ovf b s)"
    "best_rel (bview b s) s (side_best b s) (side_best_qty b s)" "no_empty (bview b s)"
  using assms levels_rel_no_empty by (auto simp: book_rel_def sides_wf_def)

lemma slab_update_opt:
  assumes "\<And>z. t = Some z \<Longrightarrow> slab_entries sl (from_nz z) \<noteq> None"
  shows "\<exists>sl'. (case t of Some z \<Rightarrow> slab_update sl (from_nz z) f | None \<Rightarrow> Some sl) = Some sl' \<and>
    slab_entries sl' = (case t of None \<Rightarrow> slab_entries sl
       | Some z \<Rightarrow> (slab_entries sl)(from_nz z := map_option f (slab_entries sl (from_nz z))))"
proof (cases t)
  case (Some z)
  then obtain n where "slab_entries sl (from_nz z) = Some n" using assms by auto
  then show ?thesis using Some by (auto simp: slab_update_def)
qed simp

lemma slab_link:
  assumes "slab_entries sl = m(h \<mapsto> n)" "m h = None" "\<And>z. t = Some z \<Longrightarrow> m (from_nz z) \<noteq> None"
  shows "\<exists>sl1 sl2. (case t of Some z \<Rightarrow> slab_update sl (from_nz z) (\<lambda>n. n\<lparr>node_next := Some (to_nz h)\<rparr>)
            | None \<Rightarrow> Some sl) = Some sl1 \<and>
          slab_update sl1 h (\<lambda>n. n\<lparr>node_prev := t, node_next := None\<rparr>) = Some sl2 \<and>
          slab_entries sl2 = (link_tail m t h)(h \<mapsto> n\<lparr>node_prev := t, node_next := None\<rparr>)"
proof (cases t)
  case None
  then show ?thesis using assms by (simp add: slab_update_def link_tail_def)
next
  case (Some z)
  then obtain k where k: "m (from_nz z) = Some k" using assms(3) by auto
  then have "from_nz z \<noteq> h" using assms(2) by auto
  then show ?thesis using assms(1) k Some by (auto simp: slab_update_def link_tail_def fun_eq_iff)
qed

lemma best_rel_add:
  assumes "best_rel v s (side_best b s) (side_best_qty b s)"
  shows "best_rel (v(p \<mapsto> l)) s (side_best (best_after_add b s p (lvl_total_qty l)) s)
           (side_best_qty (best_after_add b s p (lvl_total_qty l)) s)"
proof -
  let ?n = "case side_best b s of None \<Rightarrow> Some p | Some q \<Rightarrow> if better s p q then Some p else side_best b s"
  have "is_best (better s) (v(p \<mapsto> l)) ?n"
    using ranking.best_insert [of s v "side_best b s"] assms by (simp add: best_rel_def)
  moreover have "side_best (best_after_add b s p (lvl_total_qty l)) s = ?n"
    by (simp add: best_after_add_def best_rel_better split: option.split)
  moreover have "side_best_qty (best_after_add b s p (lvl_total_qty l)) s =
      (case ?n of None \<Rightarrow> 0 | Some q \<Rightarrow> (case (v(p \<mapsto> l)) q of None \<Rightarrow> 0 | Some l \<Rightarrow> lvl_total_qty l))"
    using assms
    by (auto simp: best_after_add_def best_rel_better best_rel_def split: option.split)
  ultimately show ?thesis by (simp add: best_rel_def)
qed

lemma best_after_add_frame [simp]:
  "ib_orders (best_after_add b s p t) = ib_orders b"
  "bview (best_after_add b s p t) = bview b"
  "sides_wf (best_after_add b s p t) = sides_wf b"
  "s' \<noteq> s \<Longrightarrow> side_best (best_after_add b s p t) s' = side_best b s'"
  "s' \<noteq> s \<Longrightarrow> side_best_qty (best_after_add b s p t) s' = side_best_qty b s'"
  by (simp_all add: best_after_add_def)

theorem add_refines:
  assumes alloc: "slab_alloc alloc" and rel: "book_rel b os" and px: "px_ok price"
    and safe: "book_add_safe b s price"
  shows "\<exists>h b'. add alloc b price qty s = Some (h, b') \<and> nodes b h = None \<and>
           book_rel b' (spec_add os h price qty s)"
proof -
  note R = book_relD [OF rel]
  define h where "h = alloc (ib_orders b)"
  define l where "l = or_default (bview b s price)"
  define nd where "nd = (node_new price qty s)\<lparr>node_prev := lvl_tail l, node_next := None\<rparr>"
  have fresh: "nodes b h = None"
    using alloc levels_relD(3) [OF R(1)] by (simp add: slab_alloc_def h_def)
  obtain sl where ins: "slab_insert alloc (node_new price qty s) (ib_orders b) = (h, sl)"
      "slab_entries sl = (nodes b)(h \<mapsto> node_new price qty s)"
    by (simp add: slab_insert_def h_def)
  obtain g ovf r where E: "ensure_level_mut_in_grid (side_grid b s) (side_ovf b s) price = Some (g, ovf, r)"
      "side_wf g ovf" "grid_tick g = grid_tick (side_grid b s)"
      "lview g ovf = (bview b s)(price \<mapsto> l)" "ref_at g ovf r price"
      "\<forall>q. r = InOverflow q \<longrightarrow> \<not> grid_tick (side_grid b s) dvd price"
    using ensure_level_law [OF R(3) _ px] R(5) safe by (metis book_add_safe_def bview_def l_def)
  have again: "ensure_level_mut_in_grid g ovf price = Some (g, ovf, r)"
    using ensure_again [OF E(2) px E(5)] E(3,6) by simp
  have rd: "read_ref g ovf r = Some l" using read_ref_at(1) [OF E(2,5)] E(4) by simp
  obtain sl1 sl2 where L:
      "(case lvl_tail l of Some z \<Rightarrow> slab_update sl (from_nz z) (\<lambda>n. n\<lparr>node_next := Some (to_nz h)\<rparr>)
         | None \<Rightarrow> Some sl) = Some sl1"
      "slab_update sl1 h (\<lambda>n. n\<lparr>node_prev := lvl_tail l, node_next := None\<rparr>) = Some sl2"
      "slab_entries sl2 = (link_tail (nodes b) (lvl_tail l) h)(h \<mapsto> nd)"
    using slab_link [OF ins(2) fresh, of "lvl_tail l"] tail_live [OF R(1) l_def]
    by (auto simp: nd_def)
  obtain g2 ovf2 where W: "write_ref g ovf r (level_push l h qty) = (g2, ovf2)" by fastforce
  note W' = write_ref_at [OF E(2,5) W]
  define b2 where "b2 = set_side (b\<lparr>ib_orders := sl2\<rparr>) s g2 ovf2"
  have collapse: "set_side (b\<lparr>ib_orders := x, ib_orders := y\<rparr>) s g ovf = set_side (b\<lparr>ib_orders := y\<rparr>) s g ovf"
    "(set_side c s g ovf)\<lparr>ib_orders := y\<rparr> = set_side (c\<lparr>ib_orders := y\<rparr>) s g ovf"
    "set_side (set_side c s g ovf) s g' ovf' = set_side c s g' ovf'" for x y c g ovf g' ovf'
    by (cases s; simp)+
  have "add alloc b price qty s = Some (h, best_after_add b2 s price (lvl_total_qty (level_push l h qty)))"
    by (simp add: add_def Let_def ins(1) ensure_level_mut_def read_level_def write_level_def E(1) again rd L(1,2)
        b2_def collapse level_push_def W [unfolded level_push_def Suc_eq_plus1 [symmetric]]
        cong: option.case_cong)
  moreover have view: "bview b2 = (bview b)(s := (bview b s)(price \<mapsto> level_push l h qty))"
    using W'(2) E(4) by (simp add: b2_def bview_set_side)
  moreover have nodes2: "ib_orders b2 = sl2" and best2: "side_best b2 = side_best b" "side_best_qty b2 = side_best_qty b"
    by (simp_all add: b2_def fun_eq_iff)
  moreover have "levels_rel (nodes b2) (bview b2) (spec_add os h price qty s)"
    using levels_rel_add [OF R(1) fresh px l_def nd_def] L(3) nodes2 by (simp add: view)
  moreover have "sides_wf b2" using R(2) W'(1) by (simp add: b2_def sides_wf_set_side)
  moreover have "best_rel (bview b2 s') s'
      (side_best (best_after_add b2 s price (lvl_total_qty (level_push l h qty))) s')
      (side_best_qty (best_after_add b2 s price (lvl_total_qty (level_push l h qty))) s')" for s'
    using best_rel_add [of "bview b s" s b2 price "level_push l h qty"] R(4) [of s] R(4) [of s']
    by (cases "s' = s") (simp_all add: view best2)
  ultimately show ?thesis using fresh by (auto simp: book_rel_def)
qed

section \<open>Changing a quantity\<close>

lemma best_rel_replace:
  assumes "best_rel v s best q" "v p \<noteq> None"
  shows "best_rel (v(p \<mapsto> l)) s best (if best = Some p then lvl_total_qty l else q)"
  using ranking.best_replace [of s v best p l] assms
  by (auto simp: best_rel_def split: option.split)

text \<open>The level of a live node is found and can be written through the reference.\<close>

lemma live_level:
  assumes rel: "levels_rel m (bview b) os" and wf: "sides_wf b" and n: "m h = Some n"
  obtains r l where "get_level_mut b (node_side n) (node_price n) = Some (Some r)"
    "read_level b (node_side n) r = Some l" "bview b (node_side n) (node_price n) = Some l"
    "\<And>l'. sides_wf (write_level b (node_side n) r l')"
    "\<And>l'. bview (write_level b (node_side n) r l') =
        (bview b)(node_side n := (bview b (node_side n))(node_price n \<mapsto> l'))"
proof -
  let ?s = "node_side n" and ?p = "node_price n"
  let ?g = "side_grid b ?s" and ?o = "side_ovf b ?s"
  obtain ord where ord: "ord \<in> set os" "?p = o_price ord" "?s = o_side ord" "bview b ?s ?p \<noteq> None"
    using levels_rel_live [OF rel n] by metis
  then obtain l where l: "lview ?g ?o ?p = Some l" by (auto simp: bview_def)
  have px: "px_ok ?p" using levels_relD(5) [OF rel ord(1)] ord(2) by simp
  have sw: "side_wf ?g ?o" using wf by (simp add: sides_wf_def)
  obtain r where r: "levels_get_mut ?g ?o ?p = Some (Some r)" "ref_at ?g ?o r ?p"
    using levels_get_mut_eq [OF sw px] l by auto
  have "sides_wf (write_level b ?s r l') \<and>
      bview (write_level b ?s r l') = (bview b)(?s := (bview b ?s)(?p \<mapsto> l'))" for l'
  proof -
    obtain g' o' where w: "write_ref ?g ?o r l' = (g', o')" by fastforce
    show ?thesis
      using write_ref_at(1,2) [OF sw r(2) w] wf
      by (simp add: write_level_def w bview_set_side sides_wf_set_side) (simp add: bview_def)
  qed
  then show ?thesis
    using that [of r l] r l read_ref_at(1) [OF sw r(2)]
    by (simp add: get_level_mut_def read_level_def bview_def)
qed

lemma write_level_frame [simp]:
  "ib_orders (write_level b s r l) = ib_orders b"
  "side_best (write_level b s r l) s' = side_best b s'"
  "side_best_qty (write_level b s r l) s' = side_best_qty b s'"
  by (simp_all add: write_level_def split: prod.split)

lemma read_level_frame [simp]:
  "read_level (b\<lparr>ib_orders := x\<rparr>) s r = read_level b s r"
  "get_level_mut (b\<lparr>ib_orders := x\<rparr>) s p = get_level_mut b s p"
  by (simp_all add: read_level_def get_level_mut_def)

theorem set_qty_refines:
  assumes rel: "book_rel b os" and h: "nodes b h = Some n"
  shows "\<exists>b'. set_qty b h qty = Some b' \<and> book_rel b' (spec_set_qty os h qty)"
proof -
  note R = book_relD [OF rel]
  let ?s = "node_side n" and ?p = "node_price n"
  define sl where "sl = (ib_orders b)\<lparr>slab_entries := (nodes b)(h \<mapsto> n\<lparr>node_qty := qty\<rparr>)\<rparr>"
  define b1 where "b1 = b\<lparr>ib_orders := sl\<rparr>"
  have b1: "bview b1 = bview b" "sides_wf b1" "ib_orders b1 = sl" "side_best b1 = side_best b"
      "side_best_qty b1 = side_best_qty b"
    using R(2) by (simp_all add: b1_def fun_eq_iff)
  obtain r l where L: "get_level_mut b1 ?s ?p = Some (Some r)" "read_level b1 ?s r = Some l"
      "bview b ?s ?p = Some l" "\<And>l'. sides_wf (write_level b1 ?s r l')"
      "\<And>l'. bview (write_level b1 ?s r l') = (bview b)(?s := (bview b ?s)(?p \<mapsto> l'))"
    using live_level [of "nodes b" b1 os h n] R(1) b1(1,2) h by metis
  define l' where "l' = level_adjust l qty (node_qty n)"
  define b2 where "b2 = write_level b1 ?s r l'"
  define b3 where "b3 = (if side_best b ?s = Some ?p then set_best b2 ?s (side_best b ?s) (lvl_total_qty l') else b2)"
  have up: "slab_update (ib_orders b) h (\<lambda>n. n\<lparr>node_qty := qty\<rparr>) = Some sl"
    using h by (simp add: slab_update_def sl_def)
  have "set_qty b h qty = Some b3"
    using h up L(1,2)
    by (simp add: set_qty_def slab_index_def Let_def b3_def b2_def b1_def l'_def level_adjust_def)
  moreover have view: "bview b3 = (bview b)(?s := (bview b ?s)(?p \<mapsto> l'))" and "sides_wf b3"
      and n3: "nodes b3 = (nodes b)(h \<mapsto> n\<lparr>node_qty := qty\<rparr>)"
    using L(4,5) b1(3) by (simp_all add: b3_def b2_def sl_def)
  moreover have "levels_rel (nodes b3) (bview b3) (spec_set_qty os h qty)"
    using levels_rel_set_qty [OF R(1) h L(3)] by (simp add: view n3 l'_def)
  moreover have "best_rel (bview b3 s) s (side_best b3 s) (side_best_qty b3 s)" for s
    using best_rel_replace [OF R(4) [of ?s], of ?p l'] R(4) [of s] L(3) b1(4,5)
    by (cases "s = ?s") (auto simp: b3_def b2_def L(5))
  ultimately show ?thesis by (auto simp: book_rel_def)
qed

section \<open>Cancelling\<close>

lemma slab_unlink:
  assumes m: "slab_entries sl = m" and h: "m h = Some n"
    and prev: "\<And>z. node_prev n = Some z \<Longrightarrow> m (from_nz z) \<noteq> None \<and> from_nz z \<noteq> h"
    and "next": "\<And>z. node_next n = Some z \<Longrightarrow> m (from_nz z) \<noteq> None \<and> from_nz z \<noteq> h"
  obtains sl1 sl2 sl3 where
    "(case node_prev n of Some p \<Rightarrow> slab_update sl (from_nz p) (\<lambda>k. k\<lparr>node_next := node_next n\<rparr>)
       | None \<Rightarrow> Some sl) = Some sl1"
    "(case node_next n of Some nh \<Rightarrow> slab_update sl1 (from_nz nh) (\<lambda>k. k\<lparr>node_prev := node_prev n\<rparr>)
       | None \<Rightarrow> Some sl1) = Some sl2"
    "slab_remove sl2 h = Some sl3" "slab_entries sl3 = unlink m h n"
proof -
  let ?m1 = "case node_prev n of None \<Rightarrow> m
    | Some z \<Rightarrow> m(from_nz z := map_option (\<lambda>k. k\<lparr>node_next := node_next n\<rparr>) (m (from_nz z)))"
  let ?m2 = "case node_next n of None \<Rightarrow> ?m1
    | Some z \<Rightarrow> ?m1(from_nz z := map_option (\<lambda>k. k\<lparr>node_prev := node_prev n\<rparr>) (?m1 (from_nz z)))"
  have d1: "dom ?m1 = dom m" by (simp del: dom_fun_upd split: option.split)
  have h1: "?m1 h = Some n" using h prev by (auto split: option.split)
  have h2: "?m2 h = Some n" using h1 "next" by (auto split: option.split)
  obtain sl1 where 1: "(case node_prev n of Some p \<Rightarrow> slab_update sl (from_nz p) (\<lambda>k. k\<lparr>node_next := node_next n\<rparr>)
       | None \<Rightarrow> Some sl) = Some sl1" "slab_entries sl1 = ?m1"
    using slab_update_opt [of "node_prev n" sl "\<lambda>k. k\<lparr>node_next := node_next n\<rparr>", unfolded m] prev by blast
  have "node_next n = Some z \<Longrightarrow> slab_entries sl1 (from_nz z) \<noteq> None" for z
    using "next" [of z] d1 1(2) by (metis domIff)
  then obtain sl2 where 2: "(case node_next n of Some nh \<Rightarrow> slab_update sl1 (from_nz nh) (\<lambda>k. k\<lparr>node_prev := node_prev n\<rparr>)
       | None \<Rightarrow> Some sl1) = Some sl2" "slab_entries sl2 = ?m2"
    using slab_update_opt [of "node_next n" sl1 "\<lambda>k. k\<lparr>node_prev := node_prev n\<rparr>"] unfolding 1(2) by blast
  have "slab_remove sl2 h = Some (sl2\<lparr>slab_entries := ?m2(h := None)\<rparr>)"
    using h2 2(2) by (simp add: slab_remove_def)
  then show ?thesis using that [OF 1(1) 2(1)] by (simp add: unlink_def Let_def)
qed

lemma live_links:
  assumes rel: "levels_rel m v os" and n: "m h = Some n"
  shows "node_prev n = Some z \<Longrightarrow> m (from_nz z) \<noteq> None \<and> from_nz z \<noteq> h"
    and "node_next n = Some z \<Longrightarrow> m (from_nz z) \<noteq> None \<and> from_nz z \<noteq> h"
proof -
  note D = levels_relD [OF rel]
  obtain ord where ord: "o_handle ord = h" "v (o_side ord) (o_price ord) \<noteq> None"
      "ord \<in> set (queue os (o_side ord) (o_price ord))"
    using levels_rel_live [OF rel n] by metis
  let ?q = "queue os (o_side ord) (o_price ord)"
  obtain xs ys where q: "?q = xs @ ord # ys" using ord(3) by (metis split_list)
  obtain l where "level_rel m l ?q"
    using D(6) [of "o_side ord" "o_price ord"] ord(2) by (auto simp: queue_rel_def split: option.splits)
  then have seg: "dseg m None (lvl_head l) (map o_handle xs @ h # map o_handle ys) None (lvl_tail l)"
    using ord(1) by (simp add: level_rel_def q)
  have dist: "distinct (map o_handle xs @ h # map o_handle ys)"
    using queue_distinct [OF D(1), of "o_side ord" "o_price ord"] ord(1) by (simp add: q)
  note nb = dseg_neighbours [OF seg n] and dom = dseg_dom [OF seg]
  show "node_prev n = Some z \<Longrightarrow> m (from_nz z) \<noteq> None \<and> from_nz z \<noteq> h"
    using nb(1) dom dist last_in_set [of "map o_handle xs"] by (auto split: if_splits)
  show "node_next n = Some z \<Longrightarrow> m (from_nz z) \<noteq> None \<and> from_nz z \<noteq> h"
    using nb(2) dom dist hd_in_set [of "map o_handle ys"] by (auto split: if_splits)
qed

lemma remove_level_law:
  assumes wf: "sides_wf b" and px: "px_ok p" and l: "bview b s p = Some l" "level_is_empty l"
  obtains b' removed where "remove_level_if_empty b s p = Some (b', removed)" "sides_wf b'"
    "bview b' = (bview b)(s := (bview b s)(p := None))" "ib_orders b' = ib_orders b"
    "side_best b' = side_best b" "side_best_qty b' = side_best_qty b"
proof -
  have sw: "side_wf (side_grid b s) (side_ovf b s)" using wf by (simp add: sides_wf_def)
  obtain g o' c where g: "levels_remove_if_empty (side_grid b s) (side_ovf b s) p = Some (g, o', c)"
      "side_wf g o'" "lview g o' = (bview b s)(p := None)"
    using levels_remove_if_empty_eq [OF sw px] l by (auto simp: bview_def)
  then show ?thesis
    using that [of "set_side b s g o'" c] wf
    by (simp add: remove_level_if_empty_def sides_wf_set_side bview_set_side fun_eq_iff)
qed

lemma recompute_best_law:
  assumes "sides_wf b" "no_empty (bview b s)"
  shows "best_rel (bview b s) s (side_best (recompute_best_after_removal b s) s)
           (side_best_qty (recompute_best_after_removal b s) s)"
proof -
  have sw: "side_wf (side_grid b s) (side_ovf b s)" using assms(1) by (simp add: sides_wf_def)
  note P = best_pick_law [OF sw assms(2) [unfolded bview_def], of s]
  show ?thesis
  proof (cases "best_pick s (side_grid b s) (side_ovf b s)")
    case None
    then show ?thesis using P(1) by (simp add: recompute_best_after_removal_def best_rel_def bview_def)
  next
    case (Some c)
    obtain p q where "c = (p, q)" by fastforce
    then show ?thesis
      using P(1) P(2) [of p q] Some
      by (auto simp: recompute_best_after_removal_def best_rel_def bview_def simp del: not_None_eq)
  qed
qed

lemma recompute_frame [simp]:
  "ib_orders (recompute_best_after_removal b s) = ib_orders b"
  "bview (recompute_best_after_removal b s) = bview b"
  "sides_wf (recompute_best_after_removal b s) = sides_wf b"
  "s' \<noteq> s \<Longrightarrow> side_best (recompute_best_after_removal b s) s' = side_best b s'"
  "s' \<noteq> s \<Longrightarrow> side_best_qty (recompute_best_after_removal b s) s' = side_best_qty b s'"
  by (simp_all add: recompute_best_after_removal_def split: option.split prod.split)

lemma best_rel_remove:
  assumes "best_rel v s best q" "best \<noteq> Some p"
  shows "best_rel (v(p := None)) s best q"
  using ranking.best_remove_other [of s v best p] assms
  by (auto simp: best_rel_def split: option.split)

text \<open>
  What \<open>cancel\<close> does to the levels once the order is unlinked, as one step: the level loses the
  order and disappears when it was the last one.
\<close>

definition cancel_levels :: "ibook \<Rightarrow> node \<Rightarrow> level_ref \<Rightarrow> level \<Rightarrow> ibook option" where
  "cancel_levels b n r l =
     (let s = node_side n; p = node_price n; b' = write_level b s r l in
      if level_is_empty l
      then map_option (\<lambda>(c, _). if side_best b s = Some p then recompute_best_after_removal c s else c)
             (remove_level_if_empty b' s p)
      else Some (if side_best b s = Some p then set_best b' s (side_best b s) (lvl_total_qty l) else b'))"

lemma cancel_levels_law:
  assumes rel: "levels_rel m (bview b) os" and wf: "sides_wf b" and n: "m h = Some n"
    and best: "\<And>s. best_rel (bview b s) s (side_best b s) (side_best_qty b s)"
    and r: "get_level_mut b (node_side n) (node_price n) = Some (Some r)"
    and l: "bview b (node_side n) (node_price n) = Some l"
  obtains b' where "cancel_levels b n r (level_take l n) = Some b'" "ib_orders b' = ib_orders b"
    "sides_wf b'" "levels_rel (unlink m h n) (bview b') (spec_cancel os h)"
    "\<And>s. best_rel (bview b' s) s (side_best b' s) (side_best_qty b' s)"
proof -
  let ?s = "node_side n" and ?p = "node_price n" and ?l = "level_take l n"
  have px: "px_ok ?p" using levels_rel_live [OF rel n] levels_relD(5) [OF rel] by metis
  define b1 where "b1 = write_level b ?s r ?l"
  have v1: "bview b1 = (bview b)(?s := (bview b ?s)(?p \<mapsto> ?l))" and w1: "sides_wf b1"
    using live_level [OF rel wf n] r unfolding b1_def by (metis option.inject)+
  have f1: "ib_orders b1 = ib_orders b" "side_best b1 = side_best b" "side_best_qty b1 = side_best_qty b"
    by (simp_all add: b1_def fun_eq_iff)
  note L = levels_rel_cancel [OF rel n l]
  show ?thesis
  proof (cases "level_is_empty ?l")
    case True
    then have L0: "levels_rel (unlink m h n) ((bview b)(?s := (bview b ?s)(?p := None))) (spec_cancel os h)"
      using L by (simp add: level_is_empty_def)
    obtain c x where c: "remove_level_if_empty b1 ?s ?p = Some (c, x)" "sides_wf c"
        "bview c = (bview b1)(?s := (bview b1 ?s)(?p := None))" "ib_orders c = ib_orders b1"
        "side_best c = side_best b1" "side_best_qty c = side_best_qty b1"
      by (rule remove_level_law [OF w1 px _ True, of ?s]) (simp_all add: v1)
    have vc: "bview c = (bview b)(?s := (bview b ?s)(?p := None))" using c(3) v1 by simp
    define b' where "b' = (if side_best b ?s = Some ?p then recompute_best_after_removal c ?s else c)"
    have "no_empty (bview c ?s)" using levels_rel_no_empty [OF L0] vc by metis
    then have "best_rel (bview b' s) s (side_best b' s) (side_best_qty b' s)" for s
      using recompute_best_law [OF c(2), of ?s] best_rel_remove [OF best [of ?s], of ?p] best [of s]
      by (cases "s = ?s") (simp_all add: b'_def vc c(5,6) f1)
    then show ?thesis
      using that [of b'] True c(1,2,4) L0 f1
      by (simp add: cancel_levels_def b'_def vc flip: b1_def)
  next
    case False
    define b' where "b' = (if side_best b ?s = Some ?p then set_best b1 ?s (side_best b ?s) (lvl_total_qty ?l) else b1)"
    have vb: "bview b' = (bview b)(?s := (bview b ?s)(?p \<mapsto> ?l))" by (simp add: b'_def v1)
    have "best_rel (bview b' s) s (side_best b' s) (side_best_qty b' s)" for s
      using best_rel_replace [OF best [of ?s], of ?p ?l] best [of s] l
      by (cases "s = ?s") (auto simp: vb, auto simp: b'_def f1)
    then show ?thesis
      using that [of b'] False L w1 f1
      by (simp add: vb) (simp add: cancel_levels_def b'_def level_is_empty_def flip: b1_def)
  qed
qed

lemma cancel_decomp:
  assumes rel: "book_rel b os" and h: "nodes b h = Some n"
  obtains sl2 sl3 r l b' where
    "get_level_mut b (node_side n) (node_price n) = Some (Some r)"
    "cancel_levels (b\<lparr>ib_orders := sl2\<rparr>) n r (level_take l n) = Some b'"
    "cancel b h = Some (b'\<lparr>ib_orders := sl3\<rparr>)"
    "book_rel (b'\<lparr>ib_orders := sl3\<rparr>) (spec_cancel os h)"
proof -
  note R = book_relD [OF rel]
  let ?s = "node_side n" and ?p = "node_price n"
  obtain sl1 sl2 sl3 where S:
      "(case node_prev n of Some p \<Rightarrow> slab_update (ib_orders b) (from_nz p) (\<lambda>k. k\<lparr>node_next := node_next n\<rparr>)
         | None \<Rightarrow> Some (ib_orders b)) = Some sl1"
      "(case node_next n of Some nh \<Rightarrow> slab_update sl1 (from_nz nh) (\<lambda>k. k\<lparr>node_prev := node_prev n\<rparr>)
         | None \<Rightarrow> Some sl1) = Some sl2"
      "slab_remove sl2 h = Some sl3" "slab_entries sl3 = unlink (nodes b) h n"
    by (rule slab_unlink [OF refl h]) (auto dest: live_links [OF R(1) h])
  define b1 where "b1 = b\<lparr>ib_orders := sl2\<rparr>"
  have b1: "bview b1 = bview b" "sides_wf b1" "ib_orders b1 = sl2" "side_best b1 = side_best b"
      "side_best_qty b1 = side_best_qty b"
    using R(2) by (simp_all add: b1_def fun_eq_iff)
  obtain r l where L: "get_level_mut b1 ?s ?p = Some (Some r)" "read_level b1 ?s r = Some l"
      "bview b1 ?s ?p = Some l"
    using live_level [of "nodes b" b1 os h n] R(1) b1(1,2) h by metis
  have R1: "levels_rel (nodes b) (bview b1) os" "\<And>s. best_rel (bview b1 s) s (side_best b1 s) (side_best_qty b1 s)"
    using R(1,4) b1 by simp_all
  obtain b' where B: "cancel_levels b1 n r (level_take l n) = Some b'" "ib_orders b' = ib_orders b1"
      "sides_wf b'" "levels_rel (unlink (nodes b) h n) (bview b') (spec_cancel os h)"
      "\<And>s. best_rel (bview b' s) s (side_best b' s) (side_best_qty b' s)"
    using cancel_levels_law [OF R1(1) b1(2) h R1(2) L(1,3)] by metis
  note T = level_take_def [of l n, unfolded One_nat_def]
  have "cancel b h = Some (b'\<lparr>ib_orders := sl3\<rparr>)"
  proof (cases "level_is_empty (level_take l n)")
    case True
    then obtain c x where c: "remove_level_if_empty (write_level b1 ?s r (level_take l n)) ?s ?p = Some (c, x)"
        "b' = (if side_best b1 ?s = Some ?p then recompute_best_after_removal c ?s else c)"
      using B(1) by (auto simp: cancel_levels_def Let_def)
    then show ?thesis
      using True S(3) L(1,2) B(2) b1(3) h unfolding T
      by (simp add: cancel_def slab_index_def Let_def S(1,2) b1_def)
  next
    case False
    then have "b' = (if side_best b1 ?s = Some ?p then set_best (write_level b1 ?s r (level_take l n)) ?s
          (side_best b1 ?s) (lvl_total_qty (level_take l n)) else write_level b1 ?s r (level_take l n))"
      using B(1) by (simp add: cancel_levels_def Let_def)
    then show ?thesis
      using False S(3) L(1,2) B(2) b1(3) h unfolding T
      by (simp add: cancel_def slab_index_def Let_def S(1,2) b1_def)
  qed
  then show ?thesis using that [of r sl2 l b' sl3] L(1) B(1,3-5) S(4) by (simp add: book_rel_def b1_def)
qed

theorem cancel_refines:
  assumes "book_rel b os" "nodes b h = Some n"
  shows "\<exists>b'. cancel b h = Some b' \<and> book_rel b' (spec_cancel os h)"
  by (rule cancel_decomp [OF assms]) blast

end
