(* ===== verification/Book_Queries.thy ===== *)
theory Book_Queries
  imports Instrument_Book
begin

text \<open>
  The read side of \<open>InstrumentBook\<close> (\<open>src/src/orderbook.rs\<close>): the cached \<open>bbo\<close>, the FIFO
  iteration over a level and the depth listing \<open>top_n\<close>, each related to the abstract book.

  \<open>spec_best\<close> and \<open>spec_bbo\<close> are the abstract answers; totals are sums reduced to \<open>i64\<close>.
\<close>

definition spec_best :: "abook \<Rightarrow> side \<Rightarrow> i64 option" where
  "spec_best os s =
     (let ps = map o_price (filter (\<lambda>ord. o_side ord = s) os) in
      if ps = [] then None else Some (case s of Bid \<Rightarrow> Max (set ps) | Ask \<Rightarrow> Min (set ps)))"

definition spec_bbo :: "abook \<Rightarrow> side \<Rightarrow> (i64 \<times> i64) option" where
  "spec_bbo os s = map_option (\<lambda>p. (p, i64_wrap (total_qty (queue os s p)))) (spec_best os s)"

section \<open>Listing the levels of a side\<close>

text \<open>The non-empty slots of the window, in the given slot order.\<close>

fun grid_levels :: "grid \<Rightarrow> nat list \<Rightarrow> (i64 \<times> level) list" where
  "grid_levels g [] = []"
| "grid_levels g (i # is) =
     (case grid_slots g ! i of
        Some l \<Rightarrow> if \<not> level_is_empty l then (slot_price g i, l) # grid_levels g is else grid_levels g is
      | None \<Rightarrow> grid_levels g is)"

definition slot_order :: "grid \<Rightarrow> side \<Rightarrow> nat list" where
  "slot_order g s = (case s of Bid \<Rightarrow> rev [0..<length (grid_slots g)] | Ask \<Rightarrow> [0..<length (grid_slots g)])"

definition ovf_levels :: "level btree \<Rightarrow> side \<Rightarrow> (i64 \<times> level) list" where
  "ovf_levels ovf s = (case s of Bid \<Rightarrow> rev ovf | Ask \<Rightarrow> ovf)"

text \<open>Push until the list has \<open>n\<close> entries: the length is tested after the push.\<close>

fun push_until :: "nat \<Rightarrow> 'a list \<Rightarrow> 'a list \<Rightarrow> 'a list" where
  "push_until n acc [] = acc"
| "push_until n acc (x # xs) = (if n \<le> length (acc @ [x]) then acc @ [x] else push_until n (acc @ [x]) xs)"

definition top_n_side :: "ibook \<Rightarrow> side \<Rightarrow> nat \<Rightarrow> (i64 \<times> i64) list" where
  "top_n_side b s n =
     (let lv = map (\<lambda>(p, l). (p, lvl_total_qty l));
          acc = push_until n [] (lv (grid_levels (side_grid b s) (slot_order (side_grid b s) s)))
      in if length acc < n then push_until n acc (lv (ovf_levels (side_ovf b s) s)) else acc)"

definition top_n :: "ibook \<Rightarrow> nat \<Rightarrow> (i64 \<times> i64) list \<times> (i64 \<times> i64) list" where
  "top_n b n = (top_n_side b Bid n, top_n_side b Ask n)"

text \<open>All levels of a side in the order the listings visit them.\<close>

definition side_levels :: "ibook \<Rightarrow> side \<Rightarrow> (i64 \<times> level) list" where
  "side_levels b s = grid_levels (side_grid b s) (slot_order (side_grid b s) s) @ ovf_levels (side_ovf b s) s"

definition level_fifo :: "ibook \<Rightarrow> side \<Rightarrow> i64 \<Rightarrow> handle list option" where
  "level_fifo b s p = do {
     lo \<leftarrow> get_level b s p;
     (case lo of None \<Rightarrow> Some [] | Some l \<Rightarrow> iter_fifo l (ib_orders b))
   }"

section \<open>The best price and the queues\<close>

lemma bview_queue: "book_rel b os \<Longrightarrow> bview b s p = None \<longleftrightarrow> queue os s p = []"
  using levels_relD(6) [of "nodes b" "bview b" os s p] book_relD(1) [of b os]
  by (auto simp: queue_rel_def split: option.splits)

lemma bview_level: "book_rel b os \<Longrightarrow> bview b s p = Some l \<Longrightarrow> level_rel (nodes b) l (queue os s p)"
  using levels_relD(6) [of "nodes b" "bview b" os s p] book_relD(1) [of b os]
  by (auto simp: queue_rel_def split: option.splits)

lemma queue_Nil_iff: "queue os s p = [] \<longleftrightarrow> p \<notin> set (map o_price (filter (\<lambda>ord. o_side ord = s) os))"
  by (auto simp: queue_def filter_empty_conv)

lemma spec_best_is_best:
  assumes "\<And>p. v p = None \<longleftrightarrow> queue os s p = []"
  shows "is_best (better s) v (spec_best os s)"
proof -
  define ps where "ps = set (map o_price (filter (\<lambda>ord. o_side ord = s) os))"
  have v: "v p \<noteq> None \<longleftrightarrow> p \<in> ps" for p using assms queue_Nil_iff unfolding ps_def by metis
  have sb: "spec_best os s = (if ps = {} then None else Some (case s of Bid \<Rightarrow> Max ps | Ask \<Rightarrow> Min ps))"
    unfolding spec_best_def Let_def ps_def by (simp only: set_empty)
  show ?thesis
  proof (cases "ps = {}")
    case True
    then have "v = Map.empty" using v by auto
    then show ?thesis using True sb by simp
  next
    case False
    have fin: "finite ps" by (simp add: ps_def)
    have "q = Max ps \<or> q < Max ps" "q = Min ps \<or> Min ps < q" if "q \<in> ps" for q
      using Max_ge [OF fin that] Min_le [OF fin that] by linarith+
    then show ?thesis
      using v sb Max_in [OF fin False] Min_in [OF fin False] False
      by (cases s) (simp_all add: better_side del: not_None_eq)
  qed
qed

lemma side_best_eq: "book_rel b os \<Longrightarrow> side_best b s = spec_best os s"
  using book_relD(4) [of b os s] spec_best_is_best [of "bview b s" os s] bview_queue [of b os s]
    ranking.best_unique [of s "bview b s"]
  by (auto simp: best_rel_def)

lemma side_best_qty_eq:
  assumes "book_rel b os" "side_best b s = Some p"
  shows "side_best_qty b s = i64_wrap (total_qty (queue os s p))"
proof -
  have B: "best_rel (bview b s) s (Some p) (side_best_qty b s)"
    using book_relD(4) [OF assms(1), of s] assms(2) by simp
  then obtain l where l: "bview b s p = Some l" by (auto simp: best_rel_def)
  then show ?thesis
    using B bview_level [OF assms(1) l] by (simp add: best_rel_def level_rel_def)
qed

lemma ib_bbo_spec: "book_rel b os \<Longrightarrow> ib_bbo b = (spec_bbo os Bid, spec_bbo os Ask)"
  using side_best_eq [of b os Bid] side_best_eq [of b os Ask]
    side_best_qty_eq [of b os Bid] side_best_qty_eq [of b os Ask]
  by (auto simp: ib_bbo_def spec_bbo_def option.map_sel intro!: option.map_cong dest: sym)

lemma iter_fifo_queue:
  "book_rel b os \<Longrightarrow> bview b s p = Some l \<Longrightarrow>
     iter_fifo l (ib_orders b) = Some (map o_handle (queue os s p))"
  using bview_level [of b os s p l] by (auto simp: iter_fifo_def level_rel_def iter_from_dseg)

lemma level_fifo_spec:
  assumes "book_rel b os" "px_ok p"
  shows "level_fifo b s p = Some (map o_handle (queue os s p))"
proof -
  have "get_level b s p = Some (bview b s p)"
    using levels_get_eq [OF book_relD(3) [OF assms(1)] assms(2)] by (simp add: get_level_def bview_def)
  then show ?thesis
    using bview_queue [OF assms(1), of s p] iter_fifo_queue [OF assms(1), of s p]
    by (cases "bview b s p") (simp_all add: level_fifo_def)
qed

section \<open>Depth\<close>

lemma push_until_take:
  "length acc < n \<Longrightarrow> push_until n acc xs = acc @ take (n - length acc) xs"
proof (induction xs arbitrary: acc)
  case (Cons x xs)
  show ?case
  proof (cases "n \<le> length (acc @ [x])")
    case True
    then have "n - length acc = 1" using Cons.prems by simp
    then show ?thesis using True by simp
  next
    case False
    then have "n - length acc = Suc (n - length (acc @ [x]))" by simp
    then show ?thesis using False Cons.IH [of "acc @ [x]"] by simp
  qed
qed simp

lemma top_n_side_take:
  "0 < n \<Longrightarrow> top_n_side b s n = take n (map (\<lambda>(p, l). (p, lvl_total_qty l)) (side_levels b s))"
  by (auto simp: top_n_side_def Let_def push_until_take side_levels_def)

lemma grid_levels_set:
  "set (grid_levels g is) = {(slot_price g i, l) | i l. i \<in> set is \<and> grid_slots g ! i = Some l \<and> \<not> level_is_empty l}"
  by (induction "is") (auto split: option.splits)

lemma grid_levels_prices:
  "map fst (grid_levels g is) = map (slot_price g)
     (filter (\<lambda>i. case grid_slots g ! i of None \<Rightarrow> False | Some l \<Rightarrow> \<not> level_is_empty l) is)"
  by (induction "is") (auto split: option.splits)

lemma slot_order_set [simp]: "set (slot_order g s) = {0..<length (grid_slots g)}"
  by (simp add: slot_order_def split: side.split)

lemma grid_levels_sorted:
  assumes wf: "grid_wf g"
  shows "sorted_wrt (better s) (map fst (grid_levels g (slot_order g s)))"
proof (cases "grid_initialized g")
  case True
  have "sorted_wrt (\<lambda>i j. better s (slot_price g i) (slot_price g j)) (slot_order g s)"
  proof (cases s)
    case Bid
    have "sorted_wrt (\<lambda>i j. slot_price g i < slot_price g j) [0..<length (grid_slots g)]"
      using slot_price_mono [OF wf True] by (auto simp: sorted_wrt_iff_nth_less)
    then show ?thesis by (simp add: slot_order_def Bid better_def sorted_wrt_rev)
  next
    case Ask
    then show ?thesis
      using slot_price_mono [OF wf True] by (auto simp: slot_order_def better_def sorted_wrt_iff_nth_less)
  qed
  then show ?thesis by (simp add: grid_levels_prices sorted_wrt_map sorted_wrt_filter)
next
  case False
  then have "grid_slots g ! i = None" if "i < length (grid_slots g)" for i
    using wf that by (simp add: grid_wf_def)
  then have "set (grid_levels g (slot_order g s)) = {}"
    by (auto simp: grid_levels_set)
  then show ?thesis by simp
qed

lemma grid_levels_view:
  assumes wf: "grid_wf g" and ne: "\<And>p l. gview g p = Some l \<Longrightarrow> \<not> level_is_empty l"
  shows "(p, l) \<in> set (grid_levels g (slot_order g s)) \<longleftrightarrow> gview g p = Some l"
proof
  assume "(p, l) \<in> set (grid_levels g (slot_order g s))"
  then obtain i where i: "p = slot_price g i" "i < length (grid_slots g)" "grid_slots g ! i = Some l"
    by (auto simp: grid_levels_set)
  moreover have "Some l \<in> set (grid_slots g)" using i by (metis nth_mem)
  ultimately have "grid_initialized g" using wf by (auto simp: grid_wf_def split: if_splits)
  then show "gview g p = Some l" using gview_slot [OF wf _ i(2)] i by simp
next
  assume g: "gview g p = Some l"
  then have "in_window g p" "grid_slots g ! idx_of g p = Some l" by (auto simp: gview_def split: if_splits)
  then show "(p, l) \<in> set (grid_levels g (slot_order g s))"
    using idx_of_less [OF wf, of p] slot_price_idx [OF wf, of p] ne [OF g]
    by (auto simp: grid_levels_set intro!: exI [of _ "idx_of g p"])
qed

lemma sorted_better_distinct: "sorted_wrt (better s) ps \<Longrightarrow> distinct ps"
  by (induction ps) (auto simp: ranking.irrefl)

lemma ovf_levels_sorted: "bt_wf ovf \<Longrightarrow> sorted_wrt (better s) (map fst (ovf_levels ovf s))"
  by (cases s) (simp_all add: bt_wf_def ovf_levels_def better_side sorted_wrt_rev flip: rev_map)

lemma ovf_levels_set [simp]: "set (ovf_levels ovf s) = set ovf"
  by (cases s) (simp_all add: ovf_levels_def)

text \<open>The listing enumerates the view: every level once.\<close>

lemma side_levels_view:
  assumes wf: "side_wf (side_grid b s) (side_ovf b s)" and ne: "no_empty (bview b s)"
  shows "(p, l) \<in> set (side_levels b s) \<longleftrightarrow> bview b s p = Some l"
    and "distinct (map fst (side_levels b s))"
proof -
  have full: "gview (side_grid b s) x = Some k \<Longrightarrow> \<not> level_is_empty k" for x k
    using ne by (auto simp: no_empty_def bview_def lview_def split: option.splits)
  note G = grid_levels_view [OF side_wfD(1) [OF wf] full]
    and O = bt_entries_get [OF side_wfD(2) [OF wf]]
  show "(p, l) \<in> set (side_levels b s) \<longleftrightarrow> bview b s p = Some l"
    using G O side_wfD(3) [OF wf, of p]
    by (auto simp: side_levels_def bview_def lview_def split: option.splits)
  have "fst ` set (grid_levels (side_grid b s) (slot_order (side_grid b s) s)) \<inter> fst ` set (side_ovf b s) = {}"
    using G O side_wfD(3) [OF wf] by fastforce
  then show "distinct (map fst (side_levels b s))"
    using sorted_better_distinct [OF grid_levels_sorted [OF side_wfD(1) [OF wf]], of s]
      sorted_better_distinct [OF ovf_levels_sorted [OF side_wfD(2) [OF wf]], of s]
    by (simp add: side_levels_def)
qed

lemma book_side_levels:
  assumes "book_rel b os"
  shows "(p, l) \<in> set (side_levels b s) \<longleftrightarrow> bview b s p = Some l" "distinct (map fst (side_levels b s))"
  using side_levels_view [OF book_relD(3,5) [OF assms]] by auto

text \<open>With an empty overflow map the listing is from best to worst.\<close>

lemma side_levels_sorted:
  "book_rel b os \<Longrightarrow> side_ovf b s = [] \<Longrightarrow> sorted_wrt (better s) (map fst (side_levels b s))"
  using grid_levels_sorted [OF side_wfD(1) [OF book_relD(3) [of b os s]], of s]
  by (simp add: side_levels_def ovf_levels_def) (cases s; simp)

lemma sorted_wrt_take: "sorted_wrt P xs \<Longrightarrow> sorted_wrt P (take n xs)"
  by (metis append_take_drop_id sorted_wrt_append)

theorem top_n_side_spec:
  assumes rel: "book_rel b os" and n: "0 < n"
  shows "length (top_n_side b s n) = min n (card {p. queue os s p \<noteq> []})"
    and "(p, q) \<in> set (top_n_side b s n) \<Longrightarrow> queue os s p \<noteq> [] \<and> q = i64_wrap (total_qty (queue os s p))"
    and "distinct (map fst (top_n_side b s n))"
    and "side_ovf b s = [] \<Longrightarrow> sorted_wrt (better s) (map fst (top_n_side b s n))"
proof -
  note L = book_side_levels [OF rel]
  let ?f = "\<lambda>(p, l). (p, lvl_total_qty l)"
  have fst: "map fst (map ?f xs) = map fst xs" for xs by (induction xs) auto
  have T: "top_n_side b s n = take n (map ?f (side_levels b s))" by (rule top_n_side_take [OF n])
  have "fst ` set (side_levels b s) = {p. queue os s p \<noteq> []}"
    using L(1) bview_queue [OF rel, of s] by (force simp: image_iff)
  then have "card {p. queue os s p \<noteq> []} = length (side_levels b s)"
    using distinct_card [OF L(2), of s] by simp
  then show "length (top_n_side b s n) = min n (card {p. queue os s p \<noteq> []})" by (simp add: T)
  show "(p, q) \<in> set (top_n_side b s n) \<Longrightarrow> queue os s p \<noteq> [] \<and> q = i64_wrap (total_qty (queue os s p))"
  proof -
    assume "(p, q) \<in> set (top_n_side b s n)"
    then obtain l where "(p, l) \<in> set (side_levels b s)" "q = lvl_total_qty l"
      by (auto simp: T dest!: in_set_takeD)
    then show ?thesis
      using L(1) bview_queue [OF rel, of s p] bview_level [OF rel, of s p l] by (auto simp: level_rel_def)
  qed
  show "distinct (map fst (top_n_side b s n))"
    using L(2) by (simp add: T take_map [symmetric] fst distinct_take del: map_map)
  show "side_ovf b s = [] \<Longrightarrow> sorted_wrt (better s) (map fst (top_n_side b s n))"
    using side_levels_sorted [OF rel, of s]
    by (simp add: T take_map [symmetric] fst sorted_wrt_take del: map_map)
qed

section \<open>Properties\<close>

lemma fresh_book_rel: "book_rel (with_params 1 16384) []"
  by (rule with_params_rel) simp_all

text \<open>
  \<open>InstrumentBook::add\<close> on a book that represents the orders \<open>os\<close>, when the level of the price is
  found (\<open>book_add_safe\<close>), does not panic, returns a handle that was free and leaves a book
  that represents \<open>os\<close> with the new order last in the queue of its side and price; links, level
  counts and totals, both cached best prices and the no-empty-level invariant included.
\<close>

theorem ib_add_correct:
  assumes "slab_alloc alloc" "book_rel b os" "px_ok price" "book_add_safe b s price"
  shows "\<exists>h b'. add alloc b price qty s = Some (h, b') \<and> nodes b h = None \<and>
    book_rel b' (spec_add os h price qty s) \<and>
    queue (spec_add os h price qty s) s price =
      queue os s price @ [\<lparr>o_handle = h, o_side = s, o_price = price, o_qty = qty\<rparr>]"
  using add_refines [OF assms, of qty] by (simp add: queue_add)

theorem ib_add_correct_witness:
  "\<exists>h b'. add first_free (with_params 1 16384) 100 5 Bid = Some (h, b') \<and>
     book_rel b' [\<lparr>o_handle = h, o_side = Bid, o_price = 100, o_qty = 5\<rparr>]"
proof -
  have "px_ok 100" "book_add_safe (with_params 1 16384) Bid 100"
    by (simp_all add: px_ok_def book_add_safe_def add_safe_def with_params_def)
  then show ?thesis
    using ib_add_correct [OF first_free_alloc fresh_book_rel, of 100 Bid 5] by (auto simp: spec_add_def)
qed

text \<open>
  \<open>InstrumentBook::set_qty\<close> on a live handle does not panic, changes the quantity of that order
  only and keeps its place in the queue; totals and the cached best quantity follow.
\<close>

theorem ib_set_qty_correct:
  assumes "book_rel b os" "nodes b h = Some n"
  shows "\<exists>b'. set_qty b h qty = Some b' \<and> book_rel b' (spec_set_qty os h qty) \<and>
    map o_handle (queue (spec_set_qty os h qty) s p) = map o_handle (queue os s p)"
  using set_qty_refines [OF assms, of qty] by (simp add: queue_set_qty)

text \<open>
  C13: \<open>InstrumentBook::cancel\<close> on a live handle does not panic, unlinks that order only, keeps the
  order of the others, frees the handle and drops the level when it was the last one; the
  cached best price moves to the next level.
\<close>

theorem ib_cancel_correct:
  assumes "book_rel b os" "nodes b h = Some n"
  shows "\<exists>b'. cancel b h = Some b' \<and> book_rel b' (spec_cancel os h) \<and> nodes b' h = None"
proof -
  obtain b' where b': "cancel b h = Some b'" "book_rel b' (spec_cancel os h)"
    using cancel_refines [OF assms] by blast
  have "h \<notin> dom (nodes b')"
    using levels_relD(2) [OF book_relD(1) [OF b'(2)]] by (auto simp: spec_cancel_def)
  then show ?thesis using b' by auto
qed

text \<open>A book with one order, for the witnesses.\<close>

lemma one_order_book:
  obtains h b n where "add first_free (with_params 1 16384) 100 5 Bid = Some (h, b)" "nodes b h = Some n"
    "book_rel b [\<lparr>o_handle = h, o_side = Bid, o_price = 100, o_qty = 5\<rparr>]"
proof -
  have "px_ok 100" "book_add_safe (with_params 1 16384) Bid 100"
    by (simp_all add: px_ok_def book_add_safe_def add_safe_def with_params_def)
  then obtain h b where b: "add first_free (with_params 1 16384) 100 5 Bid = Some (h, b)"
      "book_rel b (spec_add [] h 100 5 Bid)"
    using add_refines [OF first_free_alloc fresh_book_rel, of 100 Bid 5] by auto
  moreover have "h \<in> dom (nodes b)"
    using levels_relD(2) [OF book_relD(1) [OF b(2)]] by (auto simp: spec_add_def)
  ultimately show ?thesis using that by (auto simp: spec_add_def)
qed

theorem ib_set_qty_correct_witness:
  "\<exists>h b b'. add first_free (with_params 1 16384) 100 5 Bid = Some (h, b) \<and> set_qty b h 9 = Some b' \<and>
     book_rel b' [\<lparr>o_handle = h, o_side = Bid, o_price = 100, o_qty = 9\<rparr>]"
proof (rule one_order_book)
  fix h b n
  assume b: "add first_free (with_params 1 16384) 100 5 Bid = Some (h, b)" and n: "nodes b h = Some n"
    and rel: "book_rel b [\<lparr>o_handle = h, o_side = Bid, o_price = 100, o_qty = 5\<rparr>]"
  show ?thesis using ib_set_qty_correct [OF rel n, of 9] b by (auto simp: spec_set_qty_def)
qed

theorem ib_cancel_correct_witness:
  "\<exists>h b b'. add first_free (with_params 1 16384) 100 5 Bid = Some (h, b) \<and> cancel b h = Some b' \<and> book_rel b' []"
proof (rule one_order_book)
  fix h b n
  assume b: "add first_free (with_params 1 16384) 100 5 Bid = Some (h, b)" and n: "nodes b h = Some n"
    and rel: "book_rel b [\<lparr>o_handle = h, o_side = Bid, o_price = 100, o_qty = 5\<rparr>]"
  show ?thesis using ib_cancel_correct [OF rel n] b by (auto simp: spec_cancel_def)
qed

text \<open>
  the cached \<open>bbo\<close> of a book that represents \<open>os\<close> is the highest bid and the lowest ask
  among the live orders, each with the total quantity of its queue (reduced to \<open>i64\<close>).
\<close>

theorem ib_bbo_correct: "book_rel b os \<Longrightarrow> ib_bbo b = (spec_bbo os Bid, spec_bbo os Ask)"
  by (rule ib_bbo_spec)

theorem ib_bbo_correct_witness:
  "\<exists>h b. add first_free (with_params 1 16384) 100 5 Bid = Some (h, b) \<and> ib_bbo b = (Some (100, 5), None)"
proof (rule one_order_book)
  fix h b n
  assume b: "add first_free (with_params 1 16384) 100 5 Bid = Some (h, b)"
    and rel: "book_rel b [\<lparr>o_handle = h, o_side = Bid, o_price = 100, o_qty = 5\<rparr>]"
  show ?thesis
    using ib_bbo_correct [OF rel] b
    by (auto simp: spec_bbo_def spec_best_def queue_def total_qty_def i64_wrap_def)
qed

text \<open>
  C25: iterating a level of a represented book from its head (\<open>get_level\<close>, \<open>iter_fifo\<close>) ends and
  visits exactly the handles of the orders of that side and price, in arrival order.
\<close>

theorem level_iterates_fifo:
  "book_rel b os \<Longrightarrow> px_ok p \<Longrightarrow> level_fifo b s p = Some (map o_handle (queue os s p))"
  by (rule level_fifo_spec)

theorem level_iterates_fifo_witness:
  "\<exists>h b. add first_free (with_params 1 16384) 100 5 Bid = Some (h, b) \<and> level_fifo b Bid 100 = Some [h]"
proof (rule one_order_book)
  fix h b n
  assume b: "add first_free (with_params 1 16384) 100 5 Bid = Some (h, b)"
    and rel: "book_rel b [\<lparr>o_handle = h, o_side = Bid, o_price = 100, o_qty = 5\<rparr>]"
  show ?thesis using level_iterates_fifo [OF rel, of 100 Bid] b by (auto simp: queue_def px_ok_def)
qed

text \<open>
  C26: \<open>top_n\<close> with a positive \<open>n\<close> lists, per side, as many levels as there are, up to \<open>n\<close>, each
  occupied price at most once and with the total of its queue; when the overflow map of the
  side is empty the listing runs from best to worst.
\<close>

theorem top_n_correct:
  assumes "book_rel b os" "0 < n"
  shows "\<forall>s. length (top_n_side b s n) = min n (card {p. queue os s p \<noteq> []}) \<and>
    distinct (map fst (top_n_side b s n)) \<and>
    (\<forall>(p, q) \<in> set (top_n_side b s n). queue os s p \<noteq> [] \<and> q = i64_wrap (total_qty (queue os s p))) \<and>
    (side_ovf b s = [] \<longrightarrow> sorted_wrt (better s) (map fst (top_n_side b s n))) \<and>
    top_n b n = (top_n_side b Bid n, top_n_side b Ask n)"
  using top_n_side_spec [OF assms] by (auto simp: top_n_def)

theorem top_n_correct_witness:
  "\<exists>h b. add first_free (with_params 1 16384) 100 5 Bid = Some (h, b) \<and> length (top_n_side b Bid 3) = 1"
proof (rule one_order_book)
  fix h b n
  assume b: "add first_free (with_params 1 16384) 100 5 Bid = Some (h, b)"
    and rel: "book_rel b [\<lparr>o_handle = h, o_side = Bid, o_price = 100, o_qty = 5\<rparr>]"
  have "{p. queue [\<lparr>o_handle = h, o_side = Bid, o_price = 100, o_qty = 5\<rparr>] Bid p \<noteq> []} = {100}"
    by (auto simp: queue_def)
  then show ?thesis using top_n_correct [OF rel, of 3] b by auto
qed

text \<open>
  outside \<open>book_add_safe\<close>, that is when the level of an on-tick price sits in the overflow map,
  \<open>ensure_level_mut\<close> returns a new empty level of the grid although the price has live orders,
  and from then on \<open>get_level\<close> finds that level instead of the old one.
\<close>

theorem ensure_level_hides_overflow:
  assumes rel: "book_rel b os" and px: "px_ok p" and unsafe: "\<not> book_add_safe b s p"
  shows "\<exists>b' r. ensure_level_mut b s p = Some (b', r) \<and> queue os s p \<noteq> [] \<and>
    read_level b' s r = Some level_default \<and> bview b' s p = Some level_default"
proof -
  note R = book_relD [OF rel]
  obtain g ovf r l where "ensure_level_mut_in_grid (side_grid b s) (side_ovf b s) p = Some (g, ovf, r)"
      "lview (side_grid b s) (side_ovf b s) p = Some l" "read_ref g ovf r = Some level_default"
      "lview g ovf p = Some level_default"
    using ensure_shadows [OF R(3) R(5) [of s, unfolded bview_def] px] unsafe by (auto simp: book_add_safe_def)
  then show ?thesis
    using bview_queue [OF rel, of s p]
    by (auto simp: ensure_level_mut_def read_level_def bview_set_side bview_def)
qed

theorem ensure_level_hides_overflow_witness:
  "\<exists>h1 b1 h2 b2 b' r. add first_free (with_params 1 4) 100 5 Bid = Some (h1, b1) \<and>
     add first_free b1 200 1 Bid = Some (h2, b2) \<and> ensure_level_mut b2 Bid 100 = Some (b', r) \<and>
     read_level b' Bid r = Some level_default"
proof -
  have px: "px_ok 100" "px_ok 200" by (simp_all add: px_ok_def)
  have rel0: "book_rel (with_params 1 4) []" by (rule with_params_rel) simp_all
  have "book_add_safe (with_params 1 4) Bid 100" by code_simp
  then obtain h1 b1 os1 where b1: "add first_free (with_params 1 4) 100 5 Bid = Some (h1, b1)" "book_rel b1 os1"
    using add_refines [OF first_free_alloc rel0 px(1)] by blast
  have "map_option (\<lambda>(h, b). book_add_safe b Bid 200) (add first_free (with_params 1 4) 100 5 Bid) = Some True"
    by code_simp
  then have "book_add_safe b1 Bid 200" using b1(1) by simp
  then obtain h2 b2 os2 where b2: "add first_free b1 200 1 Bid = Some (h2, b2)" "book_rel b2 os2"
    using add_refines [OF first_free_alloc b1(2) px(2)] by blast
  have "Option.bind (add first_free (with_params 1 4) 100 5 Bid)
      (\<lambda>(h, b). map_option (\<lambda>(h, b). book_add_safe b Bid 100) (add first_free b 200 1 Bid)) = Some False"
    by code_simp
  then have "\<not> book_add_safe b2 Bid 100" using b1(1) b2(1) by simp
  then show ?thesis using ensure_level_hides_overflow [OF b2(2) px(1)] b1(1) b2(1) by blast
qed

end
