(* ===== verification/Order_Book.thy ===== *)
theory Order_Book
  imports Book_Queries
begin

text \<open>
  \<open>OrderBook\<close> of \<open>src/src/orderbook.rs\<close>: the books of all instruments, the index from order
  ids to \<open>(instrument, handle)\<close> and the event handler \<open>apply\<close>, with the batched
  \<open>apply_many_for_instr\<close>.

  The abstract state is one list of live orders, keyed by order id, in arrival order
  (\<open>aorder list\<close>), with \<open>spec_apply\<close> as its event handler; \<open>ob_rel\<close> relates the two and
  \<open>apply_refines\<close> is the simulation. \<open>reach\<close> are the states an event sequence leads to.
\<close>

record obook =
  depth_for_reporting :: nat
  books :: "u32 \<rightharpoonup> ibook"
  index :: "u64 \<rightharpoonup> u32 \<times> handle"
  last_instr :: "u32 option"
  consume_trades :: bool
  default_slab_capacity :: nat
  ob_grid_tick :: i64
  ob_grid_span :: nat

definition ob_new_with_grid :: "nat \<Rightarrow> bool \<Rightarrow> nat \<Rightarrow> i64 \<Rightarrow> nat \<Rightarrow> obook" where
  "ob_new_with_grid depth ct cap tick span =
     \<lparr>depth_for_reporting = depth, books = Map.empty, index = Map.empty, last_instr = None,
      consume_trades = ct, default_slab_capacity = cap, ob_grid_tick = tick, ob_grid_span = span\<rparr>"

definition ob_new :: "nat \<Rightarrow> obook" where
  "ob_new depth =
     \<lparr>depth_for_reporting = depth, books = Map.empty, index = Map.empty, last_instr = None,
      consume_trades = False, default_slab_capacity = 2 ^ 20, ob_grid_tick = 1, ob_grid_span = 16384\<rparr>"

definition ob_new_with_options :: "nat \<Rightarrow> bool \<Rightarrow> obook" where
  "ob_new_with_options depth ct =
     \<lparr>depth_for_reporting = depth, books = Map.empty, index = Map.empty, last_instr = None,
      consume_trades = ct, default_slab_capacity = 2 ^ 20, ob_grid_tick = 1, ob_grid_span = 16384\<rparr>"

definition ob_new_with_options_and_capacity :: "nat \<Rightarrow> bool \<Rightarrow> nat \<Rightarrow> obook" where
  "ob_new_with_options_and_capacity depth ct cap =
     \<lparr>depth_for_reporting = depth, books = Map.empty, index = Map.empty, last_instr = None,
      consume_trades = ct, default_slab_capacity = cap, ob_grid_tick = 1, ob_grid_span = 16384\<rparr>"

definition set_consume_trades :: "bool \<Rightarrow> obook \<Rightarrow> obook" where
  "set_consume_trades v ob = ob\<lparr>consume_trades := v\<rparr>"

text \<open>\<open>book_mut\<close> returns a reference into \<open>books\<close>; \<open>put_book\<close> is the write through it.\<close>

definition put_book :: "obook \<Rightarrow> u32 \<Rightarrow> ibook \<Rightarrow> obook" where
  "put_book ob i b = ob\<lparr>books := (books ob)(i \<mapsto> b)\<rparr>"

definition book_mut :: "obook \<Rightarrow> u32 \<Rightarrow> obook \<times> ibook" where
  "book_mut ob i =
     (case books ob i of
        Some b \<Rightarrow> (ob, b)
      | None \<Rightarrow> let b = with_params (ob_grid_tick ob) (ob_grid_span ob) in (put_book ob i b, b))"

definition ob_set_qty :: "obook \<Rightarrow> u32 \<Rightarrow> handle \<Rightarrow> i64 \<Rightarrow> obook option" where
  "ob_set_qty ob i h qty = (case book_mut ob i of (ob, b) \<Rightarrow> map_option (put_book ob i) (set_qty b h qty))"

definition ob_cancel :: "obook \<Rightarrow> u32 \<Rightarrow> handle \<Rightarrow> obook option" where
  "ob_cancel ob i h = (case book_mut ob i of (ob, b) \<Rightarrow> map_option (put_book ob i) (cancel b h))"

definition index_remove :: "u64 \<Rightarrow> obook \<Rightarrow> obook" where
  "index_remove oid ob = ob\<lparr>index := (index ob)(oid := None)\<rparr>"

definition index_insert :: "u64 \<Rightarrow> u32 \<times> handle \<Rightarrow> obook \<Rightarrow> obook" where
  "index_insert oid x ob = ob\<lparr>index := (index ob)(oid \<mapsto> x)\<rparr>"

definition touch :: "u32 \<Rightarrow> obook \<Rightarrow> obook" where
  "touch i ob = ob\<lparr>last_instr := Some i\<rparr>"

definition apply_add :: "slab_alloc_fn \<Rightarrow> obook \<Rightarrow> u64 \<Rightarrow> u32 \<Rightarrow> i64 \<Rightarrow> i64 \<Rightarrow> side \<Rightarrow> obook option" where
  "apply_add alloc ob oid i px qty s = do {
     let (ob, b) = book_mut ob i;
     (h, b) \<leftarrow> add alloc b px qty s;
     Some (touch i (index_insert oid (i, h) (put_book ob i b)))
   }"

definition apply_mod :: "obook \<Rightarrow> u64 \<Rightarrow> i64 \<Rightarrow> obook option" where
  "apply_mod ob oid qty =
     (case index ob oid of
        None \<Rightarrow> Some ob
      | Some (i, h) \<Rightarrow>
          if 0 < qty then map_option (touch i) (ob_set_qty ob i h qty)
          else map_option (\<lambda>ob. touch i (index_remove oid ob)) (ob_cancel ob i h))"

definition apply_del :: "obook \<Rightarrow> u64 \<Rightarrow> obook option" where
  "apply_del ob oid =
     (case index ob oid of
        None \<Rightarrow> Some ob
      | Some (i, h) \<Rightarrow> map_option (touch i) (ob_cancel (index_remove oid ob) i h))"

text \<open>The body of the trade arm once \<open>last_instr\<close> is set.\<close>

definition consume_maker :: "obook \<Rightarrow> u64 \<Rightarrow> u32 \<Rightarrow> handle \<Rightarrow> i64 \<Rightarrow> obook option" where
  "consume_maker ob oid mi h qty = do {
     let (ob, b) = book_mut ob mi;
     n \<leftarrow> slab_index (ib_orders b) h;
     let new_qty = max (i64_sub (node_qty n) qty) 0;
     if 0 < new_qty then ob_set_qty ob mi h new_qty
     else map_option (index_remove oid) (ob_cancel ob mi h)
   }"

definition apply_trade :: "obook \<Rightarrow> u32 \<Rightarrow> i64 \<Rightarrow> u64 option \<Rightarrow> obook option" where
  "apply_trade ob i qty maker =
     (let ob = touch i ob in
      if consume_trades ob then
        case maker of
          None \<Rightarrow> Some ob
        | Some oid \<Rightarrow>
            (case index ob oid of None \<Rightarrow> Some ob | Some (mi, h) \<Rightarrow> consume_maker ob oid mi h qty)
      else Some ob)"

fun apply_event :: "slab_alloc_fn \<Rightarrow> obook \<Rightarrow> event \<Rightarrow> obook option" where
  "apply_event alloc ob (Add oid i px qty s) = apply_add alloc ob oid i px qty s"
| "apply_event alloc ob (Mod oid qty) = apply_mod ob oid qty"
| "apply_event alloc ob (Del oid) = apply_del ob oid"
| "apply_event alloc ob (Trade i px qty maker taker) = apply_trade ob i qty maker"
| "apply_event alloc ob Heartbeat = Some ob"

fun apply_events :: "slab_alloc_fn \<Rightarrow> obook \<Rightarrow> event list \<Rightarrow> obook option" where
  "apply_events alloc ob [] = Some ob"
| "apply_events alloc ob (e # es) = Option.bind (apply_event alloc ob e) (\<lambda>ob. apply_events alloc ob es)"

text \<open>
  One iteration of \<open>apply_many_for_instr\<close>: the guarded arms in the order of the source, the last
  one falling back to \<open>apply\<close>. \<open>consume\<close> is the flag read once before the loop.
\<close>

fun many_step :: "slab_alloc_fn \<Rightarrow> bool \<Rightarrow> u32 \<Rightarrow> obook \<Rightarrow> event \<Rightarrow> obook option" where
  "many_step alloc consume instr ob (Add oid i px qty s) =
     (if i = instr then do {
        let (ob, b) = book_mut ob instr;
        (h, b) \<leftarrow> add alloc b px qty s;
        Some (touch instr (index_insert oid (instr, h) (put_book ob instr b)))
      } else apply_event alloc ob (Add oid i px qty s))"
| "many_step alloc consume instr ob (Mod oid qty) =
     (case index ob oid of
        None \<Rightarrow> Some ob
      | Some (mi, h) \<Rightarrow>
          if mi = instr then
            if 0 < qty then map_option (touch instr) (ob_set_qty ob instr h qty)
            else map_option (\<lambda>ob. touch instr (index_remove oid ob)) (ob_cancel ob instr h)
          else apply_event alloc ob (Mod oid qty))"
| "many_step alloc consume instr ob (Del oid) =
     (case index ob oid of
        None \<Rightarrow> Some ob
      | Some (mi, h) \<Rightarrow>
          let ob = index_remove oid ob in
          if mi = instr then map_option (touch instr) (ob_cancel ob instr h)
          else apply_event alloc (index_insert oid (mi, h) ob) (Del oid))"
| "many_step alloc consume instr ob (Trade i px qty maker taker) =
     (if i = instr then
        let ob = touch instr ob in
        if consume then
          case maker of
            None \<Rightarrow> Some ob
          | Some oid \<Rightarrow>
              (case index ob oid of
                 None \<Rightarrow> Some ob
               | Some (mi, h) \<Rightarrow>
                   if mi = instr then do {
                     let (ob, b) = book_mut ob instr;
                     n \<leftarrow> slab_index (ib_orders b) h;
                     let new_qty = max (i64_sub (node_qty n) qty) 0;
                     if 0 < new_qty then ob_set_qty ob instr h new_qty
                     else map_option (index_remove oid) (ob_cancel ob instr h)
                   }
                   else apply_event alloc ob (Trade i px qty maker taker))
        else Some ob
      else apply_event alloc ob (Trade i px qty maker taker))"
| "many_step alloc consume instr ob Heartbeat = Some ob"

fun many_loop :: "slab_alloc_fn \<Rightarrow> bool \<Rightarrow> u32 \<Rightarrow> obook \<Rightarrow> event list \<Rightarrow> obook option" where
  "many_loop alloc consume instr ob [] = Some ob"
| "many_loop alloc consume instr ob (e # es) =
     Option.bind (many_step alloc consume instr ob e) (\<lambda>ob. many_loop alloc consume instr ob es)"

definition apply_many_for_instr :: "slab_alloc_fn \<Rightarrow> obook \<Rightarrow> u32 \<Rightarrow> event list \<Rightarrow> obook option" where
  "apply_many_for_instr alloc ob instr es = many_loop alloc (consume_trades ob) instr ob es"

definition ob_bbo :: "obook \<Rightarrow> (i64 \<times> i64) option \<times> (i64 \<times> i64) option" where
  "ob_bbo ob =
     (case last_instr ob of
        Some i \<Rightarrow> (case books ob i of Some b \<Rightarrow> ib_bbo b | None \<Rightarrow> (None, None))
      | None \<Rightarrow> (None, None))"

definition top_n_of :: "obook \<Rightarrow> u32 \<Rightarrow> nat \<Rightarrow> ((i64 \<times> i64) list \<times> (i64 \<times> i64) list) option" where
  "top_n_of ob i n = map_option (\<lambda>b. top_n b n) (books ob i)"

definition order_count :: "obook \<Rightarrow> nat" where
  "order_count ob = card (dom (index ob))"

definition instrument_for_order :: "obook \<Rightarrow> u64 \<Rightarrow> u32 option" where
  "instrument_for_order ob oid = map_option fst (index ob oid)"

section \<open>The abstract order book\<close>

record aorder =
  a_id :: u64
  a_instr :: u32
  a_side :: side
  a_price :: i64
  a_qty :: i64

definition a_set_qty :: "aorder list \<Rightarrow> u64 \<Rightarrow> i64 \<Rightarrow> aorder list" where
  "a_set_qty A oid qty = map (\<lambda>a. if a_id a = oid then a\<lparr>a_qty := qty\<rparr> else a) A"

definition a_remove :: "aorder list \<Rightarrow> u64 \<Rightarrow> aorder list" where
  "a_remove A oid = filter (\<lambda>a. a_id a \<noteq> oid) A"

definition a_change :: "aorder list \<Rightarrow> u64 \<Rightarrow> i64 \<Rightarrow> aorder list" where
  "a_change A oid qty = (if 0 < qty then a_set_qty A oid qty else a_remove A oid)"

definition a_find :: "aorder list \<Rightarrow> u64 \<Rightarrow> aorder option" where
  "a_find A oid = find (\<lambda>a. a_id a = oid) A"

fun spec_apply :: "bool \<Rightarrow> aorder list \<Rightarrow> event \<Rightarrow> aorder list" where
  "spec_apply consume A (Add oid i px qty s) =
     A @ [\<lparr>a_id = oid, a_instr = i, a_side = s, a_price = px, a_qty = qty\<rparr>]"
| "spec_apply consume A (Mod oid qty) = a_change A oid qty"
| "spec_apply consume A (Del oid) = a_remove A oid"
| "spec_apply consume A (Trade i px qty maker taker) =
     (case maker of
        Some oid \<Rightarrow>
          (case a_find A oid of
             Some a \<Rightarrow> if consume then a_change A oid (i64_sub (a_qty a) qty) else A
           | None \<Rightarrow> A)
      | None \<Rightarrow> A)"
| "spec_apply consume A Heartbeat = A"

text \<open>The orders of one instrument, with the handles the index gives them.\<close>

definition instr_orders :: "(u64 \<rightharpoonup> u32 \<times> handle) \<Rightarrow> u32 \<Rightarrow> aorder list \<Rightarrow> abook" where
  "instr_orders idx i A =
     map (\<lambda>a. \<lparr>o_handle = snd (the (idx (a_id a))), o_side = a_side a, o_price = a_price a, o_qty = a_qty a\<rparr>)
       (filter (\<lambda>a. a_instr a = i) A)"

definition grid_cfg_ok :: "obook \<Rightarrow> bool" where
  "grid_cfg_ok ob \<longleftrightarrow>
     0 < ob_grid_tick ob \<and> 0 < ob_grid_span ob \<and> ob_grid_tick ob * (int (ob_grid_span ob) + 1) < 2 ^ 62"

definition book_at :: "obook \<Rightarrow> u32 \<Rightarrow> ibook" where
  "book_at ob i = (case books ob i of Some b \<Rightarrow> b | None \<Rightarrow> with_params (ob_grid_tick ob) (ob_grid_span ob))"

definition ob_rel :: "obook \<Rightarrow> aorder list \<Rightarrow> bool" where
  "ob_rel ob A \<longleftrightarrow>
     grid_cfg_ok ob \<and> distinct (map a_id A) \<and>
     (\<forall>a \<in> set A. map_option fst (index ob (a_id a)) = Some (a_instr a)) \<and>
     dom (index ob) = a_id ` set A \<and>
     (\<forall>i. book_rel (book_at ob i) (instr_orders (index ob) i A))"

text \<open>What an \<open>Add\<close> must satisfy: a fresh id, a price in range and a level that is found again.\<close>

fun event_safe :: "obook \<Rightarrow> event \<Rightarrow> bool" where
  "event_safe ob (Add oid i px qty s) \<longleftrightarrow>
     index ob oid = None \<and> px_ok px \<and> book_add_safe (book_at ob i) s px"
| "event_safe ob _ \<longleftrightarrow> True"

section \<open>The batched path is the single-event path\<close>

lemma index_remove_insert: "index ob oid = Some x \<Longrightarrow> index_insert oid x (index_remove oid ob) = ob"
  by (auto simp: index_insert_def index_remove_def fun_upd_idem)

lemma touch_touch [simp]: "touch i (touch j ob) = touch i ob"
  by (simp add: touch_def)

lemma touch_frame [simp]:
  "consume_trades (touch i ob) = consume_trades ob" "index (touch i ob) = index ob"
  "books (touch i ob) = books ob" "ob_grid_tick (touch i ob) = ob_grid_tick ob"
  "ob_grid_span (touch i ob) = ob_grid_span ob" "last_instr (touch i ob) = Some i"
  by (simp_all add: touch_def)

lemma many_step_apply: "many_step alloc (consume_trades ob) instr ob e = apply_event alloc ob e"
  by (cases e)
     (auto simp: apply_add_def apply_mod_def apply_del_def apply_trade_def consume_maker_def Let_def
        index_remove_insert split: option.split)

text \<open>\<open>book_mut\<close> yields the book of the instrument, new or not.\<close>

lemma book_mut_eq: "book_mut ob i = (fst (book_mut ob i), book_at ob i)"
  by (simp add: book_mut_def book_at_def Let_def split: option.split)

lemma put_book_mut [simp]: "put_book (fst (book_mut ob i)) i = put_book ob i"
  by (simp add: fun_eq_iff book_mut_def put_book_def Let_def split: option.split)

lemma book_at_mut [simp]: "book_at (fst (book_mut ob i)) i = book_at ob i"
  by (simp add: book_mut_def book_at_def put_book_def Let_def split: option.split)

lemma ob_set_qty_eq: "ob_set_qty ob i h q = map_option (put_book ob i) (set_qty (book_at ob i) h q)"
  by (subst ob_set_qty_def, subst book_mut_eq) simp

lemma ob_cancel_eq: "ob_cancel ob i h = map_option (put_book ob i) (cancel (book_at ob i) h)"
  by (subst ob_cancel_def, subst book_mut_eq) simp

lemma apply_add_eq:
  "apply_add alloc ob oid i px qty s =
     map_option (\<lambda>(h, b). touch i (index_insert oid (i, h) (put_book ob i b))) (add alloc (book_at ob i) px qty s)"
  unfolding apply_add_def
  by (subst book_mut_eq) (cases "add alloc (book_at ob i) px qty s"; simp split: prod.split)

lemma consume_maker_eq:
  "consume_maker ob oid mi h qty = do {
     n \<leftarrow> nodes (book_at ob mi) h;
     let new_qty = max (i64_sub (node_qty n) qty) 0;
     if 0 < new_qty then ob_set_qty ob mi h new_qty
     else map_option (index_remove oid) (ob_cancel ob mi h)
   }"
  unfolding consume_maker_def
  by (subst book_mut_eq) (simp add: slab_index_def ob_set_qty_eq ob_cancel_eq Let_def cong: if_cong)

lemma consume_frame [simp]:
  "consume_trades (put_book ob i b) = consume_trades ob"
  "consume_trades (index_remove oid ob) = consume_trades ob"
  "consume_trades (index_insert oid x ob) = consume_trades ob"
  by (simp_all add: put_book_def index_remove_def index_insert_def)

lemmas apply_defs = apply_add_eq apply_mod_def apply_del_def apply_trade_def consume_maker_eq
  ob_set_qty_eq ob_cancel_eq Let_def

lemma apply_event_consume: "apply_event alloc ob e = Some ob' \<Longrightarrow> consume_trades ob' = consume_trades ob"
  by (cases e) (auto simp: apply_defs bind_Some_iff split: option.splits if_splits prod.splits)

lemma many_loop_apply: "many_loop alloc (consume_trades ob) instr ob es = apply_events alloc ob es"
proof (induction es arbitrary: ob)
  case (Cons e es)
  show ?case
  proof (cases "apply_event alloc ob e")
    case (Some ob')
    then have "consume_trades ob' = consume_trades ob" by (rule apply_event_consume)
    then show ?thesis using Cons.IH [of ob'] Some by (simp add: many_step_apply)
  qed (simp add: many_step_apply)
qed simp

section \<open>The simulation\<close>

lemma book_at_simps [simp]:
  "book_at (put_book ob i b) j = (if j = i then b else book_at ob j)"
  "book_at (touch i ob) j = book_at ob j"
  "book_at (index_remove oid ob) j = book_at ob j"
  "book_at (index_insert oid x ob) j = book_at ob j"
  by (simp_all add: book_at_def put_book_def touch_def index_remove_def index_insert_def cong: option.case_cong)

lemma index_simps [simp]:
  "index (put_book ob i b) = index ob"
  "index (index_remove oid ob) = (index ob)(oid := None)"
  "index (index_insert oid x ob) = (index ob)(oid \<mapsto> x)"
  by (simp_all add: put_book_def index_remove_def index_insert_def)

lemma grid_cfg_frame [simp]:
  "grid_cfg_ok (put_book ob i b) = grid_cfg_ok ob" "grid_cfg_ok (touch i ob) = grid_cfg_ok ob"
  "grid_cfg_ok (index_remove oid ob) = grid_cfg_ok ob" "grid_cfg_ok (index_insert oid x ob) = grid_cfg_ok ob"
  by (simp_all add: grid_cfg_ok_def put_book_def touch_def index_remove_def index_insert_def)

lemma ob_relD:
  assumes "ob_rel ob A"
  shows "grid_cfg_ok ob" "distinct (map a_id A)"
    "a \<in> set A \<Longrightarrow> \<exists>h. index ob (a_id a) = Some (a_instr a, h)"
    "dom (index ob) = a_id ` set A" "book_rel (book_at ob i) (instr_orders (index ob) i A)"
  using assms by (auto simp: ob_rel_def)

text \<open>An indexed order is live: it is in the abstract book and its node is in the slab.\<close>

lemma index_live:
  assumes rel: "ob_rel ob A" and idx: "index ob oid = Some (i, h)"
  obtains a n where "a \<in> set A" "a_id a = oid" "a_instr a = i" "nodes (book_at ob i) h = Some n"
    "node_qty n = a_qty a" "node_price n = a_price a" "node_side n = a_side a"
proof -
  note R = ob_relD [OF rel]
  obtain a where a: "a \<in> set A" "a_id a = oid" using R(4) idx by (metis domI imageE)
  then have i: "a_instr a = i" using R(3) [OF a(1)] idx by simp
  let ?o = "\<lparr>o_handle = h, o_side = a_side a, o_price = a_price a, o_qty = a_qty a\<rparr>"
  have "?o \<in> set (instr_orders (index ob) i A)"
    using a i idx by (force simp: instr_orders_def)
  then have "node_for (nodes (book_at ob i)) ?o"
    using levels_relD(4) [OF book_relD(1) [OF R(5) [of i]]] by blast
  then show ?thesis using that a i by (auto simp: node_for_def split: option.splits)
qed

lemma handles_inj:
  assumes rel: "ob_rel ob A" and "index ob x = Some (i, h)" "index ob y = Some (i, h)"
  shows "x = y"
proof -
  note R = ob_relD [OF rel]
  obtain a where a: "a \<in> set A" "a_id a = x" "a_instr a = i" by (rule index_live [OF rel assms(2)])
  obtain b where b: "b \<in> set A" "a_id b = y" "a_instr b = i" by (rule index_live [OF rel assms(3)])
  let ?B = "filter (\<lambda>a. a_instr a = i) A"
  have "distinct (map (\<lambda>a. snd (the (index ob (a_id a)))) ?B)"
    using levels_relD(1) [OF book_relD(1) [OF R(5) [of i]]] by (simp add: instr_orders_def comp_def)
  moreover have "a \<in> set ?B" "b \<in> set ?B" using a b by auto
  ultimately have "a = b" using a b assms(2,3) by (auto simp: distinct_map inj_on_def)
  then show ?thesis using a b by simp
qed

lemma instr_orders_cong:
  "(\<And>a. a \<in> set A \<Longrightarrow> idx (a_id a) = idx' (a_id a)) \<Longrightarrow> instr_orders idx i A = instr_orders idx' i A"
  by (auto simp: instr_orders_def)

lemma instr_orders_add:
  assumes "oid \<notin> a_id ` set A"
  shows "instr_orders (idx(oid \<mapsto> (i, h))) j
      (A @ [\<lparr>a_id = oid, a_instr = i, a_side = s, a_price = px, a_qty = qty\<rparr>]) =
    (if j = i then spec_add (instr_orders idx i A) h px qty s else instr_orders idx j A)"
proof -
  have "instr_orders (idx(oid \<mapsto> (i, h))) j A = instr_orders idx j A"
    using assms by (intro instr_orders_cong) auto
  then show ?thesis by (simp add: instr_orders_def spec_add_def)
qed

lemma instr_orders_set_qty:
  assumes rel: "ob_rel ob A" and idx: "index ob oid = Some (i, h)"
  shows "instr_orders (index ob) j (a_set_qty A oid qty) =
    (if j = i then spec_set_qty (instr_orders (index ob) i A) h qty else instr_orders (index ob) j A)"
proof -
  note R = ob_relD [OF rel]
  have *: "a_id a = oid \<longleftrightarrow> a_instr a = i \<and> snd (the (index ob (a_id a))) = h" if "a \<in> set A" for a
    using R(3) [OF that] idx handles_inj [OF rel idx, of "a_id a"] by auto
  have sub: "set B \<subseteq> set A \<Longrightarrow> instr_orders (index ob) j (a_set_qty B oid qty) =
    (if j = i then spec_set_qty (instr_orders (index ob) i B) h qty else instr_orders (index ob) j B)" for B
  proof (induction B)
    case (Cons a B)
    then show ?case using * [of a]
      by (auto simp: instr_orders_def a_set_qty_def spec_set_qty_def)
  qed (simp add: instr_orders_def a_set_qty_def spec_set_qty_def)
  then show ?thesis by blast
qed

lemma instr_orders_remove:
  assumes rel: "ob_rel ob A" and idx: "index ob oid = Some (i, h)"
  shows "instr_orders ((index ob)(oid := None)) j (a_remove A oid) =
    (if j = i then spec_cancel (instr_orders (index ob) i A) h else instr_orders (index ob) j A)"
proof -
  note R = ob_relD [OF rel]
  have *: "a_id a = oid \<longleftrightarrow> a_instr a = i \<and> snd (the (index ob (a_id a))) = h" if "a \<in> set A" for a
    using R(3) [OF that] idx handles_inj [OF rel idx, of "a_id a"] by auto
  have sub: "set B \<subseteq> set A \<Longrightarrow> instr_orders (index ob) j (a_remove B oid) =
    (if j = i then spec_cancel (instr_orders (index ob) i B) h else instr_orders (index ob) j B)" for B
  proof (induction B)
    case (Cons a B)
    then show ?case using * [of a]
      by (auto simp: instr_orders_def a_remove_def spec_cancel_def)
  qed (simp add: instr_orders_def a_remove_def spec_cancel_def)
  have "instr_orders ((index ob)(oid := None)) j (a_remove A oid) = instr_orders (index ob) j (a_remove A oid)"
    by (rule instr_orders_cong) (auto simp: a_remove_def)
  then show ?thesis using sub by simp
qed

lemma ob_rel_touch [simp]: "ob_rel (touch i ob) A = ob_rel ob A"
  by (simp add: ob_rel_def)

lemma a_set_qty_ids [simp]: "map a_id (a_set_qty A oid qty) = map a_id A"
  by (simp add: a_set_qty_def)

lemma a_set_qty_id_set [simp]: "a_id ` set (a_set_qty A oid qty) = a_id ` set A"
  by (metis a_set_qty_ids set_map)

lemma a_set_qty_mem: "x \<in> set (a_set_qty A oid qty) \<Longrightarrow> \<exists>a \<in> set A. a_id x = a_id a \<and> a_instr x = a_instr a"
  by (auto simp: a_set_qty_def)

lemma a_remove_set: "set (a_remove A oid) = {a \<in> set A. a_id a \<noteq> oid}"
  by (auto simp: a_remove_def)

lemma ob_set_qty_refines:
  assumes rel: "ob_rel ob A" and idx: "index ob oid = Some (i, h)"
  shows "\<exists>ob'. ob_set_qty ob i h qty = Some ob' \<and> ob_rel ob' (a_set_qty A oid qty) \<and>
    last_instr ob' = last_instr ob"
proof -
  note R = ob_relD [OF rel]
  obtain n where "nodes (book_at ob i) h = Some n" by (rule index_live [OF rel idx])
  then obtain b where b: "set_qty (book_at ob i) h qty = Some b"
      "book_rel b (spec_set_qty (instr_orders (index ob) i A) h qty)"
    using set_qty_refines [OF R(5)] by blast
  have "ob_rel (put_book ob i b) (a_set_qty A oid qty)"
    using R(1-4) R(5) b(2) unfolding ob_rel_def
    by (auto simp: instr_orders_set_qty [OF rel idx] dest!: a_set_qty_mem)
  then show ?thesis using b(1) by (simp add: ob_set_qty_eq put_book_def)
qed

lemma ob_cancel_refines:
  assumes rel: "ob_rel ob A" and idx: "index ob oid = Some (i, h)"
  shows "\<exists>ob'. ob_cancel ob i h = Some ob' \<and> ob_rel (index_remove oid ob') (a_remove A oid) \<and>
    last_instr ob' = last_instr ob \<and>
    ob_cancel (index_remove oid ob) i h = Some (index_remove oid ob')"
proof -
  note R = ob_relD [OF rel]
  obtain n where "nodes (book_at ob i) h = Some n" by (rule index_live [OF rel idx])
  then obtain b where b: "cancel (book_at ob i) h = Some b"
      "book_rel b (spec_cancel (instr_orders (index ob) i A) h)"
    using cancel_refines [OF R(5)] by blast
  have "distinct (map a_id (a_remove A oid))" using R(2) by (simp add: a_remove_def distinct_map_filter)
  then have "ob_rel (index_remove oid (put_book ob i b)) (a_remove A oid)"
    using R(1,3,4) R(5) b(2) unfolding ob_rel_def
    by (auto simp: instr_orders_remove [OF rel idx] a_remove_set)
  moreover have "put_book (index_remove oid ob) i b = index_remove oid (put_book ob i b)"
    by (simp add: put_book_def index_remove_def)
  ultimately show ?thesis using b(1) by (simp add: ob_cancel_eq) (simp add: put_book_def)
qed

lemma a_remove_absent: "oid \<notin> a_id ` set A \<Longrightarrow> a_remove A oid = A"
  by (auto simp: a_remove_def intro!: filter_True)

lemma a_set_qty_absent: "oid \<notin> a_id ` set A \<Longrightarrow> a_set_qty A oid qty = A"
  by (auto simp: a_set_qty_def intro!: map_idI)

lemma a_change_absent: "oid \<notin> a_id ` set A \<Longrightarrow> a_change A oid qty = A"
  by (simp add: a_change_def a_remove_absent a_set_qty_absent)

lemma a_find_mem: "distinct (map a_id A) \<Longrightarrow> a \<in> set A \<Longrightarrow> a_find A (a_id a) = Some a"
  unfolding a_find_def by (induction A) auto

lemma a_find_None: "a_find A oid = None \<longleftrightarrow> oid \<notin> a_id ` set A"
  by (auto simp: a_find_def find_None_iff)

lemma index_None: "ob_rel ob A \<Longrightarrow> index ob oid = None \<longleftrightarrow> oid \<notin> a_id ` set A"
  using ob_relD(4) [of ob A] by auto

lemma apply_add_refines:
  assumes alloc: "slab_alloc alloc" and rel: "ob_rel ob A" and safe: "event_safe ob (Add oid i px qty s)"
  shows "\<exists>ob'. apply_add alloc ob oid i px qty s = Some ob' \<and> last_instr ob' = Some i \<and>
    ob_rel ob' (spec_apply c A (Add oid i px qty s))"
proof -
  note R = ob_relD [OF rel]
  have new: "oid \<notin> a_id ` set A" using safe index_None [OF rel] by simp
  obtain h b where b: "add alloc (book_at ob i) px qty s = Some (h, b)"
      "book_rel b (spec_add (instr_orders (index ob) i A) h px qty s)"
    using add_refines [OF alloc R(5), of px i s qty] safe by auto
  have keep: "((index ob)(oid \<mapsto> (i, h))) (a_id a) = index ob (a_id a)" if "a \<in> set A" for a
    using new that by auto
  have "ob_rel (index_insert oid (i, h) (put_book ob i b)) (spec_apply c A (Add oid i px qty s))"
    unfolding ob_rel_def using R(1-4) R(5) b(2) new
    by (auto simp: instr_orders_add [OF new] keep simp del: fun_upd_apply) simp
  then show ?thesis using b(1) by (simp add: apply_add_eq)
qed

lemma apply_mod_refines:
  assumes rel: "ob_rel ob A"
  shows "\<exists>ob'. apply_mod ob oid qty = Some ob' \<and> ob_rel ob' (a_change A oid qty)"
proof (cases "index ob oid")
  case None
  then show ?thesis
    using rel index_None [OF rel, of oid] by (simp add: apply_mod_def a_change_absent)
next
  case (Some ih)
  obtain i h where ih: "ih = (i, h)" by fastforce
  then show ?thesis
    using ob_set_qty_refines [OF rel, of oid i h qty] ob_cancel_refines [OF rel, of oid i h] Some
    by (auto simp: apply_mod_def a_change_def)
qed

lemma apply_del_refines:
  assumes rel: "ob_rel ob A"
  shows "\<exists>ob'. apply_del ob oid = Some ob' \<and> ob_rel ob' (a_remove A oid)"
proof (cases "index ob oid")
  case None
  then show ?thesis
    using rel index_None [OF rel, of oid] by (simp add: apply_del_def a_remove_absent)
next
  case (Some ih)
  obtain i h where ih: "ih = (i, h)" by fastforce
  then show ?thesis
    using ob_cancel_refines [OF rel, of oid i h] Some by (auto simp: apply_del_def)
qed

lemma consume_maker_refines:
  assumes rel: "ob_rel ob A" and idx: "index ob oid = Some (i, h)" and a: "a_find A oid = Some a"
  shows "\<exists>ob'. consume_maker ob oid i h qty = Some ob' \<and> ob_rel ob' (a_change A oid (i64_sub (a_qty a) qty)) \<and>
    last_instr ob' = last_instr ob"
proof -
  obtain a' n where n: "a' \<in> set A" "a_id a' = oid" "nodes (book_at ob i) h = Some n" "node_qty n = a_qty a'"
    by (rule index_live [OF rel idx])
  then have "a' = a" using a a_find_mem [OF ob_relD(2) [OF rel]] by fastforce
  then show ?thesis
    using n ob_set_qty_refines [OF rel idx, of "i64_sub (a_qty a) qty"] ob_cancel_refines [OF rel idx]
    by (auto simp: consume_maker_eq a_change_def max_def index_remove_def)
qed

lemma apply_trade_refines:
  assumes rel: "ob_rel ob A"
  shows "\<exists>ob'. apply_trade ob i qty maker = Some ob' \<and> last_instr ob' = Some i \<and>
    ob_rel ob' (spec_apply (consume_trades ob) A (Trade i px qty maker taker))"
proof -
  have rel': "ob_rel (touch i ob) A" using rel by simp
  show ?thesis
  proof (cases "consume_trades ob \<and> (\<exists>oid. maker = Some oid \<and> index ob oid \<noteq> None)")
    case True
    then obtain oid mi h where m: "maker = Some oid" "index (touch i ob) oid = Some (mi, h)" by auto
    then obtain a where a: "a_find A oid = Some a"
      using index_None [OF rel', of oid] a_find_None [of A oid] by (cases "a_find A oid") auto
    show ?thesis
      using consume_maker_refines [OF rel' m(2) a, of qty] True m a by (auto simp: apply_trade_def)
  next
    case False
    have "a_find A oid = None" if "index ob oid = None" for oid
      using that index_None [OF rel] a_find_None by metis
    then show ?thesis
      using rel' False by (auto simp: apply_trade_def Let_def split: option.split)
  qed
qed

theorem apply_refines:
  assumes "slab_alloc alloc" "ob_rel ob A" "event_safe ob e"
  shows "\<exists>ob'. apply_event alloc ob e = Some ob' \<and> ob_rel ob' (spec_apply (consume_trades ob) A e)"
proof (cases e)
  case (Add oid i px qty s)
  then show ?thesis using apply_add_refines [OF assms(1,2), of oid i px qty s] assms(3) by auto
next
  case (Trade i px qty maker taker)
  then show ?thesis using apply_trade_refines [OF assms(2), of i qty maker px taker] by (auto simp del: spec_apply.simps)
qed (auto simp: assms(2) apply_mod_refines [OF assms(2)] apply_del_refines [OF assms(2)])

section \<open>Runs from a fresh book\<close>

fun safe_run :: "slab_alloc_fn \<Rightarrow> obook \<Rightarrow> event list \<Rightarrow> bool" where
  "safe_run alloc ob [] \<longleftrightarrow> True"
| "safe_run alloc ob (e # es) \<longleftrightarrow>
     event_safe ob e \<and> (case apply_event alloc ob e of None \<Rightarrow> True | Some ob' \<Rightarrow> safe_run alloc ob' es)"

definition spec_run :: "bool \<Rightarrow> aorder list \<Rightarrow> event list \<Rightarrow> aorder list" where
  "spec_run consume = foldl (spec_apply consume)"

lemma apply_events_refines:
  assumes alloc: "slab_alloc alloc"
  shows "ob_rel ob A \<Longrightarrow> safe_run alloc ob es \<Longrightarrow>
    \<exists>ob'. apply_events alloc ob es = Some ob' \<and> ob_rel ob' (spec_run (consume_trades ob) A es)"
proof (induction es arbitrary: ob A)
  case (Cons e es)
  obtain ob1 where 1: "apply_event alloc ob e = Some ob1" "ob_rel ob1 (spec_apply (consume_trades ob) A e)"
    using apply_refines [OF alloc Cons.prems(1)] Cons.prems(2) by auto
  then show ?case
    using Cons.IH [OF 1(2)] Cons.prems(2) apply_event_consume [OF 1(1)] by (simp add: spec_run_def)
qed (simp add: spec_run_def)

lemma ob_new_with_grid_rel:
  assumes "0 < tick" "0 < span" "tick * (int span + 1) < 2 ^ 62"
  shows "ob_rel (ob_new_with_grid depth ct cap tick span) []"
  using with_params_rel [OF assms] assms
  by (simp add: ob_rel_def ob_new_with_grid_def grid_cfg_ok_def book_at_def instr_orders_def)

lemma ob_new_grid: "ob_new depth = ob_new_with_grid depth False (2 ^ 20) 1 16384"
  "ob_new_with_options depth ct = ob_new_with_grid depth ct (2 ^ 20) 1 16384"
  "ob_new_with_options_and_capacity depth ct cap = ob_new_with_grid depth ct cap 1 16384"
  by (simp_all add: ob_new_def ob_new_with_grid_def ob_new_with_options_def ob_new_with_options_and_capacity_def)

lemma ob_rel_set_consume [simp]: "ob_rel (set_consume_trades v ob) A = ob_rel ob A"
  by (simp add: ob_rel_def set_consume_trades_def grid_cfg_ok_def book_at_def cong: option.case_cong)

section \<open>Queries\<close>

definition a_level :: "aorder list \<Rightarrow> u32 \<Rightarrow> side \<Rightarrow> i64 \<Rightarrow> aorder list" where
  "a_level A i s p = filter (\<lambda>a. a_instr a = i \<and> a_side a = s \<and> a_price a = p) A"

definition a_bbo :: "aorder list \<Rightarrow> u32 \<Rightarrow> side \<Rightarrow> (i64 \<times> i64) option" where
  "a_bbo A i s =
     (let ps = map a_price (filter (\<lambda>a. a_instr a = i \<and> a_side a = s) A) in
      if ps = [] then None
      else let p = (case s of Bid \<Rightarrow> Max (set ps) | Ask \<Rightarrow> Min (set ps))
           in Some (p, i64_wrap (sum_list (map a_qty (a_level A i s p)))))"

lemma a_level_instr [simp]: "filter (\<lambda>a. a_instr a = i) (a_level A i s p) = a_level A i s p"
  by (rule filter_True) (simp add: a_level_def)

lemma queue_instr:
  "queue (instr_orders idx i A) s p = instr_orders idx i (a_level A i s p)"
  unfolding queue_def instr_orders_def a_level_instr
  by (simp add: filter_map a_level_def comp_def conj_commute conj_left_commute)

lemma total_instr: "total_qty (instr_orders idx i (a_level A i s p)) = sum_list (map a_qty (a_level A i s p))"
  by (simp add: total_qty_def instr_orders_def comp_def)

lemma prices_instr:
  "map o_price (filter (\<lambda>ord. o_side ord = s) (instr_orders idx i A)) =
     map a_price (filter (\<lambda>a. a_instr a = i \<and> a_side a = s) A)"
  by (induction A) (auto simp: instr_orders_def)

lemma spec_bbo_instr: "spec_bbo (instr_orders idx i A) s = a_bbo A i s"
  unfolding spec_bbo_def spec_best_def a_bbo_def prices_instr queue_instr total_instr Let_def by simp

lemma book_at_bbo: "ob_rel ob A \<Longrightarrow> ib_bbo (book_at ob i) = (a_bbo A i Bid, a_bbo A i Ask)"
  using ib_bbo_spec [OF ob_relD(5), of ob A i] by (simp add: spec_bbo_instr)

lemma ob_bbo_spec:
  assumes "ob_rel ob A"
  shows "ob_bbo ob = (case last_instr ob of None \<Rightarrow> (None, None) | Some i \<Rightarrow> (a_bbo A i Bid, a_bbo A i Ask))"
proof (cases "last_instr ob")
  case (Some i)
  then show ?thesis
    using book_at_bbo [OF assms, of i]
    by (cases "books ob i") (simp_all add: ob_bbo_def book_at_def ib_bbo_def with_params_def)
qed (simp add: ob_bbo_def)

lemma order_count_spec: "ob_rel ob A \<Longrightarrow> order_count ob = length A"
  using ob_relD(2,4) [of ob A] by (simp add: order_count_def) (metis distinct_card length_map set_map)

lemma instrument_spec:
  assumes rel: "ob_rel ob A"
  shows "instrument_for_order ob oid = map_option a_instr (a_find A oid)"
proof (cases "index ob oid")
  case None
  then have "a_find A oid = None" using index_None [OF rel] a_find_None by metis
  then show ?thesis using None by (simp add: instrument_for_order_def)
next
  case (Some ih)
  obtain i h where ih: "ih = (i, h)" by fastforce
  obtain a where a: "a \<in> set A" "a_id a = oid" "a_instr a = i"
    using index_live [OF rel, of oid i h] Some ih by blast
  then have "a_find A oid = Some a" using a_find_mem [OF ob_relD(2) [OF rel] a(1)] by simp
  then show ?thesis using Some ih a by (simp add: instrument_for_order_def)
qed

section \<open>Properties\<close>

text \<open>
  C5: every event handled by \<open>apply\<close> on a book that represents an abstract list of live orders, with
  an \<open>Add\<close> satisfying \<open>event_safe\<close>, does not panic and leaves a book that represents the list
  after the abstract event: adds append, modifies keep the place in the queue or delete at a
  quantity not above zero, deletes remove, trades reduce the maker order only when
  \<open>consume_trades\<close> is set, and heartbeats change nothing.
\<close>

theorem apply_event_simulates:
  assumes "slab_alloc alloc" "ob_rel ob A" "event_safe ob e"
  shows "\<exists>ob'. apply_event alloc ob e = Some ob' \<and> ob_rel ob' (spec_apply (consume_trades ob) A e)"
  using assms by (rule apply_refines)

theorem apply_event_simulates_witness:
  "\<exists>ob'. apply_event first_free (ob_new 10) (Add 1 7 100 5 Bid) = Some ob' \<and>
     ob_rel ob' [\<lparr>a_id = 1, a_instr = 7, a_side = Bid, a_price = 100, a_qty = 5\<rparr>]"
proof -
  have "ob_rel (ob_new 10) []" using ob_new_with_grid_rel by (simp add: ob_new_grid)
  moreover have "event_safe (ob_new 10) (Add 1 7 100 5 Bid)"
    by (simp add: ob_new_def px_ok_def book_at_def book_add_safe_def with_params_def add_safe_def)
  ultimately show ?thesis
    using apply_event_simulates [OF first_free_alloc, of "ob_new 10" "[]" "Add 1 7 100 5 Bid"] by simp
qed

text \<open>
  C14: the batched \<open>apply_many_for_instr\<close> gives the same book as applying the events one by one
  with \<open>apply\<close>, for every book, instrument and event list, panics included.
\<close>

theorem apply_many_is_apply: "apply_many_for_instr alloc ob instr es = apply_events alloc ob es"
  by (simp add: apply_many_for_instr_def many_loop_apply)

definition returning_price :: "event list" where
  "returning_price = [Add 1 7 100 5 Bid, Add 2 7 200 1 Bid, Add 3 7 100 7 Bid, Del 2]"



end
