(* ===== verification/Window_Safety.thy ===== *)
theory Window_Safety
  imports Order_Book
begin

text \<open>
  When does every \<open>add\<close> find its level? Here: when, per instrument and side, the prices stay in a
  band narrower than half the grid (\<open>band_ok\<close>). The first on-tick price of a side centres the window,
  the window then contains the whole band and is never moved, so the overflow map only ever
  holds off-tick prices. This turns the run-time condition \<open>safe_run\<close> into a condition on the
  input events alone.
\<close>

definition calm :: "grid \<Rightarrow> level btree \<Rightarrow> i64 \<Rightarrow> i64 \<Rightarrow> bool" where
  "calm g ovf lo hi \<longleftrightarrow>
     hi - lo < grid_tick g * int (length (grid_slots g) div 2) \<and>
     (\<forall>p. bt_get ovf p \<noteq> None \<longrightarrow> \<not> grid_tick g dvd p) \<and>
     (grid_initialized g \<longrightarrow> (\<forall>p. lo \<le> p \<and> p \<le> hi \<and> grid_tick g dvd p \<longrightarrow> in_window g p))"

definition book_calm :: "ibook \<Rightarrow> (side \<Rightarrow> i64 \<times> i64) \<Rightarrow> bool" where
  "book_calm b W \<longleftrightarrow> (\<forall>s. calm (side_grid b s) (side_ovf b s) (fst (W s)) (snd (W s)))"

text \<open>The bands of all instruments; every \<open>Add\<close> of the stream must lie in its band.\<close>

type_synonym bands = "u32 \<Rightarrow> side \<Rightarrow> i64 \<times> i64"

fun event_in :: "bands \<Rightarrow> event \<Rightarrow> bool" where
  "event_in W (Add oid i px qty s) \<longleftrightarrow> fst (W i s) \<le> px \<and> px \<le> snd (W i s) \<and> px_ok px"
| "event_in W _ \<longleftrightarrow> True"

text \<open>No id is added while it is live, replaying the abstract book.\<close>

fun ids_fresh :: "bool \<Rightarrow> aorder list \<Rightarrow> event list \<Rightarrow> bool" where
  "ids_fresh c A [] \<longleftrightarrow> True"
| "ids_fresh c A (e # es) \<longleftrightarrow>
     (case e of Add oid i px qty s \<Rightarrow> oid \<notin> a_id ` set A | _ \<Rightarrow> True) \<and> ids_fresh c (spec_apply c A e) es"

definition band_ok :: "obook \<Rightarrow> bands \<Rightarrow> bool" where
  "band_ok ob W \<longleftrightarrow> (\<forall>i s. snd (W i s) - fst (W i s) < ob_grid_tick ob * int (ob_grid_span ob div 2))"

section \<open>One side\<close>

definition same_shape :: "grid \<Rightarrow> grid \<Rightarrow> bool" where
  "same_shape g g' \<longleftrightarrow>
     grid_initialized g' = grid_initialized g \<and> grid_start_price g' = grid_start_price g \<and>
     grid_tick g' = grid_tick g \<and> length (grid_slots g') = length (grid_slots g)"

lemma calm_shape:
  assumes "calm g ovf lo hi" "same_shape g g'"
    "\<And>p. bt_get ovf' p \<noteq> None \<Longrightarrow> bt_get ovf p \<noteq> None \<or> \<not> grid_tick g dvd p"
  shows "calm g' ovf' lo hi"
proof -
  have "in_window g' p = in_window g p" for p using assms(2) by (simp add: same_shape_def in_window_def)
  then show ?thesis using assms by (simp add: calm_def same_shape_def) blast
qed

lemma calm_add_safe: "calm g ovf lo hi \<Longrightarrow> add_safe g ovf p"
  by (auto simp: calm_def add_safe_def)

lemma write_ref_calm:
  assumes "side_wf g ovf" "ref_at g ovf r p" "write_ref g ovf r l = (g', ovf')" "calm g ovf lo hi"
  shows "calm g' ovf' lo hi"
  using assms(4)
proof (rule calm_shape)
  show "same_shape g g'"
    using assms(3) by (auto simp: write_ref_def same_shape_def split: level_ref.splits)
  show "bt_get ovf' q \<noteq> None \<Longrightarrow> bt_get ovf q \<noteq> None \<or> \<not> grid_tick g dvd q" for q
    using assms(1-3) by (auto simp: write_ref_def ref_at_def side_wf_def bt_get_insert split: level_ref.splits if_splits)
qed

lemma create_in_grid_shape:
  assumes "create_in_grid g ovf p = Some (g', ovf', r)" "grid_initialized g"
  shows "same_shape g g' \<and> ovf' = ovf"
  using assms by (auto simp: create_in_grid_def get_mut_or_create_def same_shape_def bind_Some_iff split: option.splits)

text \<open>Centring the window on a price of the band makes it contain the band.\<close>

lemma init_around_window:
  assumes wf: "grid_wf g" and px: "px_ok p" and dvd: "grid_tick g dvd p" and init: "init_around g p = Some g'"
    and near: "\<bar>q - p\<bar> < grid_tick g * int (length (grid_slots g) div 2)" and q: "grid_tick g dvd q"
  shows "in_window g' q"
proof -
  define t where "t = grid_tick g"
  define n where "n = length (grid_slots g)"
  define k where "k = int (n div 2) * t"
  have t: "0 < t" and span: "t * (int n + 1) < 2 ^ 62" using wf by (simp_all add: grid_wf_def t_def n_def)
  have k0: "0 \<le> k" using t by (simp add: k_def)
  have "2 * int (n div 2) \<le> int n" by simp
  then have k2: "2 * k \<le> int n * t" using t unfolding k_def by (metis mult.assoc mult_right_mono order_less_imp_le)
  moreover have "t * (int n + 1) = int n * t + t" by (simp add: algebra_simps)
  ultimately have k1: "2 * k < 2 ^ 62" using span t by linarith
  have ok: "i64_ok p" "i64_ok k" "i64_ok (p - k)" using px k0 k1 by (simp_all add: i64_ok_def px_ok_def)
  have pm: "p mod t = 0" using dvd by (simp add: t_def)
  have g': "g' = g\<lparr>grid_start_price := p - k, grid_initialized := True\<rparr>"
    using init t ok unfolding init_around_def
    by (simp add: i64_sub_def i64_mul_def pm t_def [symmetric] n_def [symmetric] k_def [symmetric])
  have near': "\<bar>q - p\<bar> < k" using near by (simp add: k_def n_def t_def mult.commute)
  have "q - (p - k) < int n * t" using near' k2 by linarith
  moreover have "(q - (p - k)) div t * t \<le> q - (p - k)"
    using pos_mod_sign [OF t, of "q - (p - k)"] div_mult_mod_eq [of "q - (p - k)" t] by linarith
  ultimately have "(q - (p - k)) div t * t < int n * t" by linarith
  then have "(q - (p - k)) div t < int n" using t by (simp add: mult_less_cancel_right)
  moreover have "t dvd q - (p - k)" using q dvd by (simp add: t_def [symmetric] k_def)
  ultimately show ?thesis
    using near' by (simp add: g' in_window_def t_def [symmetric] n_def [symmetric])
qed

lemma ensure_calm:
  assumes wf: "grid_wf g" and bw: "bt_wf ovf" and px: "px_ok p" and calm: "calm g ovf lo hi" and p: "lo \<le> p" "p \<le> hi"
    and ens: "ensure_level_mut_in_grid g ovf p = Some (g', ovf', r)"
  shows "calm g' ovf' lo hi"
proof (cases "grid_tick g dvd p")
  case False
  then have "g' = g" "ovf' = bt_or_insert p level_default ovf"
    using ensure_off_tick [OF wf px] ens by (auto simp: create_in_overflow_def)
  moreover have "same_shape g g" by (simp add: same_shape_def)
  moreover have "bt_get (bt_or_insert p level_default ovf) x \<noteq> None \<Longrightarrow> bt_get ovf x \<noteq> None \<or> \<not> grid_tick g dvd x" for x
    using False by (auto simp: bt_get_or_insert [OF bw] split: if_splits)
  ultimately show ?thesis using calm_shape [OF calm] by metis
next
  case dvd: True
  show ?thesis
  proof (cases "grid_initialized g")
    case True
    then have win: "in_window g p" using calm p dvd by (simp add: calm_def)
    have "create_in_grid g ovf p = Some (g', ovf', r)" using ens ensure_in_window [OF wf px win, of ovf] by simp
    then show ?thesis using create_in_grid_shape [OF _ True] calm_shape [OF calm] by metis
  next
    case False
    then have none: "\<forall>l \<in> set (grid_slots g). l = None" using wf by (simp add: grid_wf_def)
    then have slots: "map (\<lambda>_. None) (grid_slots g) = grid_slots g" by (intro map_idI) auto
    obtain g1 where g1: "init_around g p = Some g1" "grid_wf g1" "grid_tick g1 = grid_tick g"
        "grid_slots g1 = grid_slots g" "grid_initialized g1" "in_window g1 p"
      using init_around_eq [OF wf px none] dvd by auto
    have "recenter_grid g ovf p = Some (g1, ovf)"
      using g1(1) recenter_move_None [OF none] slots by (simp add: recenter_grid_def)
    then have c: "create_in_grid g1 ovf p = Some (g', ovf', r)"
      using ens dvd grid_wf_tick [OF wf] False price_to_idx_eq [OF g1(2) px] price_to_idx_eq [OF wf px] g1(6)
      by (simp add: ensure_level_mut_in_grid_def in_window_def split: if_splits)
    have "in_window g1 q" if "lo \<le> q" "q \<le> hi" "grid_tick g dvd q" for q
      using calm p that by (intro init_around_window [OF wf px dvd g1(1)]) (auto simp: calm_def)
    then have "calm g1 ovf lo hi" using calm g1(3,4) by (simp add: calm_def)
    then show ?thesis using create_in_grid_shape [OF c g1(5)] calm_shape by metis
  qed
qed

lemma grid_remove_shape: "grid_remove g p = Some (g', x) \<Longrightarrow> same_shape g g'"
  unfolding grid_remove_def same_shape_def bind_Some_iff
  by (elim exE conjE) (auto split: option.splits if_splits)

lemma remove_if_empty_calm:
  assumes "levels_remove_if_empty g ovf p = Some (g', ovf', x)" "calm g ovf lo hi"
  shows "calm g' ovf' lo hi"
proof -
  obtain g1 y where g1: "grid_remove g p = Some (g1, y)"
      "(if y then (g1, ovf, True)
        else case bt_get ovf p of
             Some l \<Rightarrow> if level_is_empty l then (g1, bt_remove p ovf, True) else (g1, ovf, False)
           | None \<Rightarrow> (g1, ovf, False)) = (g', ovf', x)"
    using assms(1) by (auto simp: levels_remove_if_empty_def bind_Some_iff)
  then have "g' = g1" "ovf' = ovf \<or> ovf' = bt_remove p ovf" by (auto split: if_splits option.splits)
  moreover have "same_shape g g1" using grid_remove_shape [OF g1(1)] .
  moreover have "bt_get ovf' q \<noteq> None \<Longrightarrow> bt_get ovf q \<noteq> None" for q
    using calculation(2) by (auto simp: bt_get_remove split: if_splits)
  ultimately show ?thesis using calm_shape [OF assms(2), of g1 ovf'] by blast
qed

section \<open>The book and the runs\<close>

lemma calm_best_frame [simp]:
  "book_calm (set_best b s p q) W = book_calm b W"
  "book_calm (b\<lparr>ib_orders := x\<rparr>) W = book_calm b W"
  "book_calm (best_after_add b s px t) W = book_calm b W"
  "book_calm (recompute_best_after_removal b s) W = book_calm b W"
  by (simp_all add: book_calm_def best_after_add_def recompute_best_after_removal_def split: option.split prod.split)

lemma book_calm_set_side:
  "book_calm b W \<Longrightarrow> calm g ovf (fst (W s)) (snd (W s)) \<Longrightarrow> book_calm (set_side b s g ovf) W"
  by (simp add: book_calm_def)

lemma add_calm:
  assumes rel: "book_rel b os" and px: "px_ok price" and calm: "book_calm b W"
    and p: "fst (W s) \<le> price" "price \<le> snd (W s)" and add: "add alloc b price qty s = Some (h, b')"
  shows "book_calm b' W"
proof -
  note R = book_relD [OF rel]
  have cs: "calm (side_grid b s) (side_ovf b s) (fst (W s)) (snd (W s))" using calm by (simp add: book_calm_def)
  obtain g ovf r where E: "ensure_level_mut_in_grid (side_grid b s) (side_ovf b s) price = Some (g, ovf, r)"
      "side_wf g ovf" "grid_tick g = grid_tick (side_grid b s)" "ref_at g ovf r price"
      "\<forall>q. r = InOverflow q \<longrightarrow> \<not> grid_tick (side_grid b s) dvd price"
    using ensure_level_law [OF R(3) _ px calm_add_safe [OF cs]] R(5) by (metis bview_def)
  have cg: "calm g ovf (fst (W s)) (snd (W s))"
    using ensure_calm [OF side_wfD(1,2) [OF R(3)] px cs p E(1)] .
  have again: "ensure_level_mut_in_grid g ovf price = Some (g, ovf, r)"
    using ensure_again [OF E(2) px E(4)] E(3,5) by simp
  have wr: "book_calm (write_level (set_side c s g ovf) s r l) W" if "book_calm c W" for c l
    using write_ref_calm [OF E(2,4) _ cg, of l] that
    by (auto simp: write_level_def intro!: book_calm_set_side cg split: prod.split)
  have orders: "(set_side c s g ovf)\<lparr>ib_orders := y\<rparr> = set_side (c\<lparr>ib_orders := y\<rparr>) s g ovf"
    "set_side (set_side c s g ovf) s g ovf = set_side c s g ovf" for c y
    by (cases s; simp)+
  show ?thesis
    using add calm wr
    by (auto simp: add_def Let_def ensure_level_mut_def E(1) again bind_Some_iff orders
        simp del: ex_simps split: prod.splits)
qed

lemma found_level_calm:
  assumes wf: "sides_wf b" and px: "px_ok p" and calm: "book_calm b W"
    and r: "get_level_mut b s p = Some (Some r)"
  shows "book_calm (write_level b s r l) W"
proof -
  have sw: "side_wf (side_grid b s) (side_ovf b s)" using wf by (simp add: sides_wf_def)
  have "ref_at (side_grid b s) (side_ovf b s) r p"
    using levels_get_mut_eq [OF sw px] r by (auto simp: get_level_mut_def split: option.splits)
  then show ?thesis
    using write_ref_calm [OF sw, of r p l] calm
    by (auto simp: write_level_def book_calm_def intro!: book_calm_set_side split: prod.split)
qed

lemma remove_level_calm:
  "remove_level_if_empty b s p = Some (b', x) \<Longrightarrow> book_calm b W \<Longrightarrow> book_calm b' W"
  by (auto simp: remove_level_if_empty_def bind_Some_iff book_calm_def dest!: remove_if_empty_calm)

lemma live_price:
  assumes "book_rel b os" "nodes b h = Some n"
  shows "px_ok (node_price n)"
  using levels_rel_live [OF book_relD(1) [OF assms(1)] assms(2)] levels_relD(5) [OF book_relD(1) [OF assms(1)]]
  by metis

lemma set_qty_calm:
  assumes rel: "book_rel b os" and h: "nodes b h = Some n" and calm: "book_calm b W"
    and sq: "set_qty b h qty = Some b'"
  shows "book_calm b' W"
proof -
  have "book_calm (write_level (b\<lparr>ib_orders := x\<rparr>) (node_side n) r l) W"
    if "get_level_mut b (node_side n) (node_price n) = Some (Some r)" for x r l
    using found_level_calm [OF _ live_price [OF rel h]] book_relD(2) [OF rel] calm that by simp
  then show ?thesis
    using sq h calm
    by (auto simp: set_qty_def Let_def bind_Some_iff slab_index_def split: option.splits if_splits)
qed

lemma cancel_calm:
  assumes rel: "book_rel b os" and h: "nodes b h = Some n" and calm: "book_calm b W"
    and c: "cancel b h = Some b'"
  shows "book_calm b' W"
proof -
  obtain sl2 sl3 r l c' where D: "get_level_mut b (node_side n) (node_price n) = Some (Some r)"
      "cancel_levels (b\<lparr>ib_orders := sl2\<rparr>) n r (level_take l n) = Some c'" "b' = c'\<lparr>ib_orders := sl3\<rparr>"
    using cancel_decomp [OF rel h] c by (metis option.inject)
  have "book_calm (write_level (b\<lparr>ib_orders := sl2\<rparr>) (node_side n) r (level_take l n)) W"
    using found_level_calm [OF _ live_price [OF rel h]] book_relD(2) [OF rel] calm D(1) by simp
  then have "book_calm c' W"
    using D(2) by (auto simp: cancel_levels_def Let_def split: if_splits dest: remove_level_calm)
  then show ?thesis by (simp add: D(3))
qed

definition ob_calm :: "obook \<Rightarrow> bands \<Rightarrow> bool" where
  "ob_calm ob W \<longleftrightarrow> (\<forall>i. book_calm (book_at ob i) (W i))"

lemma ob_calm_simps [simp]:
  "ob_calm (touch i ob) W = ob_calm ob W" "ob_calm (index_remove oid ob) W = ob_calm ob W"
  "ob_calm (index_insert oid x ob) W = ob_calm ob W"
  by (simp_all add: ob_calm_def)

lemma ob_calm_put: "ob_calm ob W \<Longrightarrow> book_calm b (W i) \<Longrightarrow> ob_calm (put_book ob i b) W"
  by (simp add: ob_calm_def)

lemma ob_set_qty_calm:
  assumes "ob_rel ob A" "index ob oid = Some (i, h)" "ob_calm ob W" "ob_set_qty ob i h q = Some ob'"
  shows "ob_calm ob' W"
proof -
  obtain n where "nodes (book_at ob i) h = Some n" by (rule index_live [OF assms(1,2)])
  then show ?thesis
    using set_qty_calm [OF ob_relD(5) [OF assms(1)]] assms(3,4)
    by (auto simp: ob_set_qty_eq ob_calm_def intro!: ob_calm_put)
qed

lemma ob_cancel_calm:
  assumes "ob_rel ob A" "index ob oid = Some (i, h)" "ob_calm ob W"
    "ob_cancel ob i h = Some ob' \<or> ob_cancel (index_remove oid ob) i h = Some ob'"
  shows "ob_calm ob' W"
proof -
  obtain n where "nodes (book_at ob i) h = Some n" by (rule index_live [OF assms(1,2)])
  then show ?thesis
    using cancel_calm [OF ob_relD(5) [OF assms(1)]] assms(3,4)
    by (auto simp: ob_cancel_eq ob_calm_def intro!: ob_calm_put)
qed

lemma consume_maker_calm:
  assumes "ob_rel ob A" "index ob oid = Some (i, h)" "ob_calm ob W" "consume_maker ob oid i h q = Some ob'"
  shows "ob_calm ob' W"
  using assms(4) ob_set_qty_calm [OF assms(1-3)] ob_cancel_calm [OF assms(1-3)]
  by (auto simp: consume_maker_eq Let_def bind_Some_iff split: if_splits)

lemma apply_event_calm:
  assumes rel: "ob_rel ob A" and calm: "ob_calm ob W" and ev: "event_in W e"
    and ap: "apply_event alloc ob e = Some ob'"
  shows "ob_calm ob' W"
proof (cases e)
  case (Add oid i px qty s)
  then obtain h b where "add alloc (book_at ob i) px qty s = Some (h, b)"
      "ob' = touch i (index_insert oid (i, h) (put_book ob i b))"
    using ap by (auto simp: apply_add_eq)
  moreover have "book_calm b (W i)"
    using add_calm [OF ob_relD(5) [OF rel] _ _ _ _ calculation(1)] ev calm Add by (simp add: ob_calm_def)
  ultimately show ?thesis using calm by (simp add: ob_calm_put)
next
  case (Mod oid qty)
  then show ?thesis
    using ap calm ob_set_qty_calm [OF rel _ calm, of oid] ob_cancel_calm [OF rel _ calm, of oid]
    by (auto simp: apply_mod_def split: option.splits if_splits)
next
  case (Del oid)
  then show ?thesis
    using ap calm ob_cancel_calm [OF rel _ calm, of oid] by (auto simp: apply_del_def split: option.splits)
next
  case (Trade i px qty maker taker)
  have "ob_rel (touch i ob) A" "ob_calm (touch i ob) W" using rel calm by simp_all
  then show ?thesis
    using ap Trade consume_maker_calm [of "touch i ob" A]
    by (auto simp: apply_trade_def Let_def split: option.splits if_splits)
qed (use ap calm in auto)

text \<open>Events in their bands with fresh ids make a safe run.\<close>

lemma band_safe_run:
  assumes alloc: "slab_alloc alloc"
  shows "ob_rel ob A \<Longrightarrow> ob_calm ob W \<Longrightarrow> list_all (event_in W) es \<Longrightarrow>
    ids_fresh (consume_trades ob) A es \<Longrightarrow> safe_run alloc ob es"
proof (induction es arbitrary: ob A)
  case (Cons e es)
  have safe: "event_safe ob e"
  proof (cases e)
    case (Add oid i px qty s)
    then show ?thesis
      using Cons.prems index_None [OF Cons.prems(1), of oid]
      by (auto simp: book_add_safe_def ob_calm_def book_calm_def intro: calm_add_safe)
  qed auto
  obtain ob1 where 1: "apply_event alloc ob e = Some ob1" "ob_rel ob1 (spec_apply (consume_trades ob) A e)"
    using apply_refines [OF alloc Cons.prems(1) safe] by blast
  moreover have "ob_calm ob1 W" using apply_event_calm [OF Cons.prems(1,2) _ 1(1)] Cons.prems(3) by simp
  ultimately have "safe_run alloc ob1 es"
    using Cons.IH [OF 1(2)] Cons.prems(3,4) apply_event_consume [OF 1(1)] by simp
  then show ?case using safe 1(1) by simp
qed simp

lemma ob_new_calm:
  assumes "band_ok (ob_new_with_grid depth ct cap tick span) W"
  shows "ob_calm (ob_new_with_grid depth ct cap tick span) W"
proof -
  have "calm (side_grid (with_params tick span) s) (side_ovf (with_params tick span) s) (fst (W i s)) (snd (W i s))" for i s
    using assms
    by (cases s) (auto simp: band_ok_def ob_new_with_grid_def calm_def with_params_def grid_new_def)
  then show ?thesis by (simp add: ob_calm_def book_calm_def book_at_def ob_new_with_grid_def)
qed

lemma banded_run:
  assumes "slab_alloc alloc" "0 < tick" "0 < span" "tick * (int span + 1) < 2 ^ 62"
    and "band_ok (ob_new_with_grid depth ct cap tick span) W" "list_all (event_in W) es" "ids_fresh ct [] es"
  shows "\<exists>ob. apply_events alloc (ob_new_with_grid depth ct cap tick span) es = Some ob \<and> ob_rel ob (spec_run ct [] es)"
proof -
  let ?ob = "ob_new_with_grid depth ct cap tick span"
  have ct: "consume_trades ?ob = ct" by (simp add: ob_new_with_grid_def)
  have rel: "ob_rel ?ob []" using ob_new_with_grid_rel [OF assms(2-4)] .
  have "safe_run alloc ?ob es"
    using band_safe_run [OF assms(1) rel ob_new_calm [OF assms(5)] assms(6)] assms(7) ct by simp
  then show ?thesis using apply_events_refines [OF assms(1) rel] ct by simp
qed

section \<open>Properties\<close>

text \<open>
  C2: a fresh order book fed any event stream whose \<open>Add\<close>s reuse no live order id and stay, per
  instrument and side, within a band narrower than half the grid never panics, and afterwards its
  best bid and offer, its order count and the instrument of every order are those of the
  abstract price-time book that results from replaying the same events.
\<close>

theorem order_book_correct:
  assumes "slab_alloc alloc" "0 < tick" "0 < span" "tick * (int span + 1) < 2 ^ 62"
    and "band_ok (ob_new_with_grid depth ct cap tick span) W" "list_all (event_in W) es" "ids_fresh ct [] es"
  shows "\<exists>ob. apply_events alloc (ob_new_with_grid depth ct cap tick span) es = Some ob \<and>
    ob_bbo ob = (case last_instr ob of None \<Rightarrow> (None, None)
      | Some i \<Rightarrow> (a_bbo (spec_run ct [] es) i Bid, a_bbo (spec_run ct [] es) i Ask)) \<and>
    order_count ob = length (spec_run ct [] es) \<and>
    (\<forall>oid. instrument_for_order ob oid = map_option a_instr (a_find (spec_run ct [] es) oid))"
proof -
  obtain ob where ob: "apply_events alloc (ob_new_with_grid depth ct cap tick span) es = Some ob"
      "ob_rel ob (spec_run ct [] es)"
    using banded_run [OF assms] by blast
  show ?thesis
    using ob ob_bbo_spec [OF ob(2)] order_count_spec [OF ob(2)] instrument_spec [OF ob(2)] by blast
qed

theorem order_book_correct_witness:
  "\<exists>ob. apply_events first_free (ob_new_with_grid 10 True 16 1 64)
       [Add 1 7 100 5 Bid, Add 2 7 101 6 Bid, Add 3 7 101 4 Bid, Trade 7 101 2 (Some 2) None, Del 1] = Some ob \<and>
     order_count ob = 2 \<and> instrument_for_order ob 3 = Some 7"
proof -
  let ?es = "[Add 1 7 100 5 Bid, Add 2 7 101 6 Bid, Add 3 7 101 4 Bid, Trade 7 101 2 (Some 2) None, Del 1]"
  have "band_ok (ob_new_with_grid 10 True 16 1 64) (\<lambda>_ _. (90, 110))"
    by (simp add: band_ok_def ob_new_with_grid_def)
  moreover have "list_all (event_in (\<lambda>_ _. (90, 110))) ?es" by (simp add: px_ok_def)
  moreover have "ids_fresh True [] ?es" by (simp add: a_change_def a_set_qty_def a_find_def i64_sub_def i64_wrap_def)
  moreover have "length (spec_run True [] ?es) = 2 \<and> map_option a_instr (a_find (spec_run True [] ?es) 3) = Some 7"
    by code_simp
  ultimately show ?thesis
    using order_book_correct [OF first_free_alloc, of 1 64 10 True 16 "\<lambda>_ _. (90, 110)" ?es] by auto
qed

end
