(* ===== verification/Book_Export.thy ===== *)
theory Book_Export
  imports Order_Book "HOL-Library.Multiset"
begin

text \<open>
  Snapshot export and import of \<open>OrderBook\<close> (\<open>export\<close>, \<open>from_export\<close>, \<open>export_depth\<close> of
  \<open>src/src/orderbook.rs\<close>).

  The iteration order of \<open>hashbrown::HashMap\<close> is not part of the repository: it is the parameter
  \<open>iter\<close> of the operations, with the law \<open>hm_iter\<close> that each key is visited exactly once.

  The round trip: importing an export gives a book with the same live orders and the same queue
  at every instrument, side and price. The import never meets the split-level defect, because the
  export lists the orders of a level contiguously (\<open>contig\<close>).
\<close>

record order_export =
  oe_order_id :: u64
  oe_price :: i64
  oe_qty :: i64
  oe_side :: side

record instrument_export =
  ie_instr :: u32
  ie_orders :: "order_export list"

record book_export =
  be_version :: u32
  be_instruments :: "instrument_export list"

record instrument_depth =
  id_instr :: u32
  id_bids :: "(i64 \<times> i64) list"
  id_asks :: "(i64 \<times> i64) list"

record depth_export =
  de_version :: u32
  de_instruments :: "instrument_depth list"

definition hm_iter :: "(('k \<rightharpoonup> 'v) \<Rightarrow> 'k list) \<Rightarrow> bool" where
  "hm_iter iter \<longleftrightarrow> (\<forall>m. finite (dom m) \<longrightarrow> distinct (iter m) \<and> set (iter m) = dom m)"

text \<open>The reverse map from \<open>(instrument, handle)\<close> to the order id.\<close>

definition handle_to_id ::
    "((u64 \<rightharpoonup> u32 \<times> handle) \<Rightarrow> u64 list) \<Rightarrow> (u64 \<rightharpoonup> u32 \<times> handle) \<Rightarrow> u32 \<times> handle \<rightharpoonup> u64" where
  "handle_to_id iter idx =
     foldl (\<lambda>m oid. case idx oid of Some ih \<Rightarrow> m(ih \<mapsto> oid) | None \<Rightarrow> m) Map.empty (iter idx)"

fun export_handles ::
    "(u32 \<times> handle \<rightharpoonup> u64) \<Rightarrow> u32 \<Rightarrow> slab \<Rightarrow> i64 \<Rightarrow> side \<Rightarrow> handle list \<Rightarrow> order_export list option" where
  "export_handles ids i sl price s [] = Some []"
| "export_handles ids i sl price s (h # hs) = do {
     n \<leftarrow> slab_index sl h;
     rest \<leftarrow> export_handles ids i sl price s hs;
     Some (case ids (i, h) of
             Some oid \<Rightarrow> \<lparr>oe_order_id = oid, oe_price = price, oe_qty = node_qty n, oe_side = s\<rparr> # rest
           | None \<Rightarrow> rest)
   }"

fun export_levels ::
    "(u32 \<times> handle \<rightharpoonup> u64) \<Rightarrow> u32 \<Rightarrow> slab \<Rightarrow> side \<Rightarrow> (i64 \<times> level) list \<Rightarrow> order_export list option" where
  "export_levels ids i sl s [] = Some []"
| "export_levels ids i sl s ((p, l) # ls) = do {
     hs \<leftarrow> iter_fifo l sl;
     xs \<leftarrow> export_handles ids i sl p s hs;
     ys \<leftarrow> export_levels ids i sl s ls;
     Some (xs @ ys)
   }"

definition export_book :: "(u32 \<times> handle \<rightharpoonup> u64) \<Rightarrow> u32 \<Rightarrow> ibook \<Rightarrow> instrument_export option" where
  "export_book ids i b = do {
     bids \<leftarrow> export_levels ids i (ib_orders b) Bid (side_levels b Bid);
     asks \<leftarrow> export_levels ids i (ib_orders b) Ask (side_levels b Ask);
     Some \<lparr>ie_instr = i, ie_orders = bids @ asks\<rparr>
   }"

fun export_books :: "(u32 \<times> handle \<rightharpoonup> u64) \<Rightarrow> (u32 \<rightharpoonup> ibook) \<Rightarrow> u32 list \<Rightarrow> instrument_export list option" where
  "export_books ids bs [] = Some []"
| "export_books ids bs (i # is) = do {
     b \<leftarrow> bs i;
     x \<leftarrow> export_book ids i b;
     xs \<leftarrow> export_books ids bs is;
     Some (x # xs)
   }"

definition export ::
    "((u64 \<rightharpoonup> u32 \<times> handle) \<Rightarrow> u64 list) \<Rightarrow> ((u32 \<rightharpoonup> ibook) \<Rightarrow> u32 list) \<Rightarrow> obook \<Rightarrow> book_export option" where
  "export iter_idx iter_books ob =
     map_option (\<lambda>xs. \<lparr>be_version = 1, be_instruments = xs\<rparr>)
       (export_books (handle_to_id iter_idx (index ob)) (books ob) (iter_books (books ob)))"

definition import_order :: "slab_alloc_fn \<Rightarrow> u32 \<Rightarrow> obook \<Rightarrow> order_export \<Rightarrow> obook option" where
  "import_order alloc i ob x = do {
     let (ob, b) = book_mut ob i;
     (h, b) \<leftarrow> add alloc b (oe_price x) (oe_qty x) (oe_side x);
     Some (index_insert (oe_order_id x) (i, h) (put_book ob i b))
   }"

fun import_orders :: "slab_alloc_fn \<Rightarrow> u32 \<Rightarrow> obook \<Rightarrow> order_export list \<Rightarrow> obook option" where
  "import_orders alloc i ob [] = Some ob"
| "import_orders alloc i ob (x # xs) = Option.bind (import_order alloc i ob x) (\<lambda>ob. import_orders alloc i ob xs)"

fun import_instruments :: "slab_alloc_fn \<Rightarrow> obook \<Rightarrow> instrument_export list \<Rightarrow> obook option" where
  "import_instruments alloc ob [] = Some ob"
| "import_instruments alloc ob (x # xs) =
     Option.bind (import_orders alloc (ie_instr x) ob (ie_orders x))
       (\<lambda>ob. import_instruments alloc (touch (ie_instr x) ob) xs)"

definition from_export :: "slab_alloc_fn \<Rightarrow> book_export \<Rightarrow> obook option" where
  "from_export alloc e = import_instruments alloc (ob_new 10) (be_instruments e)"

fun depth_books :: "(u32 \<rightharpoonup> ibook) \<Rightarrow> nat \<Rightarrow> u32 list \<Rightarrow> instrument_depth list" where
  "depth_books bs n [] = []"
| "depth_books bs n (i # is) =
     (case bs i of
        Some b \<Rightarrow> \<lparr>id_instr = i, id_bids = fst (top_n b n), id_asks = snd (top_n b n)\<rparr> # depth_books bs n is
      | None \<Rightarrow> depth_books bs n is)"

definition export_depth :: "((u32 \<rightharpoonup> ibook) \<Rightarrow> u32 list) \<Rightarrow> obook \<Rightarrow> nat \<Rightarrow> depth_export" where
  "export_depth iter_books ob n = \<lparr>de_version = 1, de_instruments = depth_books (books ob) n (iter_books (books ob))\<rparr>"

section \<open>The reverse map\<close>

lemma handle_to_id_fold:
  assumes inj: "\<And>x y ih. idx x = Some ih \<Longrightarrow> idx y = Some ih \<Longrightarrow> x = y"
  shows "foldl (\<lambda>m oid. case idx oid of Some ih \<Rightarrow> m(ih \<mapsto> oid) | None \<Rightarrow> m) m0 xs ih =
    (if \<exists>oid \<in> set xs. idx oid = Some ih then Some (THE oid. idx oid = Some ih) else m0 ih)"
proof (induction xs arbitrary: m0)
  case (Cons x xs)
  have the: "(THE oid. idx oid = Some ih) = oid" if "idx oid = Some ih" for oid
    using that inj by (intro the_equality) auto
  show ?case using Cons.IH the by (cases "idx x") (auto split: if_splits)
qed simp

lemma handle_to_id_eq:
  assumes iter: "hm_iter iter" and rel: "ob_rel ob A" and idx: "index ob oid = Some (i, h)"
  shows "handle_to_id iter (index ob) (i, h) = Some oid"
proof -
  have "finite (dom (index ob))" using ob_relD(4) [OF rel] by simp
  then have "oid \<in> set (iter (index ob))" using iter idx by (auto simp: hm_iter_def)
  moreover have "(THE x. index ob x = Some (i, h)) = oid"
    using idx handles_inj [OF rel] by (intro the_equality) auto
  moreover have "\<And>x y ih. index ob x = Some ih \<Longrightarrow> index ob y = Some ih \<Longrightarrow> x = y"
    using handles_inj [OF rel] by (metis surj_pair)
  ultimately show ?thesis
    using idx handle_to_id_fold [of "index ob" Map.empty "iter (index ob)" "(i, h)"]
    unfolding handle_to_id_def by auto
qed

section \<open>What is exported\<close>

definition to_export :: "aorder \<Rightarrow> order_export" where
  "to_export a = \<lparr>oe_order_id = a_id a, oe_price = a_price a, oe_qty = a_qty a, oe_side = a_side a\<rparr>"

definition of_export :: "u32 \<Rightarrow> order_export \<Rightarrow> aorder" where
  "of_export i x = \<lparr>a_id = oe_order_id x, a_instr = i, a_side = oe_side x, a_price = oe_price x, a_qty = oe_qty x\<rparr>"

lemma of_to_export: "a_instr a = i \<Longrightarrow> of_export i (to_export a) = a"
  by (simp add: of_export_def to_export_def)

lemma export_handles_level:
  assumes iter: "hm_iter iter" and rel: "ob_rel ob A" and sub: "set as \<subseteq> set (a_level A i s p)"
  shows "export_handles (handle_to_id iter (index ob)) i (ib_orders (book_at ob i)) p s
      (map (\<lambda>a. snd (the (index ob (a_id a)))) as) = Some (map to_export as)"
  using sub
proof (induction as)
  case (Cons a as)
  have a: "a \<in> set A" "a_instr a = i" "a_side a = s" "a_price a = p" using Cons.prems by (auto simp: a_level_def)
  obtain h where h: "index ob (a_id a) = Some (i, h)" using ob_relD(3) [OF rel a(1)] a(2) by auto
  obtain b n where n: "b \<in> set A" "a_id b = a_id a" "nodes (book_at ob i) h = Some n" "node_qty n = a_qty b"
    by (rule index_live [OF rel h])
  have "b = a" using n(1,2) a(1) ob_relD(2) [OF rel] by (metis distinct_map inj_on_def)
  then show ?case
    using Cons n a h handle_to_id_eq [OF iter rel h] by (simp add: slab_index_def to_export_def)
qed simp

lemma export_levels_side:
  assumes iter: "hm_iter iter" and rel: "ob_rel ob A"
    and "\<And>p l. (p, l) \<in> set ls \<Longrightarrow> bview (book_at ob i) s p = Some l"
  shows "export_levels (handle_to_id iter (index ob)) i (ib_orders (book_at ob i)) s ls =
    Some (concat (map (\<lambda>e. map to_export (a_level A i s (fst e))) ls))"
  using assms(3)
proof (induction ls)
  case (Cons x ls)
  obtain p l where x: "x = (p, l)" by fastforce
  have "bview (book_at ob i) s p = Some l" using Cons.prems x by simp
  then have "iter_fifo l (ib_orders (book_at ob i)) =
      Some (map (\<lambda>a. snd (the (index ob (a_id a)))) (a_level A i s p))"
    using iter_fifo_queue [OF ob_relD(5) [OF rel]]
    by (simp add: queue_instr) (simp add: instr_orders_def comp_def)
  then show ?case
    using Cons export_handles_level [OF iter rel, of "a_level A i s p" i s p] x by simp
qed simp

text \<open>The keys of the levels in export order, and the orders they give.\<close>

definition export_keys :: "u32 list \<Rightarrow> obook \<Rightarrow> (u32 \<times> side \<times> i64) list" where
  "export_keys is ob =
     concat (map (\<lambda>i. map (\<lambda>e. (i, Bid, fst e)) (side_levels (book_at ob i) Bid) @
                      map (\<lambda>e. (i, Ask, fst e)) (side_levels (book_at ob i) Ask)) is)"

definition exported :: "u32 list \<Rightarrow> obook \<Rightarrow> aorder list \<Rightarrow> aorder list" where
  "exported is ob A = concat (map (\<lambda>(i, s, p). a_level A i s p) (export_keys is ob))"

definition instr_exported :: "obook \<Rightarrow> aorder list \<Rightarrow> u32 \<Rightarrow> aorder list" where
  "instr_exported ob A i =
     concat (map (\<lambda>e. a_level A i Bid (fst e)) (side_levels (book_at ob i) Bid)) @
     concat (map (\<lambda>e. a_level A i Ask (fst e)) (side_levels (book_at ob i) Ask))"

lemma exported_instrs: "exported is ob A = concat (map (instr_exported ob A) is)"
  by (induction "is") (simp_all add: exported_def export_keys_def instr_exported_def comp_def)

lemma export_book_eq:
  assumes iter: "hm_iter iter" and rel: "ob_rel ob A"
  shows "export_book (handle_to_id iter (index ob)) i (book_at ob i) =
    Some \<lparr>ie_instr = i, ie_orders = map to_export (instr_exported ob A i)\<rparr>"
proof -
  have "export_levels (handle_to_id iter (index ob)) i (ib_orders (book_at ob i)) s (side_levels (book_at ob i) s) =
      Some (concat (map (\<lambda>e. map to_export (a_level A i s (fst e))) (side_levels (book_at ob i) s)))" for s
    using book_side_levels(1) [OF ob_relD(5) [OF rel]] by (intro export_levels_side [OF iter rel]) auto
  then show ?thesis
    by (simp add: export_book_def instr_exported_def map_concat comp_def)
qed

lemma export_books_eq:
  assumes iter: "hm_iter iter" and rel: "ob_rel ob A"
  shows "set is \<subseteq> dom (books ob) \<Longrightarrow> export_books (handle_to_id iter (index ob)) (books ob) is =
    Some (map (\<lambda>i. \<lparr>ie_instr = i, ie_orders = map to_export (instr_exported ob A i)\<rparr>) is)"
proof (induction "is")
  case (Cons i "is")
  then obtain b where "books ob i = Some b" by auto
  then show ?case using Cons export_book_eq [OF iter rel, of i] by (simp add: book_at_def)
qed simp


section \<open>The exported list holds the same queues\<close>

definition a_key :: "aorder \<Rightarrow> u32 \<times> side \<times> i64" where
  "a_key a = (a_instr a, a_side a, a_price a)"

lemma a_level_key: "a_level A i s p = filter (\<lambda>a. a_key a = (i, s, p)) A"
  by (simp add: a_level_def a_key_def)

lemma filter_groups:
  assumes "distinct K" "\<And>k x. x \<in> set (f k) \<Longrightarrow> key x = k"
  shows "filter (\<lambda>x. key x = k) (concat (map f K)) = (if k \<in> set K then f k else [])"
  using assms(1)
proof (induction K)
  case (Cons a K)
  have "filter (\<lambda>x. key x = k) (f a) = (if a = k then f a else [])"
    using assms(2) by (auto simp: filter_empty_conv intro!: filter_True)
  then show ?case using Cons by auto
qed simp

lemma mset_by_key:
  assumes "\<And>k. filter (\<lambda>x. key x = k) xs = filter (\<lambda>x. key x = k) ys"
  shows "mset xs = mset ys"
proof (rule multiset_eqI)
  fix x
  have "count (mset zs) x = count (mset (filter (\<lambda>y. key y = key x) zs)) x" for zs by simp
  then show "count (mset xs) x = count (mset ys) x" using assms by metis
qed

lemma export_keys_distinct:
  assumes rel: "ob_rel ob A" and "distinct is"
  shows "distinct (export_keys is ob)"
  using assms(2)
proof (induction "is")
  case (Cons i "is")
  have "distinct (map (\<lambda>e. (i, s, fst e)) (side_levels (book_at ob i) s))" for s
    using book_side_levels(2) [OF ob_relD(5) [OF rel], of i s]
    by (simp add: distinct_map inj_on_def)
  then show ?case using Cons by (auto simp: export_keys_def)
qed (simp add: export_keys_def)

lemma export_keys_occupied:
  assumes rel: "ob_rel ob A" and "set is = dom (books ob)" and ne: "a_level A i s p \<noteq> []"
  shows "(i, s, p) \<in> set (export_keys is ob)"
proof -
  have q: "queue (instr_orders (index ob) i A) s p \<noteq> []"
    using ne unfolding queue_instr by (simp add: instr_orders_def)
  then have "bview (book_at ob i) s p \<noteq> None" using bview_queue [OF ob_relD(5) [OF rel]] by metis
  then obtain l where l: "(p, l) \<in> set (side_levels (book_at ob i) s)"
    using book_side_levels(1) [OF ob_relD(5) [OF rel]] by blast
  have "i \<in> set is"
  proof (rule ccontr)
    assume "i \<notin> set is"
    then have b: "book_at ob i = with_params (ob_grid_tick ob) (ob_grid_span ob)"
      using assms(2) by (auto simp: book_at_def split: option.split)
    have "book_rel (book_at ob i) []"
      unfolding b using ob_relD(1) [OF rel] by (intro with_params_rel) (auto simp: grid_cfg_ok_def)
    then show False
      using bview_queue [of "book_at ob i" "[]" s p] \<open>bview (book_at ob i) s p \<noteq> None\<close> by (simp add: queue_def)
  qed
  then show ?thesis using l by (cases s) (force simp: export_keys_def)+
qed

lemma level_keys: "x \<in> set ((\<lambda>(i, s, p). a_level A i s p) k) \<Longrightarrow> a_key x = k"
  by (cases k) (auto simp: a_level_key)

lemma exported_levels:
  assumes rel: "ob_rel ob A" and ks: "distinct is" "set is = dom (books ob)"
  shows "a_level (exported is ob A) i s p = a_level A i s p"
proof -
  have "filter (\<lambda>a. a_key a = (i, s, p)) (exported is ob A) =
      (if (i, s, p) \<in> set (export_keys is ob) then a_level A i s p else [])"
    unfolding exported_def
    by (subst filter_groups [OF export_keys_distinct [OF rel ks(1)]]) (auto simp: a_level_key)
  moreover have "a_level A i s p = []" if "(i, s, p) \<notin> set (export_keys is ob)"
    using export_keys_occupied [OF rel ks(2)] that by blast
  ultimately show ?thesis by (simp add: a_level_key [of "exported is ob A"])
qed

lemma exported_mset:
  assumes "ob_rel ob A" "distinct is" "set is = dom (books ob)"
  shows "mset (exported is ob A) = mset A"
  using exported_levels [OF assms] by (intro mset_by_key [of a_key]) (auto simp: a_level_key)

section \<open>Contiguous levels\<close>

fun contig :: "'k set \<Rightarrow> 'k option \<Rightarrow> 'k list \<Rightarrow> bool" where
  "contig seen prev [] \<longleftrightarrow> True"
| "contig seen prev (k # ks) \<longleftrightarrow> (k \<notin> seen \<or> prev = Some k) \<and> contig (insert k seen) (Some k) ks"

lemma contig_run: "contig (insert k S) (Some k) (ks @ rest) \<longleftrightarrow> contig (insert k S) (Some k) rest"
  if "\<forall>x \<in> set ks. x = k" for ks
  using that by (induction ks) auto

lemma contig_groups:
  assumes "distinct K" "\<And>k x. x \<in> set (f k) \<Longrightarrow> key x = k" "set K \<inter> S = {}"
  shows "contig S prev (map key (concat (map f K)))"
  using assms(1,3)
proof (induction K arbitrary: S prev)
  case (Cons k K)
  have all: "\<forall>x \<in> set (map key (f k)). x = k" using assms(2) by auto
  show ?case
  proof (cases "map key (f k)")
    case Nil
    then show ?thesis using Cons by simp
  next
    case grp: (Cons x xs)
    then have x: "x = k" and xs: "\<forall>y \<in> set xs. y = k" using all by auto
    have "contig (insert k S) (Some k) (map key (concat (map f K)))"
      using Cons.prems by (intro Cons.IH) auto
    then show ?thesis using grp x Cons.prems(2) contig_run [OF xs] by simp
  qed
qed simp

section \<open>Importing\<close>

text \<open>With a tick of one, the level just added to is in the grid.\<close>

definition unit_ticks :: "obook \<Rightarrow> bool" where
  "unit_ticks ob \<longleftrightarrow> ob_grid_tick ob = 1 \<and> (\<forall>i s. grid_tick (side_grid (book_at ob i) s) = 1)"

definition in_grid :: "obook \<Rightarrow> (u32 \<times> side \<times> i64) option \<Rightarrow> bool" where
  "in_grid ob k = (case k of None \<Rightarrow> True | Some (i, s, p) \<Rightarrow> gview (side_grid (book_at ob i) s) p \<noteq> None)"

lemma best_after_add_sides [simp]: "side_grid (best_after_add b s p t) s' = side_grid b s'"
  by (simp add: best_after_add_def)

lemma add_in_grid:
  assumes rel: "book_rel b os" and px: "px_ok p" and safe: "book_add_safe b s p"
    and tick: "\<And>s'. grid_tick (side_grid b s') = 1" and add: "add alloc b p qty s = Some (h, b')"
  shows "grid_tick (side_grid b' s') = 1" "gview (side_grid b' s) p \<noteq> None"
proof -
  note R = book_relD [OF rel]
  obtain g ovf r where E: "ensure_level_mut_in_grid (side_grid b s) (side_ovf b s) p = Some (g, ovf, r)"
      "side_wf g ovf" "grid_tick g = grid_tick (side_grid b s)" "ref_at g ovf r p"
      "\<forall>q. r = InOverflow q \<longrightarrow> \<not> grid_tick (side_grid b s) dvd p"
    using ensure_level_law [OF R(3) _ px safe [unfolded book_add_safe_def]] R(5) by (metis bview_def)
  obtain i where r: "r = InGrid i" using E(5) tick by (cases r) auto
  have again: "ensure_level_mut_in_grid g ovf p = Some (g, ovf, r)"
    using ensure_again [OF E(2) px E(4)] E(3,5) by simp
  have orders: "(set_side c s g ovf)\<lparr>ib_orders := y\<rparr> = set_side (c\<lparr>ib_orders := y\<rparr>) s g ovf"
    "set_side (set_side c s g ovf) s g' ovf' = set_side c s g' ovf'" for c y g' ovf'
    by (cases s; simp)+
  obtain sl l t where b': "b' = best_after_add (write_level (set_side (b\<lparr>ib_orders := sl\<rparr>) s g ovf) s r l) s p t"
    using add by (auto simp: add_def Let_def ensure_level_mut_def E(1) again bind_Some_iff orders
        simp del: ex_simps split: prod.splits)
  obtain g2 ovf2 where w: "write_ref g ovf r l = (g2, ovf2)" by fastforce
  note W = write_ref_at [OF E(2,4) w]
  have sg: "side_grid b' x = (if x = s then g2 else side_grid b x)" for x
    by (simp add: b' write_level_def w)
  show "grid_tick (side_grid b' s') = 1" using sg tick W(3) E(3) by simp
  show "gview (side_grid b' s) p \<noteq> None" using sg W(4) r by (simp add: ref_at_def)
qed

lemma import_order_eq:
  "import_order alloc i ob x =
     map_option (\<lambda>(h, b). index_insert (oe_order_id x) (i, h) (put_book ob i b))
       (add alloc (book_at ob i) (oe_price x) (oe_qty x) (oe_side x))"
  unfolding import_order_def
  by (subst book_mut_eq)
     (cases "add alloc (book_at ob i) (oe_price x) (oe_qty x) (oe_side x)"; simp split: prod.split)

lemma import_order_apply: "apply_add alloc ob (oe_order_id x) i (oe_price x) (oe_qty x) (oe_side x) =
    map_option (touch i) (import_order alloc i ob x)"
  by (cases "add alloc (book_at ob i) (oe_price x) (oe_qty x) (oe_side x)") (auto simp: apply_add_eq import_order_eq)

lemma safe_level:
  assumes rel: "ob_rel ob P" and key: "(i, s, p) \<notin> a_key ` set P \<or> gview (side_grid (book_at ob i) s) p \<noteq> None"
  shows "book_add_safe (book_at ob i) s p"
proof -
  note R = book_relD [OF ob_relD(5) [OF rel, of i]]
  have "bt_get (side_ovf (book_at ob i) s) p = None"
  proof (cases "gview (side_grid (book_at ob i) s) p")
    case (Some l)
    then show ?thesis using side_wfD(3) [OF R(3)] by blast
  next
    case None
    then have "(i, s, p) \<notin> a_key ` set P" using key by simp
    then have "a_level P i s p = []" by (simp add: a_level_key filter_empty_conv) (metis image_eqI)
    then have "bview (book_at ob i) s p = None"
      using bview_queue [OF ob_relD(5) [OF rel], of i s p] by (simp only: queue_instr) (simp add: instr_orders_def)
    then show ?thesis using None by (simp add: bview_def lview_def)
  qed
  then show ?thesis by (simp add: book_add_safe_def add_safe_def)
qed

lemma import_order_law:
  assumes alloc: "slab_alloc alloc" and rel: "ob_rel ob P" and unit: "unit_ticks ob" and grid: "in_grid ob prev"
    and new: "oe_order_id x \<notin> a_id ` set P" and px: "px_ok (oe_price x)"
    and key: "a_key (of_export i x) \<notin> a_key ` set P \<or> prev = Some (a_key (of_export i x))"
  obtains ob' where "import_order alloc i ob x = Some ob'" "ob_rel ob' (P @ [of_export i x])" "unit_ticks ob'"
    "in_grid ob' (Some (a_key (of_export i x)))"
proof -
  let ?s = "oe_side x" and ?p = "oe_price x"
  have ticks: "grid_tick (side_grid (book_at ob j) s) = 1" for j s using unit by (simp add: unit_ticks_def)
  have safe: "book_add_safe (book_at ob i) ?s ?p"
    using safe_level [OF rel, of i ?s ?p] key grid by (auto simp: in_grid_def a_key_def of_export_def)
  then have ev: "event_safe ob (Add (oe_order_id x) i ?p (oe_qty x) ?s)"
    using index_None [OF rel] new px by simp
  obtain ob1 where 1: "apply_add alloc ob (oe_order_id x) i ?p (oe_qty x) ?s = Some ob1"
      "ob_rel ob1 (P @ [of_export i x])"
    using apply_add_refines [OF alloc rel ev] by (auto simp: of_export_def)
  then obtain h b where b: "add alloc (book_at ob i) ?p (oe_qty x) ?s = Some (h, b)"
      "ob1 = touch i (index_insert (oe_order_id x) (i, h) (put_book ob i b))"
    by (auto simp: apply_add_eq)
  define ob' where "ob' = index_insert (oe_order_id x) (i, h) (put_book ob i b)"
  note G = add_in_grid [OF ob_relD(5) [OF rel] px safe ticks b(1)]
  have "import_order alloc i ob x = Some ob'" using b(1) by (simp add: import_order_eq ob'_def)
  moreover have "ob_rel ob' (P @ [of_export i x])" using 1(2) by (simp add: b(2) ob'_def)
  moreover have "unit_ticks ob'" using unit G(1)
    by (auto simp: unit_ticks_def ob'_def) (simp add: index_insert_def put_book_def)
  moreover have "in_grid ob' (Some (a_key (of_export i x)))"
    using G(2) by (simp add: in_grid_def a_key_def of_export_def ob'_def)
  ultimately show ?thesis by (rule that)
qed

lemma import_orders_law:
  assumes alloc: "slab_alloc alloc"
  shows "ob_rel ob P \<Longrightarrow> unit_ticks ob \<Longrightarrow> in_grid ob prev \<Longrightarrow>
    distinct (map a_id (P @ map (of_export i) xs)) \<Longrightarrow> \<forall>x \<in> set xs. px_ok (oe_price x) \<Longrightarrow>
    contig (a_key ` set P) prev (map a_key (map (of_export i) xs) @ rest) \<Longrightarrow>
    \<exists>ob' prev'. import_orders alloc i ob xs = Some ob' \<and> ob_rel ob' (P @ map (of_export i) xs) \<and> unit_ticks ob' \<and>
      in_grid ob' prev' \<and> contig (a_key ` set (P @ map (of_export i) xs)) prev' rest"
proof (induction xs arbitrary: ob P prev)
  case Nil
  then show ?case by auto
next
  case (Cons x xs)
  have new: "oe_order_id x \<notin> a_id ` set P" using Cons.prems(4) by (auto simp: of_export_def)
  obtain ob1 where 1: "import_order alloc i ob x = Some ob1" "ob_rel ob1 (P @ [of_export i x])" "unit_ticks ob1"
      "in_grid ob1 (Some (a_key (of_export i x)))"
    using Cons.prems by (elim import_order_law [OF alloc _ _ _ new]) auto
  have "\<exists>ob' prev'. import_orders alloc i ob1 xs = Some ob' \<and>
      ob_rel ob' ((P @ [of_export i x]) @ map (of_export i) xs) \<and> unit_ticks ob' \<and>
      in_grid ob' prev' \<and> contig (a_key ` set ((P @ [of_export i x]) @ map (of_export i) xs)) prev' rest"
    using Cons.prems by (intro Cons.IH [OF 1(2,3,4)]) auto
  then show ?case using 1(1) by simp
qed

lemma unit_ticks_touch [simp]: "unit_ticks (touch i ob) = unit_ticks ob" "in_grid (touch i ob) k = in_grid ob k"
  by (simp_all add: unit_ticks_def in_grid_def split: option.split)

lemma of_export_instr:
  assumes "\<forall>a \<in> set as. a_instr a = i"
  shows "map (of_export i) (map to_export as) = as"
  using assms by (induction as) (simp_all add: of_to_export)

lemma import_instruments_law:
  assumes alloc: "slab_alloc alloc" and own: "\<And>i a. a \<in> set (E i) \<Longrightarrow> a_instr a = i \<and> px_ok (a_price a)"
  shows "ob_rel ob P \<Longrightarrow> unit_ticks ob \<Longrightarrow> in_grid ob prev \<Longrightarrow>
    distinct (map a_id (P @ concat (map E ks))) \<Longrightarrow>
    contig (a_key ` set P) prev (map a_key (concat (map E ks))) \<Longrightarrow>
    \<exists>ob'. import_instruments alloc ob (map (\<lambda>i. \<lparr>ie_instr = i, ie_orders = map to_export (E i)\<rparr>) ks) = Some ob' \<and>
      ob_rel ob' (P @ concat (map E ks)) \<and> last_instr ob' = (if ks = [] then last_instr ob else Some (last ks))"
proof (induction ks arbitrary: ob P prev)
  case (Cons i ks)
  have E: "map (of_export i) (map to_export (E i)) = E i" using own by (intro of_export_instr) auto
  have "\<exists>ob' prev'. import_orders alloc i ob (map to_export (E i)) = Some ob' \<and>
      ob_rel ob' (P @ map (of_export i) (map to_export (E i))) \<and> unit_ticks ob' \<and> in_grid ob' prev' \<and>
      contig (a_key ` set (P @ map (of_export i) (map to_export (E i)))) prev' (map a_key (concat (map E ks)))"
    using Cons.prems own by (intro import_orders_law [OF alloc]) (auto simp only: E, auto simp: to_export_def)
  then obtain ob1 prev1 where 1: "import_orders alloc i ob (map to_export (E i)) = Some ob1"
      "ob_rel ob1 (P @ E i)" "unit_ticks ob1" "in_grid ob1 prev1"
      "contig (a_key ` set (P @ E i)) prev1 (map a_key (concat (map E ks)))"
    unfolding E by blast
  have "distinct (map a_id ((P @ E i) @ concat (map E ks)))" using Cons.prems(4) by simp
  then obtain ob' where "import_instruments alloc (touch i ob1)
        (map (\<lambda>i. \<lparr>ie_instr = i, ie_orders = map to_export (E i)\<rparr>) ks) = Some ob'"
      "ob_rel ob' ((P @ E i) @ concat (map E ks))"
      "last_instr ob' = (if ks = [] then last_instr (touch i ob1) else Some (last ks))"
    using Cons.IH [of "touch i ob1" "P @ E i" prev1] 1 by auto
  then show ?case using 1(1) by simp
qed simp

section \<open>The round trip\<close>

theorem export_import:
  assumes alloc: "slab_alloc alloc" and iter: "hm_iter iter" "hm_iter iter_books" and rel: "ob_rel ob A"
    and fin: "finite (dom (books ob))"
  obtains e ob' A' where "export iter iter_books ob = Some e" "from_export alloc e = Some ob'"
    "ob_rel ob' A'" "mset A' = mset A" "\<And>i s p. a_level A' i s p = a_level A i s p"
proof -
  define ks where "ks = iter_books (books ob)"
  have ks: "distinct ks" "set ks = dom (books ob)" using iter(2) fin by (simp_all add: hm_iter_def ks_def)
  let ?E = "instr_exported ob A"
  let ?x = "map (\<lambda>i. \<lparr>ie_instr = i, ie_orders = map to_export (?E i)\<rparr>) ks"
  let ?e = "\<lparr>be_version = 1, be_instruments = ?x\<rparr>"
  have e: "export iter iter_books ob = Some ?e"
    using export_books_eq [OF iter(1) rel, of ks] ks by (simp add: export_def ks_def)
  have ms: "mset (exported ks ob A) = mset A" using exported_mset [OF rel ks] .
  have lv: "a_level (exported ks ob A) i s p = a_level A i s p" for i s p using exported_levels [OF rel ks] .
  have "set (exported ks ob A) = set A" using ms by (metis set_mset_mset)
  have "mset (map a_id (exported ks ob A)) = mset (map a_id A)" using ms by simp
  then have dist: "distinct (map a_id (exported ks ob A))"
    using ob_relD(2) [OF rel] by (metis mset_eq_imp_distinct_iff)
  have own: "a_instr a = i \<and> px_ok (a_price a)" if "a \<in> set (?E i)" for i a
  proof -
    have a: "a \<in> set A" "a_instr a = i" using that by (auto simp: instr_exported_def a_level_def)
    obtain h where "index ob (a_id a) = Some (i, h)" using ob_relD(3) [OF rel a(1)] a(2) by blast
    then obtain n a' where n: "nodes (book_at ob i) h = Some n" "node_price n = a_price a'" "a' \<in> set A" "a_id a' = a_id a"
      using index_live [OF rel] by metis
    then have "a' = a" using a(1) ob_relD(2) [OF rel] by (metis distinct_map inj_on_def)
    moreover obtain ord where "ord \<in> set (instr_orders (index ob) i A)" "node_price n = o_price ord"
      using levels_rel_live [OF book_relD(1) [OF ob_relD(5) [OF rel]] n(1)] by metis
    ultimately show ?thesis
      using a(2) n(2) levels_relD(5) [OF book_relD(1) [OF ob_relD(5) [OF rel]]] by metis
  qed
  have rel0: "ob_rel (ob_new 10) []" using ob_new_with_grid_rel by (simp add: ob_new_grid)
  have u0: "unit_ticks (ob_new 10)"
    by (simp add: unit_ticks_def ob_new_def book_at_def all_sides with_params_def grid_new_def)
  have "contig (a_key ` set ([] :: aorder list)) None (map a_key (exported ks ob A))"
    unfolding exported_def
    by (rule contig_groups [OF export_keys_distinct [OF rel ks(1)]]) (auto simp: a_level_key)
  then obtain ob' where "from_export alloc ?e = Some ob'" "ob_rel ob' (exported ks ob A)"
    using import_instruments_law [OF alloc own rel0 u0, where prev = None and ks = ks] dist
    by (auto simp: from_export_def exported_instrs in_grid_def)
  then show ?thesis using that e ms lv by blast
qed

section \<open>Properties\<close>

text \<open>
  C12: the snapshot round trip. Exporting a book that represents the live orders \<open>A\<close> does not panic,
  and importing the export does not panic either and gives a book that represents the same
  orders, with the same queue, in the same arrival order, at every instrument, side and price;
  hence the same best bid and offer everywhere.
\<close>

theorem snapshot_roundtrip:
  assumes "slab_alloc alloc" "hm_iter iter" "hm_iter iter_books" "ob_rel ob A" "finite (dom (books ob))"
  shows "\<exists>e ob' A'. export iter iter_books ob = Some e \<and> from_export alloc e = Some ob' \<and> ob_rel ob' A' \<and>
    mset A' = mset A \<and> (\<forall>i s p. a_level A' i s p = a_level A i s p) \<and>
    (\<forall>i. ib_bbo (book_at ob' i) = ib_bbo (book_at ob i))"
proof -
  obtain e ob' A' where R: "export iter iter_books ob = Some e" "from_export alloc e = Some ob'"
    "ob_rel ob' A'" "mset A' = mset A" "\<And>i s p. a_level A' i s p = a_level A i s p"
    using export_import [OF assms] by metis
  have set: "set (map a_price (filter (\<lambda>a. a_instr a = i \<and> a_side a = s) A')) =
      set (map a_price (filter (\<lambda>a. a_instr a = i \<and> a_side a = s) A))" for i s
    using mset_eq_setD [OF R(4)] by simp
  have nil: "map a_price (filter (\<lambda>a. a_instr a = i \<and> a_side a = s) A') = [] \<longleftrightarrow>
      map a_price (filter (\<lambda>a. a_instr a = i \<and> a_side a = s) A) = []" for i s
    unfolding set_empty [symmetric] set ..
  have "a_bbo A' i s = a_bbo A i s" for i s
    by (simp only: a_bbo_def Let_def R(5) set nil)
  then show ?thesis
    using R book_at_bbo [OF R(3)] book_at_bbo [OF assms(4)] by (intro exI [of _ e] exI [of _ ob'] exI [of _ A']) simp
qed

lemma sorted_iter: "hm_iter (\<lambda>m :: ('k::linorder) \<rightharpoonup> 'v. sorted_list_of_set (dom m))"
  by (simp add: hm_iter_def)

theorem snapshot_roundtrip_witness:
  "\<exists>ob e ob'. apply_event first_free (ob_new 10) (Add 1 7 100 5 Bid) = Some ob \<and>
     export (\<lambda>m. sorted_list_of_set (dom m)) (\<lambda>m. sorted_list_of_set (dom m)) ob = Some e \<and>
     from_export first_free e = Some ob' \<and> ib_bbo (book_at ob' 7) = ib_bbo (book_at ob 7)"
proof -
  have "ob_rel (ob_new 10) []" using ob_new_with_grid_rel by (simp add: ob_new_grid)
  moreover have "event_safe (ob_new 10) (Add 1 7 100 5 Bid)"
    by (simp add: ob_new_def px_ok_def book_at_def book_add_safe_def with_params_def add_safe_def)
  ultimately obtain ob A where ob: "apply_event first_free (ob_new 10) (Add 1 7 100 5 Bid) = Some ob" "ob_rel ob A"
    using apply_refines [OF first_free_alloc] by blast
  then have "finite (dom (books ob))"
    by (auto simp: apply_add_eq ob_new_def touch_def index_insert_def put_book_def)
  then show ?thesis
    using snapshot_roundtrip [OF first_free_alloc sorted_iter sorted_iter ob(2)] ob(1) by blast
qed

end
