(* ===== verification/Decoder_Eobi.thy ===== *)
theory Decoder_Eobi
  imports Bytes
begin

text \<open>
  The EOBI/SBE decoder (\<open>src/src/decoder_eobi.rs\<close>): little-endian framing with an 8-byte header
  and four templates. Slices and indices are checked (\<open>None\<close> is a panic); the appended events are
  the result, \<open>out\<close> is threaded as the source does.

  \<open>eobi_encode\<close> is the wire format as a function of the event, the specification the decoder is
  compared with.
\<close>

definition le_u16 :: "bytes \<Rightarrow> u16 option" where
  "le_u16 b = do { x \<leftarrow> byte_at b 0; y \<leftarrow> byte_at b 1; Some (from_le [x, y]) }"

text \<open>Checked unaligned loads: out of bounds is a value, not a panic.\<close>

definition read_le_u32_checked :: "bytes \<Rightarrow> nat \<Rightarrow> u32 option" where
  "read_le_u32_checked b off = (if off + 4 \<le> length b then Some (from_le (take 4 (drop off b))) else None)"

definition read_le_u64_checked :: "bytes \<Rightarrow> nat \<Rightarrow> u64 option" where
  "read_le_u64_checked b off = (if off + 8 \<le> length b then Some (from_le (take 8 (drop off b))) else None)"

definition read_le_i64_checked :: "bytes \<Rightarrow> nat \<Rightarrow> i64 option" where
  "read_le_i64_checked b off = (if off + 8 \<le> length b then Some (i64_from_le (take 8 (drop off b))) else None)"

text \<open>\<open>body.get(i).copied().unwrap_or(d)\<close>.\<close>

definition byte_or :: "bytes \<Rightarrow> nat \<Rightarrow> u8 \<Rightarrow> u8" where
  "byte_or b i d = (case byte_at b i of Some x \<Rightarrow> x | None \<Rightarrow> d)"

definition decode_add :: "bytes \<Rightarrow> event list" where
  "decode_add body =
     (if length body < 8 + 4 + 1 + 8 + 8 then []
      else case read_le_u64_checked body 0 of None \<Rightarrow> [] | Some order_id \<Rightarrow>
           (case read_le_u32_checked body 8 of None \<Rightarrow> [] | Some instr \<Rightarrow>
            let s = (if byte_or body 12 0 = 0 then Bid else Ask) in
            (case read_le_i64_checked body 13 of None \<Rightarrow> [] | Some px \<Rightarrow>
             (case read_le_i64_checked body 21 of None \<Rightarrow> [] | Some qty \<Rightarrow>
              [Add order_id instr px qty s]))))"

definition decode_mod :: "bytes \<Rightarrow> event list" where
  "decode_mod body =
     (if length body < 8 + 8 then []
      else case read_le_u64_checked body 0 of None \<Rightarrow> [] | Some order_id \<Rightarrow>
           (case read_le_i64_checked body 8 of None \<Rightarrow> [] | Some qty \<Rightarrow> [Mod order_id qty]))"

definition decode_del :: "bytes \<Rightarrow> event list" where
  "decode_del body =
     (if length body < 8 then []
      else case read_le_u64_checked body 0 of Some order_id \<Rightarrow> [Del order_id] | None \<Rightarrow> [])"

definition decode_trade :: "bytes \<Rightarrow> event list" where
  "decode_trade body =
     (if length body < 4 + 8 + 8 + 8 + 1 then []
      else case read_le_u32_checked body 0 of None \<Rightarrow> [] | Some instr \<Rightarrow>
           (case read_le_i64_checked body 4 of None \<Rightarrow> [] | Some px \<Rightarrow>
            (case read_le_i64_checked body 12 of None \<Rightarrow> [] | Some qty \<Rightarrow>
             (case read_le_u64_checked body 20 of None \<Rightarrow> [] | Some maker \<Rightarrow>
              let b = byte_or body 28 2;
                  taker = (if b = 0 then Some Bid else if b = 1 then Some Ask else None)
              in [Trade instr px qty (Some maker) taker]))))"

definition eobi_dispatch :: "u16 \<Rightarrow> bytes \<Rightarrow> event list" where
  "eobi_dispatch template_id body =
     (if template_id = 1001 then decode_add body
      else if template_id = 1002 then decode_mod body
      else if template_id = 1003 then decode_del body
      else if template_id = 1004 then decode_trade body
      else [])"

function eobi_loop :: "bytes \<Rightarrow> nat \<Rightarrow> event list \<Rightarrow> event list option" where
  "eobi_loop payload off out =
     (if off + 8 \<le> length payload then do {
        s \<leftarrow> slice payload off (off + 2);
        block_len \<leftarrow> le_u16 s;
        s \<leftarrow> slice payload (off + 2) (off + 4);
        template_id \<leftarrow> le_u16 s;
        s \<leftarrow> slice payload (off + 4) (off + 6);
        schema_id \<leftarrow> le_u16 s;
        s \<leftarrow> slice payload (off + 6) (off + 8);
        version \<leftarrow> le_u16 s;
        if off + 8 + unat block_len > length payload then Some out
        else do {
          body \<leftarrow> slice payload (off + 8) (off + 8 + unat block_len);
          eobi_loop payload (off + 8 + unat block_len) (out @ eobi_dispatch template_id body)
        }
      }
      else Some out)"
  by pat_completeness auto

termination eobi_loop
  by (relation "measure (\<lambda>(payload, off, out). length payload - off)") auto

definition eobi_decode :: "bytes \<Rightarrow> event list \<Rightarrow> event list option" where
  "eobi_decode payload out = eobi_loop payload 0 out"

declare eobi_loop.simps [simp del]

section \<open>The decoder is total and bounded\<close>

lemma le_u16_defined: "2 \<le> length s \<Longrightarrow> \<exists>w. le_u16 s = Some w"
  by (cases s) (auto simp: le_u16_def byte_at_def)

lemma dispatch_length: "length (eobi_dispatch t body) \<le> 1"
  by (simp add: eobi_dispatch_def decode_add_def decode_mod_def decode_del_def decode_trade_def Let_def
      split: option.split)

lemma header_slice:
  "off + 8 \<le> length payload \<Longrightarrow> k + 2 \<le> 8 \<Longrightarrow> \<exists>s w. slice payload (off + k) (off + (k + 2)) = Some s \<and> le_u16 s = Some w"
  using le_u16_defined [of "take 2 (drop (off + k) payload)"] by (auto simp: slice_def)

lemma eobi_loop_total:
  "\<exists>evs. eobi_loop payload off out = Some (out @ evs) \<and> 8 * length evs \<le> length payload - off"
proof (induction payload off out rule: eobi_loop.induct)
  case (1 payload off out)
  show ?case
  proof (cases "off + 8 \<le> length payload")
    case False
    then show ?thesis by (simp add: eobi_loop.simps)
  next
    case True
    obtain s0 w0 s1 w1 s2 w2 s3 w3 where H:
        "slice payload off (off + 2) = Some s0" "le_u16 s0 = Some w0"
        "slice payload (off + 2) (off + 4) = Some s1" "le_u16 s1 = Some w1"
        "slice payload (off + 4) (off + 6) = Some s2" "le_u16 s2 = Some w2"
        "slice payload (off + 6) (off + 8) = Some s3" "le_u16 s3 = Some w3"
      using header_slice [OF True, of 0] header_slice [OF True, of 2] header_slice [OF True, of 4]
        header_slice [OF True, of 6] by auto
    show ?thesis
    proof (cases "off + 8 + unat w0 > length payload")
      case stop: True
      then show ?thesis using True H by (subst eobi_loop.simps) simp
    next
      case False
      let ?body = "take (unat w0) (drop (off + 8) payload)"
      have body: "slice payload (off + 8) (off + 8 + unat w0) = Some ?body"
        using False by (simp add: slice_def)
      obtain evs where IH: "eobi_loop payload (off + 8 + unat w0) (out @ eobi_dispatch w1 ?body) =
          Some ((out @ eobi_dispatch w1 ?body) @ evs)" "8 * length evs \<le> length payload - (off + 8 + unat w0)"
        using 1 [OF True H(1,2) H(3,4) H(5,6) H(7,8) False body] by blast
      have "8 * length (eobi_dispatch w1 ?body @ evs) \<le> length payload - off"
        using IH(2) dispatch_length [of w1 ?body] False by simp
      then show ?thesis using IH(1) True False H body by (subst eobi_loop.simps) simp
    qed
  qed
qed

section \<open>Decoding what was encoded\<close>

fun eobi_body :: "event \<Rightarrow> (u16 \<times> bytes) option" where
  "eobi_body (Add oid i px qty s) =
     Some (1001, to_le oid @ to_le i @ [side_byte s] @ i64_to_le px @ i64_to_le qty)"
| "eobi_body (Mod oid qty) = Some (1002, to_le oid @ i64_to_le qty)"
| "eobi_body (Del oid) = Some (1003, to_le oid)"
| "eobi_body (Trade i px qty (Some maker) taker) =
     Some (1004, to_le i @ i64_to_le px @ i64_to_le qty @ to_le maker @
            [case taker of None \<Rightarrow> 2 | Some s \<Rightarrow> side_byte s])"
| "eobi_body _ = None"

definition eobi_frame :: "u16 \<Rightarrow> u16 \<Rightarrow> u16 \<times> bytes \<Rightarrow> bytes" where
  "eobi_frame schema version tb =
     to_le (word_of_nat (length (snd tb)) :: u16) @ to_le (fst tb) @ to_le schema @ to_le version @ snd tb"

lemma le_u16_to_le [simp]: "le_u16 (to_le w) = Some w"
proof -
  have "to_le w = [word_of_nat (unat w mod 256), word_of_nat (unat w div 256 mod 256)]"
    by (simp add: to_le_def numeral_2_eq_2)
  then show ?thesis using from_to_le_simps(1) [of w] by (simp add: le_u16_def byte_at_def)
qed

lemma read_le_at:
  "n = length a \<Longrightarrow> read_le_u64_checked (a @ to_le w @ b) n = Some w"
  "n = length a \<Longrightarrow> read_le_u32_checked (a @ to_le v @ b) n = Some v"
  "n = length a \<Longrightarrow> i64_ok x \<Longrightarrow> read_le_i64_checked (a @ i64_to_le x @ b) n = Some x"
  by (simp_all add: read_le_u64_checked_def read_le_u32_checked_def read_le_i64_checked_def)

lemma byte_or_at: "n = length a \<Longrightarrow> byte_or (a @ x # b) n d = x"
  by (simp add: byte_or_def byte_at_def)

lemma eobi_dispatch_body:
  assumes "eobi_body e = Some (t, body)" "event_ok e"
  shows "eobi_dispatch t body = [e] \<and> length body \<le> 29"
proof (cases e)
  case (Add oid i px qty s)
  then have ok: "i64_ok px" "i64_ok qty" using assms(2) by simp_all
  let ?b = "to_le oid @ to_le i @ [side_byte s] @ i64_to_le px @ i64_to_le qty"
  have "read_le_u64_checked ?b 0 = Some oid" using read_le_at(1) [of 0 "[]"] by simp
  moreover have "read_le_u32_checked ?b 8 = Some i" using read_le_at(2) [of 8 "to_le oid"] by simp
  moreover have "byte_or ?b 12 0 = side_byte s" using byte_or_at [of 12 "to_le oid @ to_le i"] by simp
  moreover have "read_le_i64_checked ?b 13 = Some px"
    using read_le_at(3) [of 13 "to_le oid @ to_le i @ [side_byte s]" px] ok by simp
  moreover have "read_le_i64_checked ?b 21 = Some qty"
    using read_le_at(3) [of 21 "to_le oid @ to_le i @ [side_byte s] @ i64_to_le px" qty "[]"] ok by simp
  ultimately show ?thesis
    using assms Add by (auto simp: eobi_dispatch_def decode_add_def side_byte_def split: side.splits)
next
  case (Mod oid qty)
  then have ok: "i64_ok qty" using assms(2) by simp
  have "read_le_u64_checked (to_le oid @ i64_to_le qty) 0 = Some oid" using read_le_at(1) [of 0 "[]"] by simp
  moreover have "read_le_i64_checked (to_le oid @ i64_to_le qty) 8 = Some qty"
    using read_le_at(3) [of 8 "to_le oid" qty "[]"] ok by simp
  ultimately show ?thesis using assms Mod by (auto simp: eobi_dispatch_def decode_mod_def)
next
  case (Del oid)
  have "read_le_u64_checked (to_le oid) 0 = Some oid" using read_le_at(1) [of 0 "[]" oid "[]"] by simp
  then show ?thesis using assms Del by (auto simp: eobi_dispatch_def decode_del_def)
next
  case (Trade i px qty maker taker)
  then obtain m where m: "maker = Some m" using assms by (cases maker) auto
  have ok: "i64_ok px" "i64_ok qty" using assms(2) Trade by simp_all
  let ?t = "case taker of None \<Rightarrow> 2 | Some s \<Rightarrow> side_byte s"
  let ?b = "to_le i @ i64_to_le px @ i64_to_le qty @ to_le m @ [?t]"
  have "read_le_u32_checked ?b 0 = Some i" using read_le_at(2) [of 0 "[]"] by simp
  moreover have "read_le_i64_checked ?b 4 = Some px"
    using read_le_at(3) [of 4 "to_le i" px] ok by simp
  moreover have "read_le_i64_checked ?b 12 = Some qty"
    using read_le_at(3) [of 12 "to_le i @ i64_to_le px" qty] ok by simp
  moreover have "read_le_u64_checked ?b 20 = Some m"
    using read_le_at(1) [of 20 "to_le i @ i64_to_le px @ i64_to_le qty"] by simp
  moreover have "byte_or ?b 28 2 = ?t"
    using byte_or_at [of 28 "to_le i @ i64_to_le px @ i64_to_le qty @ to_le m" ?t "[]"] by simp
  ultimately show ?thesis
    using assms Trade m
    by (auto simp: eobi_dispatch_def decode_trade_def side_byte_def Let_def split: option.splits side.splits)
qed (use assms in auto)

lemma eobi_frame_step:
  assumes "length body < 2 ^ 16"
  shows "eobi_loop (pre @ eobi_frame sc ve (t, body) @ rest) (length pre) out =
    eobi_loop (pre @ eobi_frame sc ve (t, body) @ rest) (length (pre @ eobi_frame sc ve (t, body)))
      (out @ eobi_dispatch t body)"
proof -
  let ?n = "word_of_nat (length body) :: u16"
  let ?p = "pre @ eobi_frame sc ve (t, body) @ rest"
  have n: "unat ?n = length body" using assms by (simp add: unat_of_nat take_bit_eq_mod)
  have S: "slice ?p (length pre) (length pre + 2) = Some (to_le ?n)"
    "slice ?p (length pre + 2) (length pre + 4) = Some (to_le t)"
    "slice ?p (length pre + 4) (length pre + 6) = Some (to_le sc)"
    "slice ?p (length pre + 6) (length pre + 8) = Some (to_le ve)"
    "slice ?p (length pre + 8) (length pre + 8 + length body) = Some body"
    by (simp_all add: eobi_frame_def slice_def)
  have len: "length ?p = length pre + 8 + length body + length rest"
    "length (pre @ eobi_frame sc ve (t, body)) = length pre + 8 + length body"
    by (simp_all add: eobi_frame_def)
  show ?thesis
    unfolding len(2) by (subst eobi_loop.simps) (simp only: S len(1) n le_u16_to_le, simp add: n S)
qed

definition eobi_encode :: "u16 \<Rightarrow> u16 \<Rightarrow> event list \<Rightarrow> bytes" where
  "eobi_encode sc ve es = concat (map (\<lambda>e. case eobi_body e of Some tb \<Rightarrow> eobi_frame sc ve tb | None \<Rightarrow> []) es)"

lemma eobi_loop_encode:
  assumes "list_all (\<lambda>e. eobi_body e \<noteq> None \<and> event_ok e) es" "length tail < 8"
  shows "eobi_loop (pre @ eobi_encode sc ve es @ tail) (length pre) out = Some (out @ es)"
  using assms(1)
proof (induction es arbitrary: pre out)
  case Nil
  then show ?case using assms(2) by (subst eobi_loop.simps) (simp add: eobi_encode_def)
next
  case (Cons e es)
  obtain t body where b: "eobi_body e = Some (t, body)" using Cons.prems by auto
  have d: "eobi_dispatch t body = [e]" "length body < 2 ^ 16"
    using eobi_dispatch_body [OF b] Cons.prems by auto
  have "eobi_encode sc ve (e # es) = eobi_frame sc ve (t, body) @ eobi_encode sc ve es"
    by (simp add: eobi_encode_def b)
  then show ?case
    using eobi_frame_step [OF d(2), of pre sc ve t "eobi_encode sc ve es @ tail" out] d(1)
      Cons.IH [of "pre @ eobi_frame sc ve (t, body)" "out @ [e]"] Cons.prems by simp
qed

section \<open>Properties\<close>

text \<open>
  the EOBI decoder never panics, whatever the payload, terminates, keeps the events already in
  \<open>out\<close> and appends at most one event per eight bytes of payload.
\<close>

theorem eobi_decode_safe:
  "\<exists>evs. eobi_decode payload out = Some (out @ evs) \<and> 8 * length evs \<le> length payload"
  using eobi_loop_total [of payload 0 out] by (simp add: eobi_decode_def)

text \<open>
  C21: decoding the EOBI wire form of a list of events (with any schema and version, and a truncated
  tail shorter than a header) gives back exactly these events, in order, for every event the
  format can carry.
\<close>

theorem eobi_decode_encode:
  assumes "list_all (\<lambda>e. eobi_body e \<noteq> None \<and> event_ok e) es" "length tail < 8"
  shows "eobi_decode (eobi_encode sc ve es @ tail) [] = Some es"
  using eobi_loop_encode [OF assms, of "[]"] by (simp add: eobi_decode_def)

theorem eobi_decode_encode_witness:
  "eobi_decode (eobi_encode 1 1 [Add 123 42 1000 10 Bid, Mod 123 5, Del 123, Trade 7 111 2 (Some 123) (Some Ask)] @ [1, 2]) []
   = Some [Add 123 42 1000 10 Bid, Mod 123 5, Del 123, Trade 7 111 2 (Some 123) (Some Ask)]"
  by (rule eobi_decode_encode) (simp_all add: i64_ok_def)

end
