(* ===== verification/Decoder_Itch.thy ===== *)
theory Decoder_Itch
  imports Bytes
begin

text \<open>
  The ITCH 5.0 decoder (\<open>src/src/decoder_itch.rs\<close>): big-endian length-prefixed messages and a map
  of live orders that turns executions and cancels into absolute quantities.

  Every \<open>unwrap\<close>, slice and index of the source is a possible panic (\<open>None\<close>); the cursor \<open>o\<close> is
  threaded through the reads. \<open>mirror\<close> replays emitted events on a map of quantities, which is
  what the decoder's own state is compared with.
\<close>

record ostate =
  os_instr :: u32
  os_qty :: i64
  os_px :: i64
  os_side :: side

record itch =
  it_orders :: "u64 \<rightharpoonup> ostate"
  it_symbols :: "u16 \<rightharpoonup> bytes"

definition itch_new :: itch where
  "itch_new = \<lparr>it_orders = Map.empty, it_symbols = Map.empty\<rparr>"

definition be_u16 :: "bytes \<Rightarrow> u16 option" where
  "be_u16 b = do { x \<leftarrow> byte_at b 0; y \<leftarrow> byte_at b 1; Some (from_be [x, y]) }"

text \<open>A read returns the value and the advanced cursor.\<close>

definition read_fixed :: "nat \<Rightarrow> bytes \<Rightarrow> nat \<Rightarrow> (bytes \<times> nat) option" where
  "read_fixed n b off = (if off + n \<le> length b then Some (take n (drop off b), off + n) else None)"

definition read_u16 :: "bytes \<Rightarrow> nat \<Rightarrow> (u16 \<times> nat) option" where
  "read_u16 b off = map_option (\<lambda>(v, o'). (from_be v, o')) (read_fixed 2 b off)"

definition read_u32 :: "bytes \<Rightarrow> nat \<Rightarrow> (u32 \<times> nat) option" where
  "read_u32 b off = map_option (\<lambda>(v, o'). (from_be v, o')) (read_fixed 4 b off)"

definition read_u64 :: "bytes \<Rightarrow> nat \<Rightarrow> (u64 \<times> nat) option" where
  "read_u64 b off = map_option (\<lambda>(v, o'). (from_be v, o')) (read_fixed 8 b off)"

definition set_order :: "u64 \<Rightarrow> ostate option \<Rightarrow> itch \<Rightarrow> itch" where
  "set_order oid x st = st\<lparr>it_orders := (it_orders st)(oid := x)\<rparr>"

type_synonym itch_result = "(itch \<times> event list) option"

definition on_stock_directory :: "bytes \<Rightarrow> itch \<Rightarrow> itch_result" where
  "on_stock_directory body st =
     (if length body < 2 + 2 + 6 + 8 then Some (st, [])
      else do {
        (locate, o1) \<leftarrow> read_u16 body 0;
        Some (case read_fixed 8 body (o1 + (2 + 6)) of
                Some (symb, _) \<Rightarrow> (st\<lparr>it_symbols := (it_symbols st)(locate \<mapsto> symb)\<rparr>, [])
              | None \<Rightarrow> (st, []))
      })"

definition itch_on_add :: "bytes \<Rightarrow> itch \<Rightarrow> bool \<Rightarrow> itch_result" where
  "itch_on_add body st with_mpid =
     (if length body < 2 + 2 + 6 + 8 + 1 + 4 + 8 + 4 + (if with_mpid then 4 else 0) then Some (st, [])
      else do {
        (locate, o1) \<leftarrow> read_u16 body 0;
        (order_ref, o2) \<leftarrow> read_u64 body (o1 + (2 + 6));
        side_ch \<leftarrow> byte_at body o2;
        (shares, o3) \<leftarrow> read_u32 body (o2 + 1);
        (stock, o4) \<leftarrow> read_fixed 8 body o3;
        (price, o5) \<leftarrow> read_u32 body o4;
        let s = (if side_ch = 0x42 then Bid else Ask);
        let instr = ucast locate;
        Some (set_order order_ref
                (Some \<lparr>os_instr = instr, os_qty = int (unat shares), os_px = int (unat price), os_side = s\<rparr>) st,
              [Add order_ref instr (int (unat price)) (int (unat shares)) s])
      })"

text \<open>The reduction shared by executions and trades: absolute quantity or delete.\<close>

definition reduce_order :: "u64 \<Rightarrow> ostate \<Rightarrow> i64 \<Rightarrow> i64 \<Rightarrow> itch \<Rightarrow> itch \<times> event list" where
  "reduce_order order_ref s new_qty px st =
     (if new_qty > 0 then (set_order order_ref (Some (s\<lparr>os_qty := new_qty, os_px := px\<rparr>)) st, [Mod order_ref new_qty])
      else (set_order order_ref None st, [Del order_ref]))"

definition itch_on_exec :: "bytes \<Rightarrow> itch \<Rightarrow> itch_result" where
  "itch_on_exec body st =
     (if length body < 2 + 2 + 6 + 8 + 4 + 8 then Some (st, [])
      else do {
        (locate, o1) \<leftarrow> read_u16 body 0;
        (order_ref, o2) \<leftarrow> read_u64 body (o1 + (2 + 6));
        (executed, o3) \<leftarrow> read_u32 body o2;
        (case it_orders st order_ref of
           None \<Rightarrow> Some (st, [])
         | Some s \<Rightarrow>
             let new_qty = max (i64_sub (os_qty s) (int (unat executed))) 0;
                 (st, evs) = reduce_order order_ref s new_qty (os_px s) st
             in Some (st, evs @ [Trade (os_instr s) (os_px s) (int (unat executed)) (Some order_ref)
                                   (Some (opposite (os_side s)))]))
      })"

definition itch_on_cancel :: "bytes \<Rightarrow> itch \<Rightarrow> itch_result" where
  "itch_on_cancel body st =
     (if length body < 2 + 2 + 6 + 8 + 4 then Some (st, [])
      else do {
        (locate, o1) \<leftarrow> read_u16 body 0;
        (order_ref, o2) \<leftarrow> read_u64 body (o1 + (2 + 6));
        (canceled, o3) \<leftarrow> read_u32 body o2;
        (case it_orders st order_ref of
           None \<Rightarrow> Some (st, [])
         | Some ent \<Rightarrow>
             let new_qty = max (i64_sub (os_qty ent) (int (unat canceled))) 0
             in Some (reduce_order order_ref ent new_qty (os_px ent) st))
      })"

definition itch_on_delete :: "bytes \<Rightarrow> itch \<Rightarrow> itch_result" where
  "itch_on_delete body st =
     (if length body < 2 + 2 + 6 + 8 then Some (st, [])
      else do {
        (locate, o1) \<leftarrow> read_u16 body 0;
        (order_ref, o2) \<leftarrow> read_u64 body (o1 + (2 + 6));
        (case it_orders st order_ref of
           None \<Rightarrow> Some (st, [])
         | Some _ \<Rightarrow> Some (set_order order_ref None st, [Del order_ref]))
      })"

definition itch_on_replace :: "bytes \<Rightarrow> itch \<Rightarrow> itch_result" where
  "itch_on_replace body st =
     (if length body < 2 + 2 + 6 + 8 + 8 + 4 + 4 then Some (st, [])
      else do {
        (locate, o1) \<leftarrow> read_u16 body 0;
        (orig_ref, o2) \<leftarrow> read_u64 body (o1 + (2 + 6));
        (new_ref, o3) \<leftarrow> read_u64 body o2;
        (shares, o4) \<leftarrow> read_u32 body o3;
        (price, o5) \<leftarrow> read_u32 body o4;
        let instr = ucast locate;
        let s = (case it_orders st orig_ref of Some x \<Rightarrow> os_side x | None \<Rightarrow> Bid);
        let dels = (if it_orders st orig_ref \<noteq> None then [Del orig_ref] else []);
        let st = set_order orig_ref None st;
        Some (set_order new_ref
                (Some \<lparr>os_instr = instr, os_qty = int (unat shares), os_px = int (unat price), os_side = s\<rparr>) st,
              dels @ [Add new_ref instr (int (unat price)) (int (unat shares)) s])
      })"

definition itch_on_trade :: "bytes \<Rightarrow> itch \<Rightarrow> itch_result" where
  "itch_on_trade body st =
     (if length body < 2 + 2 + 6 + 8 + 1 + 4 + 8 + 4 + 8 then Some (st, [])
      else do {
        (locate, o1) \<leftarrow> read_u16 body 0;
        (order_ref, o2) \<leftarrow> read_u64 body (o1 + (2 + 6));
        side_ch \<leftarrow> byte_at body o2;
        (shares, o3) \<leftarrow> read_u32 body (o2 + 1);
        (stock, o4) \<leftarrow> read_fixed 8 body o3;
        (price, o5) \<leftarrow> read_u32 body o4;
        (match_num, o6) \<leftarrow> read_u64 body o5;
        (case it_orders st order_ref of
           Some s \<Rightarrow>
             let new_qty = max (i64_sub (os_qty s) (int (unat shares))) 0;
                 (st, evs) = reduce_order order_ref s new_qty (int (unat price)) st
             in Some (st, evs @ [Trade (os_instr s) (int (unat price)) (int (unat shares)) (Some order_ref)
                                   (Some (opposite (os_side s)))])
         | None \<Rightarrow>
             Some (st, [Trade (ucast locate) (int (unat price)) (int (unat shares)) (Some order_ref)
                          (Some (if side_ch = 0x42 then Bid else Ask))]))
      })"

text \<open>The message types, by their ASCII codes.\<close>

definition itch_dispatch :: "u8 \<Rightarrow> bytes \<Rightarrow> itch \<Rightarrow> itch_result" where
  "itch_dispatch typ body st =
     (if typ = 0x41 then itch_on_add body st False
      else if typ = 0x46 then itch_on_add body st True
      else if typ = 0x45 then itch_on_exec body st
      else if typ = 0x43 then itch_on_exec body st
      else if typ = 0x58 then itch_on_cancel body st
      else if typ = 0x44 then itch_on_delete body st
      else if typ = 0x55 then itch_on_replace body st
      else if typ = 0x50 then itch_on_trade body st
      else if typ = 0x52 then on_stock_directory body st
      else Some (st, []))"

function itch_loop :: "bytes \<Rightarrow> nat \<Rightarrow> itch \<Rightarrow> event list \<Rightarrow> itch_result" where
  "itch_loop payload off st out =
     (if off + 3 \<le> length payload then do {
        s \<leftarrow> slice payload off (off + 2);
        w \<leftarrow> be_u16 s;
        let msg_len = unat w;
        if msg_len < 1 then Some (st, out)
        else if off + 2 + msg_len > length payload then Some (st, out)
        else do {
          typ \<leftarrow> byte_at payload (off + 2);
          body \<leftarrow> slice payload (off + 3) (off + 3 + (msg_len - 1));
          (st, evs) \<leftarrow> itch_dispatch typ body st;
          itch_loop payload (off + 3 + (msg_len - 1)) st (out @ evs)
        }
      }
      else Some (st, out))"
  by pat_completeness auto

termination itch_loop
  by (relation "measure (\<lambda>(payload, off, st, out). length payload - off)") auto

definition itch_decode :: "bytes \<Rightarrow> itch \<Rightarrow> event list \<Rightarrow> itch_result" where
  "itch_decode payload st out = itch_loop payload 0 st out"

declare itch_loop.simps [simp del]

section \<open>Handlers are total and bounded\<close>

lemma read_defined [simp]:
  "off + n \<le> length b \<Longrightarrow> read_fixed n b off = Some (take n (drop off b), off + n)"
  "off + 2 \<le> length b \<Longrightarrow> read_u16 b off = Some (from_be (take 2 (drop off b)), off + 2)"
  "off + 4 \<le> length b \<Longrightarrow> read_u32 b off = Some (from_be (take 4 (drop off b)), off + 4)"
  "off + 8 \<le> length b \<Longrightarrow> read_u64 b off = Some (from_be (take 8 (drop off b)), off + 8)"
  by (simp_all add: read_fixed_def read_u16_def read_u32_def read_u64_def)

lemma byte_defined [simp]: "i < length b \<Longrightarrow> byte_at b i = Some (b ! i)"
  by (simp add: byte_at_def)

lemmas itch_handlers = on_stock_directory_def itch_on_add_def itch_on_exec_def itch_on_cancel_def
  itch_on_delete_def itch_on_replace_def itch_on_trade_def

text \<open>
  What every handler guarantees: it returns, at most two events and only from a body of at least
  eighteen bytes.
\<close>

lemma handler_total:
  "\<exists>st' evs. itch_dispatch typ body st = Some (st', evs) \<and> 9 * length evs \<le> length body"
  unfolding itch_dispatch_def
  by (simp add: itch_handlers reduce_order_def Let_def split: option.split)

section \<open>Lifting handler facts to the message loop\<close>

text \<open>
  A relation between the state before, the events appended and the state after that holds for
  every message and composes holds for the whole payload.
\<close>

locale itch_relation =
  fixes R :: "itch \<Rightarrow> event list \<Rightarrow> itch \<Rightarrow> bool"
  assumes rel_nil: "R st [] st"
    and rel_comp: "R a xs b \<Longrightarrow> R b ys c \<Longrightarrow> R a (xs @ ys) c"
    and rel_message: "itch_dispatch typ body st = Some (st', evs) \<Longrightarrow> R st evs st'"
begin

lemma loop_law:
  "\<exists>st' evs. itch_loop payload off st out = Some (st', out @ evs) \<and>
     9 * length evs \<le> length payload - off \<and> R st evs st'"
proof (induction payload off st out rule: itch_loop.induct)
  case (1 payload off st out)
  have stop: ?case if "itch_loop payload off st out = Some (st, out)"
    using that rel_nil by (intro exI [of _ st] exI [of _ "[]"]) simp
  show ?case
  proof (cases "off + 3 \<le> length payload")
    case False
    then show ?thesis by (intro stop) (simp add: itch_loop.simps)
  next
    case True
    let ?s = "take 2 (drop off payload)"
    have s: "slice payload off (off + 2) = Some ?s" using True by (simp add: slice_def)
    obtain w where w: "be_u16 ?s = Some w" using True by (simp add: be_u16_def)
    show ?thesis
    proof (cases "unat w < 1 \<or> off + 2 + unat w > length payload")
      case True
      then show ?thesis using \<open>off + 3 \<le> length payload\<close> s w by (intro stop) (auto simp: itch_loop.simps)
    next
      case False
      let ?body = "take (unat w - 1) (drop (off + 3) payload)"
      have body: "slice payload (off + 3) (off + 3 + (unat w - 1)) = Some ?body" "length ?body = unat w - 1"
        using False by (auto simp: slice_def min_def)
      have ty: "byte_at payload (off + 2) = Some (payload ! (off + 2))" using True by simp
      obtain st1 evs1 where d: "itch_dispatch (payload ! (off + 2)) ?body st = Some (st1, evs1)"
          "9 * length evs1 \<le> length ?body"
        using handler_total by blast
      obtain st2 evs2 where IH: "itch_loop payload (off + 3 + (unat w - 1)) st1 (out @ evs1) = Some (st2, (out @ evs1) @ evs2)"
          "9 * length evs2 \<le> length payload - (off + 3 + (unat w - 1))" "R st1 evs2 st2"
        using 1 [OF True s w refl _ _ ty body(1) d(1) refl] False by auto
      have "itch_loop payload off st out = Some (st2, out @ (evs1 @ evs2))"
        using IH(1) True False s w ty body(1) d(1) by (subst itch_loop.simps) simp
      moreover have "R st (evs1 @ evs2) st2" using rel_comp [OF rel_message [OF d(1)] IH(3)] .
      moreover have "9 * length (evs1 @ evs2) \<le> length payload - off" using d(2) [unfolded body(2)] IH(2) False by auto
      ultimately show ?thesis by blast
    qed
  qed
qed

end

section \<open>The order map mirrors the emitted events\<close>

type_synonym order_view = "u64 \<rightharpoonup> u32 \<times> i64 \<times> side"

fun mirror :: "order_view \<Rightarrow> event \<Rightarrow> order_view" where
  "mirror m (Add oid i px qty s) = m(oid \<mapsto> (i, qty, s))"
| "mirror m (Mod oid qty) = m(oid := map_option (\<lambda>(i, q, s). (i, qty, s)) (m oid))"
| "mirror m (Del oid) = m(oid := None)"
| "mirror m _ = m"

definition order_view_of :: "itch \<Rightarrow> order_view" where
  "order_view_of st oid = map_option (\<lambda>x. (os_instr x, os_qty x, os_side x)) (it_orders st oid)"

lemma order_view_set [simp]:
  "order_view_of (set_order oid x st) = (order_view_of st)(oid := map_option (\<lambda>x. (os_instr x, os_qty x, os_side x)) x)"
  by (simp add: order_view_of_def set_order_def fun_eq_iff)

lemma order_view_symbols [simp]: "order_view_of (st\<lparr>it_symbols := m\<rparr>) = order_view_of st"
  by (simp add: order_view_of_def fun_eq_iff)

lemma reduce_order_mirror:
  "it_orders st oid = Some x \<Longrightarrow> reduce_order oid x q px st = (st', evs) \<Longrightarrow>
     order_view_of st' = foldl mirror (order_view_of st) evs"
  by (auto simp: reduce_order_def order_view_of_def [of st oid] split: if_splits)

lemma handler_mirror:
  "itch_dispatch typ body st = Some (st', evs) \<Longrightarrow> order_view_of st' = foldl mirror (order_view_of st) evs"
  unfolding itch_dispatch_def
  by (auto simp: itch_handlers Let_def bind_Some_iff fun_upd_idem order_view_of_def [of st]
      split: if_splits option.splits prod.splits dest!: reduce_order_mirror)

interpretation mirrored: itch_relation "\<lambda>st evs st'. order_view_of st' = foldl mirror (order_view_of st) evs"
  by unfold_locales (auto dest: handler_mirror)

section \<open>Quantities and prices stay in range\<close>

definition u32_range :: "i64 \<Rightarrow> bool" where
  "u32_range x \<longleftrightarrow> 0 \<le> x \<and> x < 2 ^ 32"

definition orders_ok :: "itch \<Rightarrow> bool" where
  "orders_ok st \<longleftrightarrow> (\<forall>oid x. it_orders st oid = Some x \<longrightarrow> u32_range (os_qty x) \<and> u32_range (os_px x))"

fun itch_event_ok :: "event \<Rightarrow> bool" where
  "itch_event_ok (Add oid i px qty s) \<longleftrightarrow> u32_range px \<and> u32_range qty"
| "itch_event_ok (Mod oid qty) \<longleftrightarrow> 0 < qty \<and> u32_range qty"
| "itch_event_ok (Del oid) \<longleftrightarrow> True"
| "itch_event_ok (Trade i px qty maker taker) \<longleftrightarrow> u32_range px \<and> u32_range qty \<and> maker \<noteq> None \<and> taker \<noteq> None"
| "itch_event_ok Heartbeat \<longleftrightarrow> False"

lemma u32_range_uint [simp]: "u32_range (uint (w :: u32))"
  using uint_less_width [of w] by (simp add: u32_range_def)

lemma orders_ok_set [simp]:
  "orders_ok st \<Longrightarrow> orders_ok (set_order oid None st)"
  "orders_ok st \<Longrightarrow> u32_range (os_qty x) \<Longrightarrow> u32_range (os_px x) \<Longrightarrow> orders_ok (set_order oid (Some x) st)"
  by (simp_all add: orders_ok_def set_order_def)

lemma orders_ok_symbols [simp]: "orders_ok (st\<lparr>it_symbols := m\<rparr>) = orders_ok st"
  by (simp add: orders_ok_def)

lemma reduced_range:
  assumes "u32_range q"
  shows "u32_range (max (i64_sub q (uint (w :: u32))) 0)"
proof -
  define v where "v = uint w"
  have v: "0 \<le> v" "v < 2 ^ 32" using uint_less_width [of w] by (simp_all add: v_def)
  then have "i64_ok (q - v)" using assms by (simp add: u32_range_def i64_ok_def)
  then show ?thesis using assms v by (simp add: u32_range_def i64_sub_def flip: v_def)
qed

lemma reduce_order_ok:
  assumes "orders_ok st" "u32_range q" "u32_range px" "reduce_order oid x q px st = (st', evs)"
  shows "orders_ok st' \<and> list_all itch_event_ok evs"
  using assms by (auto simp: reduce_order_def split: if_splits)

definition good_result :: "itch_result \<Rightarrow> bool" where
  "good_result r = (case r of None \<Rightarrow> True | Some (st, evs) \<Rightarrow> orders_ok st \<and> list_all itch_event_ok evs)"

lemma good_nil [simp]: "good_result (Some (st, [])) = orders_ok st"
  by (simp add: good_result_def)

lemma reduced_good:
  assumes ok: "orders_ok st" and x: "it_orders st oid = Some x" and px: "u32_range px"
  shows "good_result (Some (reduce_order oid x (max (i64_sub (os_qty x) (uint (w :: u32))) 0) px st))"
proof -
  have q: "u32_range (max (i64_sub (os_qty x) (uint w)) 0)"
    using ok x by (intro reduced_range) (simp add: orders_ok_def)
  show ?thesis
    using reduce_order_ok [OF ok q px] unfolding good_result_def by (simp split: prod.split)
qed

lemma add_good: "orders_ok st \<Longrightarrow> good_result (itch_on_add body st mp)"
  by (simp add: itch_on_add_def good_result_def Let_def)

lemma replace_good: "orders_ok st \<Longrightarrow> good_result (itch_on_replace body st)"
  by (simp add: itch_on_replace_def good_result_def Let_def)

lemma delete_good: "orders_ok st \<Longrightarrow> good_result (itch_on_delete body st)"
  by (simp add: itch_on_delete_def good_result_def split: option.split)

lemma cancel_good: "orders_ok st \<Longrightarrow> good_result (itch_on_cancel body st)"
  using reduced_good [of st]
  by (simp add: itch_on_cancel_def Let_def orders_ok_def split: option.split)

lemma good_append:
  "good_result (Some r) \<Longrightarrow> list_all itch_event_ok tl' \<Longrightarrow>
     good_result (case r of (st, evs) \<Rightarrow> Some (st, evs @ tl'))"
  by (simp add: good_result_def split: prod.splits)

lemma exec_good: "orders_ok st \<Longrightarrow> good_result (itch_on_exec body st)"
proof -
  assume ok: "orders_ok st"
  have "good_result (case it_orders st oid of None \<Rightarrow> Some (st, [])
    | Some s \<Rightarrow> case reduce_order oid s (max (i64_sub (os_qty s) (uint (w :: u32))) 0) (os_px s) st of
        (st, evs) \<Rightarrow> Some (st, evs @ [Trade (os_instr s) (os_px s) (uint w) (Some oid) (Some (opposite (os_side s)))]))" for oid w
  proof (cases "it_orders st oid")
    case (Some s)
    then have "u32_range (os_px s)" using ok by (simp add: orders_ok_def)
    then show ?thesis using Some by (auto intro!: good_append reduced_good ok)
  qed (simp add: good_result_def ok)
  then show ?thesis by (simp add: itch_on_exec_def Let_def ok cong: option.case_cong)
qed

lemma trade_good: "orders_ok st \<Longrightarrow> good_result (itch_on_trade body st)"
proof -
  assume ok: "orders_ok st"
  have "good_result (case it_orders st oid of None \<Rightarrow> Some (st, [Trade i (uint (p :: u32)) (uint w) (Some oid) (Some sd)])
    | Some s \<Rightarrow> case reduce_order oid s (max (i64_sub (os_qty s) (uint (w :: u32))) 0) (uint p) st of
        (st, evs) \<Rightarrow> Some (st, evs @ [Trade (os_instr s) (uint p) (uint w) (Some oid) (Some (opposite (os_side s)))]))"
    for oid w p i sd
  proof (cases "it_orders st oid")
    case (Some s)
    then show ?thesis by (auto intro!: good_append reduced_good ok)
  qed (simp add: good_result_def ok)
  then show ?thesis by (simp add: itch_on_trade_def Let_def ok cong: option.case_cong)
qed

lemma handler_good: "orders_ok st \<Longrightarrow> good_result (itch_dispatch typ body st)"
  using add_good exec_good cancel_good delete_good replace_good trade_good
  by (simp add: itch_dispatch_def) (simp add: good_result_def on_stock_directory_def)

interpretation ranged: itch_relation "\<lambda>st evs st'. orders_ok st \<longrightarrow> orders_ok st' \<and> list_all itch_event_ok evs"
proof
  show "itch_dispatch ty body st = Some (st', evs) \<Longrightarrow>
      orders_ok st \<longrightarrow> orders_ok st' \<and> list_all itch_event_ok evs" for ty body st st' evs
    using handler_good [of st ty body] by (simp add: good_result_def)
qed auto

section \<open>Properties\<close>

text \<open>
  the ITCH decoder never panics, whatever the payload and the orders it tracks: it terminates,
  keeps the events already in \<open>out\<close> and appends at most one event per nine bytes of payload.
\<close>

theorem itch_decode_safe:
  "\<exists>st' evs. itch_decode payload st out = Some (st', out @ evs) \<and> 9 * length evs \<le> length payload"
  using mirrored.loop_law [of payload 0 st out] by (auto simp: itch_decode_def)

text \<open>
  C23: the decoder's order map follows the events it emits: replaying the emitted events (adds, absolute
  quantities, deletes) on the view of the map before the packet gives the view after it, so the
  decoder and an order book fed by it agree on instrument, quantity and side of every order.
\<close>

theorem itch_decode_mirrors:
  "\<exists>st' evs. itch_decode payload st out = Some (st', out @ evs) \<and>
     order_view_of st' = foldl mirror (order_view_of st) evs"
  using mirrored.loop_law [of payload 0 st out] by (auto simp: itch_decode_def)

text \<open>
  C24: quantities and prices stay unsigned 32-bit values: if that holds of the tracked orders it
  holds after any packet, and of every event emitted; in particular a \<open>Mod\<close> always has a
  positive quantity, and no heartbeat is emitted.
\<close>

theorem itch_decode_ranges:
  assumes "orders_ok st"
  shows "\<exists>st' evs. itch_decode payload st out = Some (st', out @ evs) \<and> orders_ok st' \<and> list_all itch_event_ok evs"
  using ranged.loop_law [of payload 0 st out] assms by (auto simp: itch_decode_def)

theorem itch_decode_ranges_witness:
  "\<exists>st' evs. itch_decode [0, 3, 0x53, 1, 2] itch_new [] = Some (st', evs) \<and> list_all itch_event_ok evs"
  using itch_decode_ranges [of itch_new "[0, 3, 0x53, 1, 2]" "[]"] by (auto simp: itch_new_def orders_ok_def)

text \<open>Wire forms of an add, an execution and a trade, for the example below.\<close>

definition itch_msg :: "u8 \<Rightarrow> bytes \<Rightarrow> bytes" where
  "itch_msg typ body = to_be (word_of_nat (length body + 1) :: u16) @ [typ] @ body"

definition itch_hdr :: "u16 \<Rightarrow> u64 \<Rightarrow> bytes" where
  "itch_hdr locate oid = to_be locate @ replicate 8 0 @ to_be oid"

definition price_example :: bytes where
  "price_example =
     itch_msg 0x41 (itch_hdr 5 9 @ [0x42] @ to_be (100 :: u32) @ replicate 8 0 @ to_be (2000 :: u32)) @
     itch_msg 0x50 (itch_hdr 5 9 @ [0x42] @ to_be (10 :: u32) @ replicate 8 0 @ to_be (2500 :: u32) @ to_be (1 :: u64)) @
     itch_msg 0x45 (itch_hdr 5 9 @ to_be (20 :: u32) @ to_be (2 :: u64))"

text \<open>
  a trade message overwrites the tracked resting price with its own price, so a later execution of
  the same order is reported at that price: order 9 rests at 2000, trades once at 2500, and its
  next execution is published at 2500 instead of 2000.
\<close>

theorem itch_trade_overwrites_price:
  "map_option snd (itch_decode price_example itch_new []) =
     Some [Add 9 5 2000 100 Bid, Mod 9 90, Trade 5 2500 10 (Some 9) (Some Ask),
           Mod 9 70, Trade 5 2500 20 (Some 9) (Some Ask)]"
  by code_simp

end
