(* ===== verification/Decoder_Fast.thy ===== *)
theory Decoder_Fast
  imports Bytes
begin

text \<open>
  The FAST/EMDI-style decoder (\<open>src/src/decoder_fast.rs\<close>): stop-bit integers, zigzag signed values,
  a presence map and length-framed bodies.

  \<open>body_len\<close> is an unchecked 64-bit length: the source adds it to the offset with wrap-around and
  then slices, so a huge length makes the slice panic (\<open>fast_decode_panics\<close>). Apart from that the
  decoder is total, and it inverts the encoder \<open>fast_encode\<close>.
\<close>

function sbi_loop :: "nat \<Rightarrow> bytes \<Rightarrow> nat \<Rightarrow> u64 \<Rightarrow> nat \<Rightarrow> nat \<Rightarrow> u64 \<times> nat" where
  "sbi_loop limit b off v shift consumed =
     (if off < length b then
        let byte = b ! off;
            v = v OR push_bit shift (ucast (byte AND 0x7F))
        in if byte AND 0x80 = 0 then (v, consumed + 1)
           else if shift + 7 > limit then (v, consumed + 1)
           else sbi_loop limit b (off + 1) v (shift + 7) (consumed + 1)
      else (v, consumed))"
  by pat_completeness auto

termination sbi_loop
  by (relation "measure (\<lambda>(limit, b, off, v, shift, consumed). length b - off)") auto

declare sbi_loop.simps [simp del]

definition read_pmap :: "bytes \<Rightarrow> nat \<Rightarrow> u64 \<times> nat" where
  "read_pmap b off = sbi_loop 56 b off 0 0 0"

definition read_sbi_u64 :: "bytes \<Rightarrow> nat \<Rightarrow> u64 \<times> nat" where
  "read_sbi_u64 b off = sbi_loop 63 b off 0 0 0"

text \<open>\<open>((uv >> 1) as i64) ^ (-((uv & 1) as i64))\<close>.\<close>

definition zigzag :: "u64 \<Rightarrow> i64" where
  "zigzag uv = sint (drop_bit 1 uv XOR (- (uv AND 1)))"

definition raw_side :: "u8 \<Rightarrow> side" where
  "raw_side b = (if b = 0 then Bid else Ask)"

definition fast_on_add :: "bytes \<Rightarrow> event list option" where
  "fast_on_add body =
     (let (order_id, n1) = read_sbi_u64 body 0; o1 = n1 in
      if n1 = 0 then Some []
      else let (instr, n2) = read_sbi_u64 body o1; o2 = o1 + n2 in
        if n2 = 0 then Some []
        else if o2 \<ge> length body then Some []
        else do {
          sb \<leftarrow> byte_at body o2;
          let (uv_px, n3) = read_sbi_u64 body (o2 + 1);
          let o3 = o2 + 1 + n3;
          if n3 = 0 then Some []
          else let (uv_qty, n4) = read_sbi_u64 body o3 in
            if n4 = 0 then Some []
            else Some [Add order_id (ucast instr) (zigzag uv_px) (zigzag uv_qty) (raw_side sb)]
        })"

definition fast_on_mod :: "bytes \<Rightarrow> event list" where
  "fast_on_mod body =
     (let (order_id, n1) = read_sbi_u64 body 0 in
      if n1 = 0 then []
      else let (uv_qty, n2) = read_sbi_u64 body n1 in [Mod order_id (zigzag uv_qty)])"

definition fast_on_del :: "bytes \<Rightarrow> event list" where
  "fast_on_del body = (let (order_id, n1) = read_sbi_u64 body 0 in [Del order_id])"

definition fast_on_trade :: "bytes \<Rightarrow> u64 \<Rightarrow> event list option" where
  "fast_on_trade body pmap =
     (let (instr, n1) = read_sbi_u64 body 0; o1 = n1 in
      if n1 = 0 then Some []
      else let (uv_px, n2) = read_sbi_u64 body o1; o2 = o1 + n2 in
        if n2 = 0 then Some []
        else let (uv_qty, n3) = read_sbi_u64 body o2; o3 = o2 + n3 in
          if n3 = 0 then Some []
          else
            let (oid, n4) = (if pmap AND 1 \<noteq> 0 then read_sbi_u64 body o3 else (0, 0)) in
            if pmap AND 1 \<noteq> 0 \<and> n4 = 0 then Some []
            else let maker = (if pmap AND 1 \<noteq> 0 then Some oid else None); o4 = o3 + n4 in
              if pmap AND 2 \<noteq> 0 \<and> o4 < length body
              then do { sb \<leftarrow> byte_at body o4;
                        Some [Trade (ucast instr) (zigzag uv_px) (zigzag uv_qty) maker (Some (raw_side sb))] }
              else Some [Trade (ucast instr) (zigzag uv_px) (zigzag uv_qty) maker None])"

definition fast_dispatch :: "u64 \<Rightarrow> bytes \<Rightarrow> u64 \<Rightarrow> event list option" where
  "fast_dispatch tmpl body pmap =
     (if tmpl = 1 then fast_on_add body
      else if tmpl = 2 then Some (fast_on_mod body)
      else if tmpl = 3 then Some (fast_on_del body)
      else if tmpl = 4 then fast_on_trade body pmap
      else Some [])"

lemma slice_bounds: "slice b from to = Some s \<Longrightarrow> from \<le> to \<and> to \<le> length b"
  by (simp add: slice_def split: if_splits)

function fast_loop :: "bytes \<Rightarrow> nat \<Rightarrow> event list \<Rightarrow> event list option" where
  "fast_loop payload off out =
     (if off < length payload then
        let (pmap, n) = read_pmap payload off in
        if n = 0 then Some out
        else let (tmpl, n2) = read_sbi_u64 payload (off + n) in
          if n2 = 0 then Some out
          else let (body_len, n3) = read_sbi_u64 payload (off + n + n2) in
            if n3 = 0 then Some out
            else let off' = off + n + n2 + n3; stop = usize_add off' body_len in
              if stop > length payload then Some out
              else do {
                body \<leftarrow> slice payload off' stop;
                evs \<leftarrow> fast_dispatch tmpl body pmap;
                fast_loop payload stop (out @ evs)
              }
      else Some out)"
  by pat_completeness auto

termination fast_loop
  by (relation "measure (\<lambda>(payload, off, out). length payload - off)") (auto dest!: slice_bounds)

declare fast_loop.simps [simp del]

definition fast_decode :: "bytes \<Rightarrow> event list \<Rightarrow> event list option" where
  "fast_decode payload out = fast_loop payload 0 out"

section \<open>Stop-bit integers\<close>

lemma sbi_loop_consumed:
  "snd (sbi_loop limit b off v shift consumed) \<le> consumed + (length b - off) \<and>
   consumed \<le> snd (sbi_loop limit b off v shift consumed) \<and>
   (off < length b \<longrightarrow> consumed < snd (sbi_loop limit b off v shift consumed))"
proof (induction limit b off v shift consumed rule: sbi_loop.induct)
  case (1 limit b off v shift consumed)
  show ?case
  proof (cases "off < length b")
    case False
    then show ?thesis by (simp add: sbi_loop.simps)
  next
    case True
    show ?thesis
      using 1 [OF True refl refl] True
      by (subst (1 2 3) sbi_loop.simps) (auto simp: Let_def)
  qed
qed

fun sbi_enc :: "nat \<Rightarrow> bytes" where
  "sbi_enc v = (if v < 128 then [word_of_nat v] else word_of_nat (v mod 128 + 128) # sbi_enc (v div 128))"

declare sbi_enc.simps [simp del]

lemma byte_low7: "n < 128 \<Longrightarrow> ucast ((word_of_nat (n + 128) :: u8) AND 0x7F) = (word_of_nat n :: u64)"
  "n < 128 \<Longrightarrow> ucast ((word_of_nat n :: u8) AND 0x7F) = (word_of_nat n :: u64)"
  "n < 128 \<Longrightarrow> (word_of_nat (n + 128) :: u8) AND 0x80 \<noteq> 0"
  "n < 128 \<Longrightarrow> (word_of_nat n :: u8) AND 0x80 = 0"
proof -
  have "\<forall>n \<in> set [0..<128].
      ucast ((word_of_nat (n + 128) :: u8) AND 0x7F) = (word_of_nat n :: u64) \<and>
      ucast ((word_of_nat n :: u8) AND 0x7F) = (word_of_nat n :: u64) \<and>
      (word_of_nat (n + 128) :: u8) AND 0x80 \<noteq> 0 \<and> (word_of_nat n :: u8) AND 0x80 = 0"
    by code_simp
  then show "n < 128 \<Longrightarrow> ucast ((word_of_nat (n + 128) :: u8) AND 0x7F) = (word_of_nat n :: u64)"
    "n < 128 \<Longrightarrow> ucast ((word_of_nat n :: u8) AND 0x7F) = (word_of_nat n :: u64)"
    "n < 128 \<Longrightarrow> (word_of_nat (n + 128) :: u8) AND 0x80 \<noteq> 0"
    "n < 128 \<Longrightarrow> (word_of_nat n :: u8) AND 0x80 = 0" by simp_all
qed

lemma word_split7: "(word_of_nat n :: u64) = word_of_nat (n mod 128) OR push_bit 7 (word_of_nat (n div 128))"
proof -
  have "n mod 128 = take_bit 7 n" "n div 128 = drop_bit 7 n"
    by (simp_all add: take_bit_eq_mod drop_bit_eq_div)
  then show ?thesis
    by (simp add: bit_eq_iff bit_or_iff bit_push_bit_iff bit_of_nat_iff bit_take_bit_iff bit_drop_bit_eq) fastforce
qed

lemma sbi_loop_enc:
  assumes "n * 2 ^ s < 2 ^ 64"
  shows "sbi_loop 63 (pre @ sbi_enc n @ rest) (length pre) acc s c =
    (acc OR push_bit s (word_of_nat n), c + length (sbi_enc n))"
  using assms
proof (induction n arbitrary: pre acc s c rule: sbi_enc.induct)
  case (1 n)
  show ?case
  proof (cases "n < 128")
    case True
    then show ?thesis by (simp add: sbi_enc.simps [of n] sbi_loop.simps byte_low7)
  next
    case False
    let ?x = "word_of_nat (n mod 128 + 128) :: u8"
    have m: "n mod 128 < 128" by simp
    have "128 * 2 ^ s \<le> n * 2 ^ s" using False by (intro mult_right_mono) simp_all
    then have "128 * 2 ^ s < (2 :: nat) ^ 64" using 1(2) by (rule le_less_trans)
    moreover have "(2 :: nat) ^ (s + 7) = 128 * 2 ^ s" by (simp add: power_add)
    ultimately have "(2 :: nat) ^ (s + 7) < 2 ^ 64" by metis
    then have s: "s + 7 < 64" by (rule power_less_imp_less_exp [rotated]) simp
    have "n div 128 * 2 ^ (s + 7) = (n div 128 * 128) * 2 ^ s" by (simp add: power_add)
    also have "\<dots> \<le> n * 2 ^ s" by simp
    finally have small: "n div 128 * 2 ^ (s + 7) < 2 ^ 64" using 1(2) by linarith
    have step: "sbi_loop 63 (pre @ sbi_enc n @ rest) (length pre) acc s c =
        sbi_loop 63 ((pre @ [?x]) @ sbi_enc (n div 128) @ rest) (length (pre @ [?x]))
          (acc OR push_bit s (word_of_nat (n mod 128))) (s + 7) (c + 1)"
      using False s byte_low7 [OF m] by (subst sbi_loop.simps) (simp add: sbi_enc.simps [of n] Let_def)
    have "push_bit s (word_of_nat n :: u64) =
        push_bit s (word_of_nat (n mod 128)) OR push_bit (s + 7) (word_of_nat (n div 128))"
      by (subst word_split7 [of n]) (simp add: push_bit_or push_bit_push_bit)
    then show ?thesis
      unfolding step using 1(1) [OF False small, of "pre @ [?x]"] False
      by (simp add: sbi_enc.simps [of n] or.assoc)
  qed
qed

definition sbi :: "u64 \<Rightarrow> bytes" where
  "sbi w = sbi_enc (unat w)"

lemma read_sbi_at: "n = length a \<Longrightarrow> read_sbi_u64 (a @ sbi w @ b) n = (w, length (sbi w))"
  using sbi_loop_enc [of "unat w" 0 a b 0 0] unat_less_width [of w]
  by (simp add: read_sbi_u64_def sbi_def)

lemma sbi_nonempty [simp]: "sbi w \<noteq> []"
  by (simp add: sbi_def sbi_enc.simps)

section \<open>Zigzag\<close>

definition zz_enc :: "i64 \<Rightarrow> u64" where
  "zz_enc x = word_of_int (if 0 \<le> x then 2 * x else - 2 * x - 1)"

lemma uint_of_int_id: "0 \<le> y \<Longrightarrow> y < 2 ^ 64 \<Longrightarrow> uint (word_of_int y :: u64) = y"
  by (simp add: uint_word_of_int)

lemma zigzag_enc:
  assumes ok: "i64_ok x"
  shows "zigzag (zz_enc x) = x"
proof -
  have half: "drop_bit 1 w = word_of_int (uint w div 2)" for w :: u64
    by (simp add: drop_bit_Suc word_div_def)
  have low: "w AND 1 = word_of_int (uint w mod 2)" for w :: u64
    by (simp add: and_one_eq word_mod_def)
  have "drop_bit 1 (zz_enc x) XOR (- (zz_enc x AND 1)) = (word_of_int x :: u64)"
  proof (cases "0 \<le> x")
    case True
    then have "uint (zz_enc x) = 2 * x"
      using ok unfolding zz_enc_def by (subst uint_of_int_id) (simp_all add: i64_ok_def)
    then show ?thesis by (simp only: half low) simp
  next
    case False
    then have u: "uint (zz_enc x) = 2 * (- x - 1) + 1"
      using ok unfolding zz_enc_def by (subst uint_of_int_id) (simp_all add: i64_ok_def)
    have "uint (zz_enc x) div 2 = - x - 1" "uint (zz_enc x) mod 2 = 1" unfolding u by presburger+
    then have "drop_bit 1 (zz_enc x) XOR (- (zz_enc x AND 1)) = (NOT (word_of_int (- x - 1)) :: u64)"
      by (simp only: half low) simp
    then show ?thesis by (simp add: not_eq_complement)
  qed
  then show ?thesis using ok by (simp only: zigzag_def sint_word_of_int_ok)
qed

section \<open>Totality under honest lengths\<close>

definition lengths_ok :: "bytes \<Rightarrow> bool" where
  "lengths_ok payload \<longleftrightarrow>
     list_all (\<lambda>off. uint (fst (read_sbi_u64 payload off)) + int (length payload) < 2 ^ 64) [0..<length payload]"

lemma fast_dispatch_total: "\<exists>evs. fast_dispatch tmpl body pmap = Some evs \<and> length evs \<le> 1"
  by (auto simp: fast_dispatch_def fast_on_add_def fast_on_mod_def fast_on_del_def fast_on_trade_def Let_def
      byte_at_def split: prod.split)

lemma read_sbi_bounds:
  assumes "read_sbi_u64 payload off = (v, n)"
  shows "off + n \<le> length payload \<or> n = 0"
  using sbi_loop_consumed [of 63 payload off 0 0 0] assms by (auto simp: read_sbi_u64_def)

lemma read_sbi_small:
  assumes "lengths_ok payload" "read_sbi_u64 payload off = (v, n)" "n \<noteq> 0"
  shows "unat v + length payload < 2 ^ 64"
proof -
  have "off + n \<le> length payload" using read_sbi_bounds [OF assms(2)] assms(3) by simp
  then have "off < length payload" using assms(3) by simp
  then have "uint (fst (read_sbi_u64 payload off)) + int (length payload) < 2 ^ 64"
    using assms(1) by (auto simp: lengths_ok_def list_all_iff)
  then have "int (unat v + length payload) < int (2 ^ 64)" using assms(2) by simp
  then show ?thesis unfolding of_nat_less_iff .
qed

lemma fast_loop_total:
  assumes ok: "lengths_ok payload"
  shows "\<exists>evs. fast_loop payload off out = Some (out @ evs) \<and> 3 * length evs \<le> length payload - off"
  using ok
proof (induction payload off out rule: fast_loop.induct)
  case (1 payload off out)
  obtain pmap n where p: "read_pmap payload off = (pmap, n)" by fastforce
  obtain tmpl n2 where t: "read_sbi_u64 payload (off + n) = (tmpl, n2)" by fastforce
  obtain body_len n3 where b: "read_sbi_u64 payload (off + n + n2) = (body_len, n3)" by fastforce
  define stop where "stop = off + n + n2 + n3 + unat body_len"
  show ?case
  proof (cases "off < length payload \<and> n \<noteq> 0 \<and> n2 \<noteq> 0 \<and> n3 \<noteq> 0")
    case False
    then show ?thesis using p t b by (subst fast_loop.simps) auto
  next
    case True
    have "unat body_len + length payload < 2 ^ 64" using read_sbi_small [OF 1(2) b] True by simp
    moreover have "off + n + n2 + n3 \<le> length payload" using read_sbi_bounds [OF b] True by simp
    ultimately have stop: "usize_add (off + n + n2 + n3) body_len = stop"
      by (simp add: stop_def usize_add_eq)
    show ?thesis
    proof (cases "stop > length payload")
      case long: True
      then show ?thesis using p t b stop True by (subst fast_loop.simps) (simp add: Let_def)
    next
      case False
      let ?body = "take (stop - (off + n + n2 + n3)) (drop (off + n + n2 + n3) payload)"
      have body: "slice payload (off + n + n2 + n3) stop = Some ?body"
        using False by (simp add: slice_def stop_def)
      obtain evs where e: "fast_dispatch tmpl ?body pmap = Some evs" "length evs \<le> 1"
        using fast_dispatch_total by blast
      obtain evs' where IH: "fast_loop payload stop (out @ evs) = Some ((out @ evs) @ evs')"
          "3 * length evs' \<le> length payload - stop"
        using 1(1) [OF _ p [symmetric] refl _ t [symmetric] refl _ b [symmetric] refl _ refl refl, unfolded stop,
            OF _ _ _ _ False body e(1) 1(2)] True by auto
      have "fast_loop payload off out = Some (out @ (evs @ evs'))"
        using IH(1) p t b stop True False body e(1) by (subst fast_loop.simps) (simp add: Let_def)
      moreover have "3 * length (evs @ evs') \<le> length payload - off"
        using IH(2) e(2) True False by (auto simp: stop_def)
      ultimately show ?thesis by blast
    qed
  qed
qed

section \<open>Decoding what was encoded\<close>

fun fast_body :: "event \<Rightarrow> u64 \<times> u64 \<times> bytes" where
  "fast_body (Add oid i px qty s) =
     (0, 1, sbi oid @ sbi (ucast i) @ [side_byte s] @ sbi (zz_enc px) @ sbi (zz_enc qty))"
| "fast_body (Mod oid qty) = (0, 2, sbi oid @ sbi (zz_enc qty))"
| "fast_body (Del oid) = (0, 3, sbi oid)"
| "fast_body (Trade i px qty maker taker) =
     ((case maker of None \<Rightarrow> 0 | Some _ \<Rightarrow> 1) + (case taker of None \<Rightarrow> 0 | Some _ \<Rightarrow> 2), 4,
      sbi (ucast i) @ sbi (zz_enc px) @ sbi (zz_enc qty) @
      (case maker of None \<Rightarrow> [] | Some m \<Rightarrow> sbi m) @
      (case taker of None \<Rightarrow> [] | Some s \<Rightarrow> [side_byte s]))"
| "fast_body Heartbeat = (0, 0, [])"

lemma ucast_u32 [simp]: "ucast (ucast (i :: u32) :: u64) = i"
  by (simp add: bit_eq_iff bit_unsigned_iff)

lemma read_first: "read_sbi_u64 (sbi w @ b) 0 = (w, length (sbi w))" "read_sbi_u64 (sbi w) 0 = (w, length (sbi w))"
  using read_sbi_at [of 0 "[]" w] read_sbi_at [of 0 "[]" w "[]"] by simp_all

lemma fast_dispatch_body:
  assumes "fast_body e = (pmap, tmpl, body)" "event_ok e" "e \<noteq> Heartbeat"
  shows "fast_dispatch tmpl body pmap = Some [e]"
proof (cases e)
  case (Add oid i px qty s)
  let ?sb = "side_byte s"
  let ?b = "sbi oid @ sbi (ucast i) @ [?sb] @ sbi (zz_enc px) @ sbi (zz_enc qty)"
  have "read_sbi_u64 ?b (length (sbi oid)) = (ucast i, length (sbi (ucast i)))"
    using read_sbi_at [of _ "sbi oid"] by simp
  moreover have "byte_at ?b (length (sbi oid) + length (sbi (ucast i))) = Some ?sb"
    by (simp add: byte_at_def nth_append)
  moreover have "read_sbi_u64 ?b (length (sbi oid) + length (sbi (ucast i)) + 1) = (zz_enc px, length (sbi (zz_enc px)))"
    using read_sbi_at [of _ "sbi oid @ sbi (ucast i) @ [?sb]"] by simp
  moreover have "read_sbi_u64 ?b (length (sbi oid) + length (sbi (ucast i)) + 1 + length (sbi (zz_enc px))) =
      (zz_enc qty, length (sbi (zz_enc qty)))"
    using read_sbi_at [of _ "sbi oid @ sbi (ucast i) @ [?sb] @ sbi (zz_enc px)" _ "[]"] by (simp add: add.assoc)
  ultimately have "fast_on_add ?b = Some [Add oid i px qty s]"
    using assms(2) Add read_first(1) [of oid]
    by (simp add: fast_on_add_def Let_def zigzag_enc raw_side_def side_byte_def split: side.splits)
  then show ?thesis using assms(1) Add by (auto simp: fast_dispatch_def)
next
  case (Mod oid qty)
  have "read_sbi_u64 (sbi oid @ sbi (zz_enc qty)) (length (sbi oid)) = (zz_enc qty, length (sbi (zz_enc qty)))"
    using read_sbi_at [of _ "sbi oid" _ "[]"] by simp
  then have "fast_on_mod (sbi oid @ sbi (zz_enc qty)) = [Mod oid qty]"
    using assms(2) Mod by (simp add: fast_on_mod_def read_first zigzag_enc)
  then show ?thesis using assms(1) Mod by (auto simp: fast_dispatch_def)
next
  case (Del oid)
  then show ?thesis using assms(1) by (auto simp: fast_dispatch_def fast_on_del_def read_first)
next
  case (Trade i px qty maker taker)
  let ?m = "case maker of None \<Rightarrow> [] | Some m \<Rightarrow> sbi m"
  let ?t = "case taker of None \<Rightarrow> [] | Some s \<Rightarrow> [side_byte s]"
  let ?a = "sbi (ucast i) @ sbi (zz_enc px) @ sbi (zz_enc qty)"
  let ?b = "sbi (ucast i) @ sbi (zz_enc px) @ sbi (zz_enc qty) @ ?m @ ?t"
  have R: "read_sbi_u64 ?b (length (sbi (ucast i))) = (zz_enc px, length (sbi (zz_enc px)))"
    "read_sbi_u64 ?b (length (sbi (ucast i)) + length (sbi (zz_enc px))) = (zz_enc qty, length (sbi (zz_enc qty)))"
    using read_sbi_at [of _ "sbi (ucast i)"] read_sbi_at [of _ "sbi (ucast i) @ sbi (zz_enc px)"] by simp_all
  have M: "maker = Some m \<Longrightarrow> read_sbi_u64 ?b (length (sbi (ucast i)) + length (sbi (zz_enc px)) + length (sbi (zz_enc qty))) =
      (m, length (sbi m))" for m
    using read_sbi_at [of _ ?a m ?t] by (simp add: add.assoc)
  have T: "taker = Some s \<Longrightarrow> byte_at ?b (length (sbi (ucast i)) + length (sbi (zz_enc px)) + length (sbi (zz_enc qty)) + length ?m) =
      Some (side_byte s)" for s
    by (simp add: byte_at_def nth_append)
  have "fast_on_trade ?b pmap = Some [Trade i px qty maker taker]"
    using assms Trade R M T
    by (cases maker; cases taker)
       (auto simp: fast_on_trade_def Let_def read_first zigzag_enc raw_side_def side_byte_def split: side.splits)
  then show ?thesis using assms(1) Trade by (auto simp: fast_dispatch_def)
qed (use assms in auto)

definition fast_frame :: "u64 \<times> u64 \<times> bytes \<Rightarrow> bytes" where
  "fast_frame m = (case m of (pmap, tmpl, body) \<Rightarrow> sbi pmap @ sbi tmpl @ sbi (word_of_nat (length body)) @ body)"

text \<open>A presence map below 128 is one byte, read alike by both readers.\<close>

lemma read_pmap_at:
  assumes "n = length a" "unat w < 128"
  shows "read_pmap (a @ sbi w @ b) n = (w, 1)" "length (sbi w) = 1"
proof -
  have e: "sbi w = [word_of_nat (unat w)]" using assms(2) by (simp add: sbi_def sbi_enc.simps)
  show "length (sbi w) = 1" by (simp add: e)
  have "ucast ((word_of_nat (unat w) :: u8) AND 0x7F) = w" using byte_low7(2) [OF assms(2)] by simp
  then show "read_pmap (a @ sbi w @ b) n = (w, 1)"
    using assms byte_low7(4) [OF assms(2)] by (simp add: read_pmap_def sbi_loop.simps e)
qed

lemma fast_frame_step:
  assumes pm: "unat pmap < 128" and len: "length (pre @ fast_frame (pmap, tmpl, body) @ rest) < 2 ^ 64"
    and d: "fast_dispatch tmpl body pmap = Some evs"
  shows "fast_loop (pre @ fast_frame (pmap, tmpl, body) @ rest) (length pre) out =
    fast_loop (pre @ fast_frame (pmap, tmpl, body) @ rest) (length (pre @ fast_frame (pmap, tmpl, body))) (out @ evs)"
proof -
  let ?n = "word_of_nat (length body) :: u64"
  let ?p = "pre @ fast_frame (pmap, tmpl, body) @ rest"
  let ?o = "length pre + 1 + length (sbi tmpl) + length (sbi ?n)"
  have bl: "length body < 2 ^ 64" using len by (simp add: fast_frame_def)
  have n: "unat ?n = length body" using bl by (simp add: unat_of_nat take_bit_eq_mod)
  have "length (sbi pmap) = 1" using read_pmap_at(2) [OF refl pm] .
  then have lp: "length ?p = ?o + length body + length rest" "length (pre @ fast_frame (pmap, tmpl, body)) = ?o + length body"
    by (simp_all add: fast_frame_def)
  have R: "read_pmap ?p (length pre) = (pmap, 1)"
    "read_sbi_u64 ?p (length pre + 1) = (tmpl, length (sbi tmpl))"
    "read_sbi_u64 ?p (length pre + 1 + length (sbi tmpl)) = (?n, length (sbi ?n))"
    using read_pmap_at(1) [OF refl pm, of pre] read_sbi_at [of "length pre + 1" "pre @ sbi pmap" tmpl]
      read_sbi_at [of "length pre + 1 + length (sbi tmpl)" "pre @ sbi pmap @ sbi tmpl" ?n] \<open>length (sbi pmap) = 1\<close>
    by (simp_all add: fast_frame_def)
  have stop: "usize_add ?o ?n = ?o + length body" using len unfolding lp(1) usize_add_eq n by simp
  have fits: "\<not> ?o + length body > length ?p" using lp(1) by simp
  have sl: "slice ?p ?o (?o + length body) = Some body"
    using slice_mid [of ?o "pre @ sbi pmap @ sbi tmpl @ sbi ?n" "?o + length body" body rest] \<open>length (sbi pmap) = 1\<close>
    by (simp add: fast_frame_def)
  have off: "length pre < length ?p" using lp(1) by simp
  show ?thesis
    unfolding lp(2)
    by (subst fast_loop.simps) (simp only: off R prod.case Let_def stop fits sl d bind.bind_lunit if_True if_False, simp)
qed

definition fast_encode :: "event list \<Rightarrow> bytes" where
  "fast_encode es = concat (map (\<lambda>e. fast_frame (fast_body e)) es)"

lemma fast_pmap_small: "fast_body e = (pmap, tmpl, body) \<Longrightarrow> unat pmap < 128"
  by (cases e) (auto split: option.splits)

lemma fast_loop_encode:
  assumes "list_all (\<lambda>e. event_ok e \<and> e \<noteq> Heartbeat) es" "length (pre @ fast_encode es) < 2 ^ 64"
  shows "fast_loop (pre @ fast_encode es) (length pre) out = Some (out @ es)"
  using assms
proof (induction es arbitrary: pre out)
  case Nil
  then show ?case by (subst fast_loop.simps) (simp add: fast_encode_def)
next
  case (Cons e es)
  obtain pmap tmpl body where b: "fast_body e = (pmap, tmpl, body)" by (metis prod_cases3)
  have d: "fast_dispatch tmpl body pmap = Some [e]" using fast_dispatch_body [OF b] Cons.prems(1) by simp
  have enc: "fast_encode (e # es) = fast_frame (pmap, tmpl, body) @ fast_encode es"
    by (simp add: fast_encode_def b)
  show ?case
    using fast_frame_step [OF fast_pmap_small [OF b] _ d, of pre "fast_encode es" out]
      Cons.IH [of "pre @ fast_frame (pmap, tmpl, body)" "out @ [e]"] Cons.prems enc by simp
qed

section \<open>Properties\<close>

text \<open>
  when no stop-bit integer in the payload is close to \<open>2 ^ 64\<close>, the FAST decoder does not panic: it
  terminates, keeps the events already in \<open>out\<close> and appends at most one event per three bytes.
\<close>

theorem fast_decode_safe:
  assumes "lengths_ok payload"
  shows "\<exists>evs. fast_decode payload out = Some (out @ evs) \<and> 3 * length evs \<le> length payload"
  using fast_loop_total [OF assms, of 0 out] by (simp add: fast_decode_def)

theorem fast_decode_safe_witness:
  "\<exists>evs. fast_decode [0, 3, 1, 5] [] = Some evs \<and> 3 * length evs \<le> 4"
proof -
  have "lengths_ok [0, 3, 1, 5]" by code_simp
  then show ?thesis using fast_decode_safe [of "[0, 3, 1, 5]" "[]"] by (simp add: eval_nat_numeral)
qed


text \<open>
  C22: decoding the FAST wire form of a list of events gives back exactly these events, in order:
  stop-bit integers, zigzag values, presence bits and frames all invert.
\<close>

theorem fast_decode_encode:
  assumes "list_all (\<lambda>e. event_ok e \<and> e \<noteq> Heartbeat) es" "length (fast_encode es) < 2 ^ 64"
  shows "fast_decode (fast_encode es) [] = Some es"
  using fast_loop_encode [of es "[]" "[]"] assms by (simp add: fast_decode_def)

theorem fast_decode_encode_witness:
  "fast_decode (fast_encode [Add 300 7 (-5) 10 Ask, Trade 7 111 2 None (Some Bid)]) []
   = Some [Add 300 7 (-5) 10 Ask, Trade 7 111 2 None (Some Bid)]"
proof (rule fast_decode_encode)
  show "length (fast_encode [Add 300 7 (-5) 10 Ask, Trade 7 111 2 None (Some Bid)]) < 2 ^ 64"
  proof -
    have "length (fast_encode [Add 300 7 (-5) 10 Ask, Trade 7 111 2 None (Some Bid)]) < 64" by code_simp
    then show ?thesis by simp
  qed
qed (simp add: i64_ok_def)

end
