(* ===== verification/Parser.thy ===== *)
theory Parser
  imports Decoder_Eobi Decoder_Itch Decoder_Fast
begin

text \<open>
  \<open>src/src/parser.rs\<close>: the sequence extractor \<open>FixedSeq\<close>, the choice of decoder and
  \<open>Parser::decode_into\<close>.

  \<open>message_decoder\<close> is the \<open>MessageDecoder\<close> interface: what a decoder promises about one payload
  it accepts (\<open>accepts\<close>). Its client lemma is about a sequence of payloads; it is interpreted on the three
  decoders and on the parser that dispatches to them.
\<close>

datatype endian = Be | Le

datatype parser_kind = FixedBinary | FastLike | Itch50

record seq_cfg =
  sc_offset :: u16
  sc_length :: u8
  sc_endian :: endian

definition extract_seq :: "seq_cfg \<Rightarrow> bytes \<Rightarrow> u64 option option" where
  "extract_seq cfg pkt =
     (let off = unat (sc_offset cfg) in
      if length pkt < off + unat (sc_length cfg) then Some None
      else if sc_length cfg = 8 then do {
        b \<leftarrow> slice pkt off (off + 8);
        Some (Some (case sc_endian cfg of Be \<Rightarrow> from_be b | Le \<Rightarrow> from_le b))
      }
      else if sc_length cfg = 4 then do {
        b \<leftarrow> slice pkt off (off + 4);
        Some (Some (case sc_endian cfg of Be \<Rightarrow> ucast (from_be b :: u32) | Le \<Rightarrow> ucast (from_le b :: u32)))
      }
      else Some None)"

datatype decoder_impl = Fixed | Fast | Itch itch

record parser =
  p_seq :: seq_cfg
  p_dec :: decoder_impl
  max_messages_per_packet :: nat

definition build_parser :: "parser_kind \<Rightarrow> seq_cfg \<Rightarrow> nat \<Rightarrow> parser" where
  "build_parser kind seq max_per_packet =
     \<lparr>p_seq = seq,
      p_dec = (case kind of FixedBinary \<Rightarrow> Fixed | FastLike \<Rightarrow> Fast | Itch50 \<Rightarrow> Itch itch_new),
      max_messages_per_packet = max max_per_packet 1\<rparr>"

fun decoder_decode :: "decoder_impl \<Rightarrow> bytes \<Rightarrow> event list \<Rightarrow> (decoder_impl \<times> event list) option" where
  "decoder_decode Fixed payload out = map_option (\<lambda>out. (Fixed, out)) (eobi_decode payload out)"
| "decoder_decode Fast payload out = map_option (\<lambda>out. (Fast, out)) (fast_decode payload out)"
| "decoder_decode (Itch st) payload out = map_option (\<lambda>(st, out). (Itch st, out)) (itch_decode payload st out)"

definition decode_into :: "parser \<Rightarrow> bytes \<Rightarrow> event list \<Rightarrow> (parser \<times> event list) option" where
  "decode_into p payload out =
     map_option (\<lambda>(d, out). (p\<lparr>p_dec := d\<rparr>, out)) (decoder_decode (p_dec p) payload out)"

text \<open>The payloads of a stream, decoded one after the other into one vector.\<close>

fun decode_all :: "('d \<Rightarrow> bytes \<Rightarrow> event list \<Rightarrow> ('d \<times> event list) option) \<Rightarrow> 'd \<Rightarrow> bytes list \<Rightarrow> event list \<Rightarrow> ('d \<times> event list) option"
where
  "decode_all dec d [] out = Some (d, out)"
| "decode_all dec d (p # ps) out = Option.bind (dec d p out) (\<lambda>(d, out). decode_all dec d ps out)"

section \<open>The decoder interface\<close>

locale message_decoder =
  fixes decode :: "'d \<Rightarrow> bytes \<Rightarrow> event list \<Rightarrow> ('d \<times> event list) option"
    and inv :: "'d \<Rightarrow> bool"
    and accepts :: "'d \<Rightarrow> bytes \<Rightarrow> bool"
  assumes returns: "inv d \<Longrightarrow> accepts d payload \<Longrightarrow>
      \<exists>d' evs. decode d payload out = Some (d', out @ evs) \<and> inv d' \<and> length evs \<le> length payload \<and>
        (\<forall>p. accepts d' p = accepts d p)"
begin

lemma stream_returns:
  "inv d \<Longrightarrow> \<forall>p \<in> set ps. accepts d p \<Longrightarrow>
     \<exists>d' evs. decode_all decode d ps out = Some (d', out @ evs) \<and> inv d' \<and>
       length evs \<le> sum_list (map length ps)"
proof (induction ps arbitrary: d out)
  case (Cons p ps)
  obtain d1 evs where 1: "decode d p out = Some (d1, out @ evs)" "inv d1" "length evs \<le> length p"
      "\<forall>p. accepts d1 p = accepts d p"
    using returns [of d p out] Cons.prems by auto
  obtain d2 evs2 where "decode_all decode d1 ps (out @ evs) = Some (d2, (out @ evs) @ evs2)" "inv d2"
      "length evs2 \<le> sum_list (map length ps)"
    using Cons.IH [of d1 "out @ evs"] 1 Cons.prems by auto
  then show ?case using 1 by (intro exI [of _ d2] exI [of _ "evs @ evs2"]) simp
qed simp

end

text \<open>The payloads a decoder accepts: FAST needs honest lengths, the others accept everything.\<close>

fun dec_accepts :: "decoder_impl \<Rightarrow> bytes \<Rightarrow> bool" where
  "dec_accepts Fast payload = lengths_ok payload"
| "dec_accepts _ payload = True"

definition dec_inv :: "decoder_impl \<Rightarrow> bool" where
  "dec_inv d = (case d of Itch st \<Rightarrow> orders_ok st | _ \<Rightarrow> True)"

interpretation decoders: message_decoder decoder_decode dec_inv dec_accepts
proof
  fix d payload and out :: "event list"
  assume inv: "dec_inv d" and acc: "dec_accepts d payload"
  show "\<exists>d' evs. decoder_decode d payload out = Some (d', out @ evs) \<and> dec_inv d' \<and>
      length evs \<le> length payload \<and> (\<forall>p. dec_accepts d' p = dec_accepts d p)"
  proof (cases d)
    case Fixed
    obtain evs where "eobi_decode payload out = Some (out @ evs)" "8 * length evs \<le> length payload"
      using eobi_loop_total [of payload 0 out] by (auto simp: eobi_decode_def)
    then show ?thesis using Fixed by (auto simp: dec_inv_def)
  next
    case Fast
    obtain evs where "fast_decode payload out = Some (out @ evs)" "3 * length evs \<le> length payload"
      using fast_loop_total [of payload 0 out] acc Fast by (auto simp: fast_decode_def)
    then show ?thesis using Fast by (auto simp: dec_inv_def)
  next
    case (Itch st)
    obtain st' evs where "itch_decode payload st out = Some (st', out @ evs)" "9 * length evs \<le> length payload"
        "orders_ok st'"
      using ranged.loop_law [of payload 0 st out] inv Itch by (auto simp: itch_decode_def dec_inv_def)
    then show ?thesis using Itch by (auto simp: dec_inv_def)
  qed
qed

interpretation parsers: message_decoder decode_into "\<lambda>p. dec_inv (p_dec p)" "\<lambda>p. dec_accepts (p_dec p)"
proof
  fix p :: parser and payload and out :: "event list"
  assume "dec_inv (p_dec p)" "dec_accepts (p_dec p) payload"
  then show "\<exists>p' evs. decode_into p payload out = Some (p', out @ evs) \<and> dec_inv (p_dec p') \<and>
      length evs \<le> length payload \<and> (\<forall>x. dec_accepts (p_dec p') x = dec_accepts (p_dec p) x)"
    using decoders.returns [of "p_dec p" payload out] by (force simp: decode_into_def)
qed

lemma build_parser_inv: "dec_inv (p_dec (build_parser kind seq n))"
  by (cases kind) (simp_all add: build_parser_def dec_inv_def orders_ok_def itch_new_def)

section \<open>Properties\<close>

text \<open>
  C15: a parser built for any venue decodes any sequence of payloads it accepts without a panic, keeping
  what is already in the output, and produces at most as many events as bytes; only the FAST
  venue restricts the payloads.
\<close>

theorem parser_stream_safe:
  assumes "kind = FastLike \<Longrightarrow> \<forall>p \<in> set payloads. lengths_ok p"
  shows "\<exists>p' evs. decode_all decode_into (build_parser kind seq n) payloads out = Some (p', out @ evs) \<and>
    length evs \<le> sum_list (map length payloads)"
proof -
  have "\<forall>p \<in> set payloads. dec_accepts (p_dec (build_parser kind seq n)) p"
    using assms by (cases kind) (simp_all add: build_parser_def)
  then show ?thesis using parsers.stream_returns [OF build_parser_inv] by blast
qed

theorem parser_stream_safe_witness:
  "\<exists>p' evs. decode_all decode_into (build_parser FastLike \<lparr>sc_offset = 0, sc_length = 4, sc_endian = Be\<rparr> 8) [[0, 3, 1, 5]] []
     = Some (p', evs) \<and> length evs \<le> sum_list (map length [[0 :: u8, 3, 1, 5]])"
proof -
  have "lengths_ok [0, 3, 1, 5]" by code_simp
  then show ?thesis
    using parser_stream_safe [of FastLike "[[0, 3, 1, 5]]" "\<lparr>sc_offset = 0, sc_length = 4, sc_endian = Be\<rparr>" 8 "[]"]
    by simp
qed

text \<open>
  the sequence extractor reads exactly the configured field: a packet with the big- or little-endian
  bytes of a 64-bit (or 32-bit) number at the configured offset yields that number, and a
  packet too short for the field yields none; it never panics.
\<close>

theorem extract_seq_correct:
  assumes "length a = unat (sc_offset cfg)"
  shows "(sc_length cfg = 8 \<longrightarrow>
           extract_seq cfg (a @ (case sc_endian cfg of Be \<Rightarrow> to_be w | Le \<Rightarrow> to_le w) @ b) = Some (Some w)) \<and>
    (sc_length cfg = 4 \<longrightarrow>
           extract_seq cfg (a @ (case sc_endian cfg of Be \<Rightarrow> to_be v | Le \<Rightarrow> to_le v) @ b) = Some (Some (ucast (v :: u32)))) \<and>
    (length pkt < unat (sc_offset cfg) + unat (sc_length cfg) \<longrightarrow> extract_seq cfg pkt = Some None) \<and>
    extract_seq cfg pkt \<noteq> None"
  using assms by (auto simp: extract_seq_def Let_def slice_def split: endian.splits)

theorem extract_seq_correct_witness:
  "extract_seq \<lparr>sc_offset = 2, sc_length = 8, sc_endian = Be\<rparr> ([1, 2] @ to_be (77 :: u64) @ [9]) = Some (Some 77)"
  using extract_seq_correct [of "[1, 2]" "\<lparr>sc_offset = 2, sc_length = 8, sc_endian = Be\<rparr>" 77 "[9]"] by simp

end
