(* ===== verification/Wire.thy ===== *)
theory Wire
  imports Bytes
begin

text \<open>
  The outbound wire format: \<open>src/src/codec_raw.rs\<close> and the mapping of book events to order-by-order messages,
  \<open>src/src/obo.rs\<close>.

  \<^item> The structs are \<open>repr(C, packed)\<close>, so their bytes are the little-endian fields one after the other.
  \<^item> \<open>build_frame\<close> (\<open>ws_server.rs\<close>, \<open>h3_server.rs\<close> and inline in \<open>pubsub.rs\<close>): header and payload.
  \<^item> \<open>parse_frame\<close>, \<open>parse_obo\<close>: a reader of the documented layout, the specification of what a client can recover.
  \<^item> \<open>client_fields\<close>: the reader of \<open>src/src/bin/ws_client.rs\<close>.
\<close>

section \<open>Structs\<close>

definition MAGIC :: bytes where
  "MAGIC = [79, 66, 118, 49]"

record frame_header =
  fh_magic :: bytes
  fh_version :: u8
  fh_codec :: u8
  fh_message_type :: u16
  fh_channel_id :: u32
  fh_instrument_id :: u64
  fh_sequence :: u64
  fh_send_time_ns :: u64
  fh_payload_len :: u32

definition hdr_bytes :: "frame_header \<Rightarrow> bytes" where
  "hdr_bytes h = fh_magic h @ [fh_version h] @ [fh_codec h] @ to_le (fh_message_type h) @ to_le (fh_channel_id h) @
     to_le (fh_instrument_id h) @ to_le (fh_sequence h) @ to_le (fh_send_time_ns h) @ to_le (fh_payload_len h)"

record gap_v1 =
  gap_from :: u64
  gap_to :: u64

definition gap_bytes :: "gap_v1 \<Rightarrow> bytes" where
  "gap_bytes g = to_le (gap_from g) @ to_le (gap_to g)"

record obo_add =
  oa_order_id :: u64
  oa_price_e8 :: i64
  oa_qty :: u64
  oa_side :: u8
  oa_flags :: u8

record obo_modify =
  om_order_id :: u64
  om_new_price_e8 :: i64
  om_new_qty :: u64
  om_flags :: u8

record obo_cancel =
  oc_order_id :: u64
  oc_qty_cxl :: u64
  oc_reason :: u8

record obo_execute =
  oe_maker_order_id :: u64
  oe_trade_qty :: u64
  oe_trade_price_e8 :: i64
  oe_aggressor_side :: u8
  oe_match_id :: u64

record snapshot_hdr =
  sh_level_count :: u32
  sh_total_orders :: u32

definition snapshot_hdr_bytes :: "snapshot_hdr \<Rightarrow> bytes" where
  "snapshot_hdr_bytes h = to_le (sh_level_count h) @ to_le (sh_total_orders h)"

datatype obo_event =
    Obo_Add obo_add
  | Obo_Modify obo_modify
  | Obo_Cancel obo_cancel
  | Obo_Execute obo_execute

text \<open>The message type and the bytes of an order-by-order event.\<close>

fun obo_bytes :: "obo_event \<Rightarrow> u16 \<times> bytes" where
  "obo_bytes (Obo_Add p) = (100, to_le (oa_order_id p) @ i64_to_le (oa_price_e8 p) @ to_le (oa_qty p) @ [oa_side p] @ [oa_flags p])"
| "obo_bytes (Obo_Modify p) = (101, to_le (om_order_id p) @ i64_to_le (om_new_price_e8 p) @ to_le (om_new_qty p) @ [om_flags p])"
| "obo_bytes (Obo_Cancel p) = (102, to_le (oc_order_id p) @ to_le (oc_qty_cxl p) @ [oc_reason p])"
| "obo_bytes (Obo_Execute p) = (103, to_le (oe_maker_order_id p) @ to_le (oe_trade_qty p) @ i64_to_le (oe_trade_price_e8 p) @
     [oe_aggressor_side p] @ to_le (oe_match_id p))"

section \<open>Operations\<close>

fun map_event_to_obo_parts :: "event \<Rightarrow> u32 option \<times> obo_event option" where
  "map_event_to_obo_parts (Add order_id instr px qty side) =
     (Some instr, Some (Obo_Add \<lparr>oa_order_id = order_id, oa_price_e8 = px, oa_qty = i64_as_u64 qty,
                                 oa_side = side_byte side, oa_flags = 0\<rparr>))"
| "map_event_to_obo_parts (Mod order_id qty) =
     (None, Some (Obo_Modify \<lparr>om_order_id = order_id, om_new_price_e8 = 0, om_new_qty = i64_as_u64 qty, om_flags = 1\<rparr>))"
| "map_event_to_obo_parts (Del order_id) =
     (None, Some (Obo_Cancel \<lparr>oc_order_id = order_id, oc_qty_cxl = 0, oc_reason = 0\<rparr>))"
| "map_event_to_obo_parts (Trade instr px qty maker_order_id taker_side) =
     (case maker_order_id of
        Some maker \<Rightarrow>
          (Some instr, Some (Obo_Execute \<lparr>oe_maker_order_id = maker, oe_trade_qty = i64_as_u64 qty, oe_trade_price_e8 = px,
             oe_aggressor_side = (case taker_side of Some s \<Rightarrow> side_byte s | None \<Rightarrow> 0), oe_match_id = 0\<rparr>))
      | None \<Rightarrow> (Some instr, None))"
| "map_event_to_obo_parts Heartbeat = (None, None)"

definition build_frame :: "u64 \<Rightarrow> u16 \<Rightarrow> bytes \<Rightarrow> u64 \<Rightarrow> u64 \<Rightarrow> bytes" where
  "build_frame now msg_ty payload instrument_id sequence =
     hdr_bytes \<lparr>fh_magic = MAGIC, fh_version = 1, fh_codec = 0, fh_message_type = msg_ty, fh_channel_id = 0,
       fh_instrument_id = instrument_id, fh_sequence = sequence, fh_send_time_ns = now,
       fh_payload_len = word_of_nat (length payload)\<rparr> @ payload"

text \<open>\<open>bin/ws_client.rs\<close>: instrument, sequence and message type; frames below 40 bytes are skipped.\<close>

definition client_fields :: "bytes \<Rightarrow> (u64 \<times> u64 \<times> u16) option" where
  "client_fields frame =
     (if length frame < 40 then None
      else do {
        i \<leftarrow> slice frame 16 24;
        s \<leftarrow> slice frame 24 32;
        t \<leftarrow> slice frame 6 8;
        Some (from_le i, from_le s, from_le t)
      })"

section \<open>The documented layout\<close>

definition parse_frame :: "bytes \<Rightarrow> (frame_header \<times> bytes) option" where
  "parse_frame b =
     (if length b < 40 \<or> length b \<noteq> 40 + unat (from_le (take 4 (drop 36 b)) :: u32) then None
      else Some (\<lparr>fh_magic = take 4 b, fh_version = b ! 4, fh_codec = b ! 5, fh_message_type = from_le (take 2 (drop 6 b)),
        fh_channel_id = from_le (take 4 (drop 8 b)), fh_instrument_id = from_le (take 8 (drop 12 b)),
        fh_sequence = from_le (take 8 (drop 20 b)), fh_send_time_ns = from_le (take 8 (drop 28 b)),
        fh_payload_len = from_le (take 4 (drop 36 b))\<rparr>, drop 40 b))"

definition parse_obo :: "u16 \<Rightarrow> bytes \<Rightarrow> obo_event option" where
  "parse_obo ty b =
     (if ty = 100 \<and> length b = 26 then
        Some (Obo_Add \<lparr>oa_order_id = from_le (take 8 b), oa_price_e8 = i64_from_le (take 8 (drop 8 b)),
          oa_qty = from_le (take 8 (drop 16 b)), oa_side = b ! 24, oa_flags = b ! 25\<rparr>)
      else if ty = 101 \<and> length b = 25 then
        Some (Obo_Modify \<lparr>om_order_id = from_le (take 8 b), om_new_price_e8 = i64_from_le (take 8 (drop 8 b)),
          om_new_qty = from_le (take 8 (drop 16 b)), om_flags = b ! 24\<rparr>)
      else if ty = 102 \<and> length b = 17 then
        Some (Obo_Cancel \<lparr>oc_order_id = from_le (take 8 b), oc_qty_cxl = from_le (take 8 (drop 8 b)), oc_reason = b ! 16\<rparr>)
      else if ty = 103 \<and> length b = 33 then
        Some (Obo_Execute \<lparr>oe_maker_order_id = from_le (take 8 b), oe_trade_qty = from_le (take 8 (drop 8 b)),
          oe_trade_price_e8 = i64_from_le (take 8 (drop 16 b)), oe_aggressor_side = b ! 24,
          oe_match_id = from_le (take 8 (drop 25 b))\<rparr>)
      else None)"

fun obo_ok :: "obo_event \<Rightarrow> bool" where
  "obo_ok (Obo_Add p) = i64_ok (oa_price_e8 p)"
| "obo_ok (Obo_Modify p) = i64_ok (om_new_price_e8 p)"
| "obo_ok (Obo_Cancel p) = True"
| "obo_ok (Obo_Execute p) = i64_ok (oe_trade_price_e8 p)"

fun event_price_ok :: "event \<Rightarrow> bool" where
  "event_price_ok (Add _ _ px _ _) = i64_ok px"
| "event_price_ok (Trade _ px _ _ _) = i64_ok px"
| "event_price_ok _ = True"

lemma drop_append_len: "length a = n \<Longrightarrow> drop (n + m) (a @ b) = drop m b"
  by simp

lemma hdr_bytes_length: "length (fh_magic h) = 4 \<Longrightarrow> length (hdr_bytes h) = 40"
  by (simp add: hdr_bytes_def)

lemma parse_obo_bytes: "obo_ok e \<Longrightarrow> case_prod parse_obo (obo_bytes e) = Some e"
  by (cases e) (simp_all add: parse_obo_def nth_append)

lemma obo_parts_ok: "event_price_ok ev \<Longrightarrow> map_event_to_obo_parts ev = (i, Some e) \<Longrightarrow> obo_ok e"
  by (cases ev) (auto split: option.splits)

lemma parse_build_frame:
  assumes "length payload < 2 ^ 32"
  shows "parse_frame (build_frame now ty payload instr seq) =
    Some (\<lparr>fh_magic = MAGIC, fh_version = 1, fh_codec = 0, fh_message_type = ty, fh_channel_id = 0,
       fh_instrument_id = instr, fh_sequence = seq, fh_send_time_ns = now,
       fh_payload_len = word_of_nat (length payload)\<rparr>, payload)"
proof -
  have "unat (word_of_nat (length payload) :: u32) = length payload"
    using assms by (simp add: unat_of_nat take_bit_eq_mod)
  then show ?thesis by (simp add: parse_frame_def build_frame_def hdr_bytes_def MAGIC_def nth_append)
qed

lemma le_val_append: "le_val (a @ b) = le_val a + 256 ^ length a * le_val b"
  by (induction a) (simp_all add: algebra_simps)

lemma le_val_take_drop: "le_val (take 4 (to_le (w :: u64))) = unat w mod 2 ^ 32" "le_val (drop 4 (to_le (w :: u64))) = unat w div 2 ^ 32"
proof -
  have len: "length (take 4 (to_le w)) = 4" by simp
  have "unat w = le_val (take 4 (to_le w) @ drop 4 (to_le w))"
    using unat_mod_width [of w] by (simp add: to_le_def le_val_enc)
  then have *: "unat w = le_val (take 4 (to_le w)) + 2 ^ 32 * le_val (drop 4 (to_le w))"
    unfolding le_val_append len by simp
  have "le_val (take 4 (to_le w)) < 2 ^ 32" using le_val_less [of "take 4 (to_le w)"] len by simp
  with * show "le_val (take 4 (to_le w)) = unat w mod 2 ^ 32" "le_val (drop 4 (to_le w)) = unat w div 2 ^ 32"
    by simp_all
qed

section \<open>Properties\<close>

text \<open>
  What is published can be read back: for every event that has an order-by-order message, a reader of the documented
  layout recovers from the frame the message type, the instrument, the sequence number and exactly that message.
\<close>

theorem obo_frame_roundtrip:
  assumes "map_event_to_obo_parts ev = (i, Some e)" "event_price_ok ev" "obo_bytes e = (ty, payload)"
  shows "\<exists>h. parse_frame (build_frame now ty payload instr seq) = Some (h, payload) \<and>
    fh_magic h = MAGIC \<and> fh_instrument_id h = instr \<and> fh_sequence h = seq \<and> fh_send_time_ns h = now \<and>
    parse_obo (fh_message_type h) payload = Some e"
proof -
  have "parse_obo ty payload = Some e" using parse_obo_bytes [OF obo_parts_ok [OF assms(2,1)]] assms(3) by simp
  moreover have "length payload < 2 ^ 32" using assms(3) by (cases e) auto
  ultimately show ?thesis using parse_build_frame by simp
qed

theorem obo_frame_roundtrip_witness:
  "\<exists>h. parse_frame (build_frame 99 102 (to_le (7 :: u64) @ to_le (0 :: u64) @ [0]) 5 1) =
      Some (h, to_le (7 :: u64) @ to_le (0 :: u64) @ [0]) \<and> fh_instrument_id h = 5 \<and> fh_sequence h = 1 \<and>
    parse_obo (fh_message_type h) (to_le (7 :: u64) @ to_le (0 :: u64) @ [0]) =
      Some (Obo_Cancel \<lparr>oc_order_id = 7, oc_qty_cxl = 0, oc_reason = 0\<rparr>)"
  using obo_frame_roundtrip [of "Del 7" None "Obo_Cancel \<lparr>oc_order_id = 7, oc_qty_cxl = 0, oc_reason = 0\<rparr>" 102
      "to_le (7 :: u64) @ to_le (0 :: u64) @ [0]" 99 5 1]
  by (auto simp del: to_le_length)

text \<open>
  The client reads the instrument and the sequence number four bytes too late: its "instrument" is the upper half of the
  instrument id with the lower half of the sequence number above it, its "sequence" the upper half of the sequence number
  below the lower half of the send time.
\<close>

theorem ws_client_misreads:
  "client_fields (build_frame now ty payload instr seq) =
     Some (word_of_nat (unat instr div 2 ^ 32 + 2 ^ 32 * (unat seq mod 2 ^ 32)),
           word_of_nat (unat seq div 2 ^ 32 + 2 ^ 32 * (unat now mod 2 ^ 32)), ty)"
  by (simp add: client_fields_def build_frame_def hdr_bytes_def MAGIC_def slice_def from_le_def [where 'a = 64] le_val_append
      le_val_take_drop del: of_nat_add of_nat_mult)

end
