(* ===== verification/Pubsub.thy ===== *)
theory Pubsub
  imports Wire
begin

text \<open>
  The in-process bus of \<open>src/src/pubsub.rs\<close>: a ring of the last \<open>cap\<close> frames with global numbers, per-instrument
  sequence numbers, and subscribers with a cursor.

  The mutexes make every operation atomic. \<open>recv_next\<close> is one look of \<open>recv_next_blocking\<close> at the ring; \<open>Wait\<close> is the
  wait on the condition variable, after which it looks again. \<open>log_inv\<close> relates the ring to the log of all frames
  ever published. \<open>session\<close> is a client connection as the servers run it: it ends at the first gap.
\<close>

record ring =
  rg_buf :: "(u64 \<times> bytes) list"
  rg_cap :: nat
  rg_next_global :: u64

record bus =
  bus_ring :: ring
  bus_seqs :: "u64 \<Rightarrow> u64 option"

record subscription =
  sub_next_global :: u64

datatype recv_result =
    Wait
  | Frame bytes
  | Gap u64 u64

definition bus_new :: "nat \<Rightarrow> bus" where
  "bus_new capacity_frames =
     \<lparr>bus_ring = \<lparr>rg_buf = [], rg_cap = capacity_frames, rg_next_global = 0\<rparr>, bus_seqs = (\<lambda>_. None)\<rparr>"

definition subscribe :: "bus \<Rightarrow> subscription" where
  "subscribe b = \<lparr>sub_next_global = rg_next_global (bus_ring b)\<rparr>"

definition ring_push :: "bytes \<Rightarrow> ring \<Rightarrow> ring" where
  "ring_push frame r =
     (let g = rg_next_global r;
          buf = (if length (rg_buf r) = rg_cap r then tl (rg_buf r) else rg_buf r)
      in r\<lparr>rg_next_global := g + 1, rg_buf := buf @ [(g, frame)]\<rparr>)"

definition publish_raw :: "u64 \<Rightarrow> u16 \<Rightarrow> u32 \<Rightarrow> u64 \<Rightarrow> u64 \<Rightarrow> bytes \<Rightarrow> bus \<Rightarrow> bus" where
  "publish_raw now message_type channel_id instrument_id sequence payload b =
     (let frame = hdr_bytes \<lparr>fh_magic = MAGIC, fh_version = 1, fh_codec = 0, fh_message_type = message_type,
            fh_channel_id = channel_id, fh_instrument_id = instrument_id, fh_sequence = sequence,
            fh_send_time_ns = now, fh_payload_len = word_of_nat (length payload)\<rparr> @ payload
      in b\<lparr>bus_ring := ring_push frame (bus_ring b)\<rparr>)"

definition next_seq_for_instrument :: "u64 \<Rightarrow> bus \<Rightarrow> u64 \<times> bus" where
  "next_seq_for_instrument instrument_id b =
     (let seq = (case bus_seqs b instrument_id of None \<Rightarrow> 1 | Some s \<Rightarrow> s)
      in (seq, b\<lparr>bus_seqs := (bus_seqs b)(instrument_id \<mapsto> seq + 1)\<rparr>))"

definition set_cursor_to_tail :: "bus \<Rightarrow> subscription \<Rightarrow> subscription" where
  "set_cursor_to_tail b s = s\<lparr>sub_next_global := rg_next_global (bus_ring b)\<rparr>"

definition set_cursor :: "u64 \<Rightarrow> subscription \<Rightarrow> subscription" where
  "set_cursor g s = s\<lparr>sub_next_global := g\<rparr>"

definition oldest_g :: "ring \<Rightarrow> u64" where
  "oldest_g r = sat_sub (rg_next_global r) (word_of_nat (length (rg_buf r)))"

definition recv_next :: "ring \<Rightarrow> subscription \<Rightarrow> subscription \<times> recv_result" where
  "recv_next r s =
     (let c = sub_next_global s in
      if rg_buf r = [] \<or> c \<ge> rg_next_global r then (s, Wait)
      else if c < oldest_g r then (s, Gap c (sat_sub (oldest_g r) 1))
      else let offset = unat (c - oldest_g r) in
        if offset \<ge> length (rg_buf r) then (s, Gap c (sat_sub (rg_next_global r) 1))
        else (s\<lparr>sub_next_global := c + 1\<rparr>, Frame (snd (rg_buf r ! offset))))"

definition lag :: "ring \<Rightarrow> subscription \<Rightarrow> u64" where
  "lag r s =
     (if rg_buf r = [] then 0
      else sat_sub (rg_next_global r) (max (sub_next_global s) (oldest_g r)))"

section \<open>The published log\<close>

definition log_inv :: "bytes list \<Rightarrow> ring \<Rightarrow> bool" where
  "log_inv log r \<longleftrightarrow> 0 < rg_cap r \<and> length log < 2 ^ 64 \<and> rg_next_global r = word_of_nat (length log) \<and>
     map snd (rg_buf r) = drop (length log - rg_cap r) log"

lemma log_invD:
  assumes "log_inv log r"
  shows "unat (rg_next_global r) = length log" "length (rg_buf r) = min (rg_cap r) (length log)"
    "unat (oldest_g r) = length log - rg_cap r"
    "i < length (rg_buf r) \<Longrightarrow> snd (rg_buf r ! i) = log ! (length log - rg_cap r + i)"
proof -
  note I = assms [unfolded log_inv_def]
  show n: "unat (rg_next_global r) = length log" using I by (simp add: unat_of_nat take_bit_eq_mod)
  have "length (map snd (rg_buf r)) = length (drop (length log - rg_cap r) log)" using I by metis
  then show l: "length (rg_buf r) = min (rg_cap r) (length log)" by auto
  have "length (rg_buf r) < 2 ^ 64" using l I by linarith
  then have "unat (word_of_nat (length (rg_buf r)) :: u64) = length (rg_buf r)"
    by (simp add: unat_of_nat take_bit_eq_mod)
  then show "unat (oldest_g r) = length log - rg_cap r" by (simp add: oldest_g_def unat_sat_sub n l)
  show "snd (rg_buf r ! i) = log ! (length log - rg_cap r + i)" if "i < length (rg_buf r)"
    using arg_cong [of _ _ "\<lambda>xs. xs ! i", OF conjunct2 [OF conjunct2 [OF conjunct2 [OF I]]]] that l by simp
qed

lemma log_inv_new: "0 < n \<Longrightarrow> log_inv [] (bus_ring (bus_new n))"
  by (simp add: log_inv_def bus_new_def)

lemma log_inv_push:
  assumes I: "log_inv log r" and room: "length log + 1 < 2 ^ 64"
  shows "log_inv (log @ [frame]) (ring_push frame r)" "rg_cap (ring_push frame r) = rg_cap r"
proof -
  note D = log_invD [OF I] and I' = I [unfolded log_inv_def]
  show "rg_cap (ring_push frame r) = rg_cap r" by (simp add: ring_push_def Let_def)
  have "map snd (if length (rg_buf r) = rg_cap r then tl (rg_buf r) else rg_buf r) =
      drop (length log + 1 - rg_cap r) log"
  proof (cases "length (rg_buf r) = rg_cap r")
    case True
    then have "rg_cap r \<le> length log" using D(2) by simp
    then show ?thesis using True I' by (simp add: map_tl tl_drop drop_Suc [symmetric] Suc_diff_le drop_tl)
  next
    case False
    then have "length log < rg_cap r" using D(2) by simp
    then show ?thesis using False I' by simp
  qed
  then show "log_inv (log @ [frame]) (ring_push frame r)"
    using I' room unfolding log_inv_def ring_push_def Let_def by simp
qed

text \<open>One look at the ring, by the position of the cursor.\<close>

lemma recv_next_law:
  assumes I: "log_inv log r" and c: "unat (sub_next_global s) = c"
  shows "recv_next r s =
    (if c \<ge> length log then (s, Wait)
     else if c < length log - rg_cap r then (s, Gap (sub_next_global s) (word_of_nat (length log - rg_cap r - 1)))
     else (s\<lparr>sub_next_global := sub_next_global s + 1\<rparr>, Frame (log ! c)))"
proof -
  note D = log_invD [OF I] and I' = I [unfolded log_inv_def]
  have wait: "rg_buf r = [] \<or> sub_next_global s \<ge> rg_next_global r \<longleftrightarrow> c \<ge> length log"
    using D(1,2) c I' by (auto simp: word_le_nat_alt)
  have gap: "sub_next_global s < oldest_g r \<longleftrightarrow> c < length log - rg_cap r"
    using D(3) c by (simp add: word_less_nat_alt)
  show ?thesis
  proof (cases "c < length log - rg_cap r")
    case True
    then have "unat (sat_sub (oldest_g r) 1) = length log - rg_cap r - 1" by (simp add: unat_sat_sub D(3))
    moreover have "sat_sub (oldest_g r) 1 = word_of_nat (unat (sat_sub (oldest_g r) 1))" by simp
    ultimately have "sat_sub (oldest_g r) 1 = word_of_nat (length log - rg_cap r - 1)" by simp
    then show ?thesis using True wait gap unfolding recv_next_def Let_def by auto
  next
    case False
    then have "oldest_g r \<le> sub_next_global s" using gap by simp
    then have off: "unat (sub_next_global s - oldest_g r) = c - (length log - rg_cap r)"
      using D(3) c by (simp add: unat_sub word_le_nat_alt)
    show ?thesis
    proof (cases "c \<ge> length log")
      case True
      then show ?thesis using wait by (simp add: recv_next_def Let_def)
    next
      case small: False
      then have i: "c - (length log - rg_cap r) < length (rg_buf r)" using D(2) False I' by auto
      from D(4) [OF i] have "snd (rg_buf r ! (c - (length log - rg_cap r))) = log ! c" using False by simp
      then show ?thesis using small False i off wait gap unfolding recv_next_def Let_def by auto
    qed
  qed
qed

section \<open>Sessions\<close>

text \<open>The publisher's and a client's operations on one ring; the client's session ends at the first gap.\<close>

datatype bus_op = Publish bytes | Recv

fun session :: "bus_op list \<Rightarrow> ring \<Rightarrow> subscription \<Rightarrow> bytes list \<Rightarrow> ring \<times> subscription \<times> bytes list \<times> (u64 \<times> u64) option"
where
  "session [] r s got = (r, s, got, None)"
| "session (Publish f # ops) r s got = session ops (ring_push f r) s got"
| "session (Recv # ops) r s got =
     (case recv_next r s of
        (s', Wait) \<Rightarrow> session ops r s' got
      | (s', Frame b) \<Rightarrow> session ops r s' (got @ [b])
      | (s', Gap from to) \<Rightarrow> (r, s', got, Some (from, to)))"

fun published :: "bus_op list \<Rightarrow> bytes list" where
  "published [] = []"
| "published (Publish f # ops) = f # published ops"
| "published (Recv # ops) = published ops"

text \<open>What a client that started at \<open>c0\<close> has received from a log, and what a reported gap means.\<close>

definition received :: "nat \<Rightarrow> bytes list \<Rightarrow> bytes list \<Rightarrow> bool" where
  "received c0 log got \<longleftrightarrow> got = take (length got) (drop c0 log)"

definition gap_exact :: "nat \<Rightarrow> nat \<Rightarrow> nat \<Rightarrow> u64 \<times> u64 \<Rightarrow> bool" where
  "gap_exact start cap n g \<longleftrightarrow>
     unat (fst g) = start \<and> unat (fst g) \<le> unat (snd g) \<and> unat (snd g) + 1 + cap \<le> n"

lemma received_snoc:
  assumes "received c0 log got" "c0 + length got < length log"
  shows "received c0 log (got @ [log ! (c0 + length got)])"
  using assms by (simp add: received_def take_Suc_conv_app_nth)

lemma received_log:
  assumes "received c0 log got" "c0 + length got \<le> length log"
  shows "received c0 (log @ fs) got"
  using assms by (simp add: received_def)

lemma session_law:
  assumes "log_inv log r" "length log + length (published ops) < 2 ^ 64" "unat (sub_next_global s) = c0 + length got"
    "c0 + length got \<le> length log" "received c0 log got" "session ops r s got = (r', s', got', g)"
  shows "received c0 (log @ published ops) got' \<and> c0 + length got' \<le> length log + length (published ops) \<and>
    unat (sub_next_global s') = c0 + length got' \<and>
    (\<forall>x. g = Some x \<longrightarrow> gap_exact (c0 + length got') (rg_cap r) (length log + length (published ops)) x)"
  using assms
proof (induction ops arbitrary: r s got log)
  case (Cons x ops)
  show ?case
  proof (cases x)
    case (Publish f)
    have I: "log_inv (log @ [f]) (ring_push f r)" "rg_cap (ring_push f r) = rg_cap r"
      using log_inv_push [OF Cons.prems(1), of f] Cons.prems(2) Publish by simp_all
    show ?thesis
      using Cons.IH [OF I(1), of s got] Cons.prems Publish I(2) received_log [OF Cons.prems(5,4), of "[f]"] by simp
  next
    case Recv
    let ?c = "c0 + length got"
    note law = recv_next_law [OF Cons.prems(1,3)]
    consider "?c \<ge> length log" | "?c < length log - rg_cap r" | "\<not> ?c \<ge> length log" "\<not> ?c < length log - rg_cap r"
      by linarith
    then show ?thesis
    proof cases
      case 1
      then show ?thesis using Cons.IH [OF Cons.prems(1), of s got] Cons.prems law Recv by simp
    next
      case 2
      have "unat (word_of_nat (length log - rg_cap r - 1) :: u64) = length log - rg_cap r - 1"
        using Cons.prems(2) by (simp add: unat_of_nat take_bit_eq_mod)
      then have "gap_exact ?c (rg_cap r) (length log + length (published ops))
          (sub_next_global s, word_of_nat (length log - rg_cap r - 1))"
        using 2 Cons.prems(3) unfolding gap_exact_def fst_conv snd_conv by linarith
      moreover have "\<not> ?c \<ge> length log" using 2 by linarith
      then have "recv_next r s = (s, Gap (sub_next_global s) (word_of_nat (length log - rg_cap r - 1)))"
        unfolding law if_P [OF 2] by (rule if_not_P)
      then have "s' = s" "got' = got" "g = Some (sub_next_global s, word_of_nat (length log - rg_cap r - 1))"
        using Cons.prems(6) Recv by auto
      ultimately show ?thesis
        using Cons.prems(3,4) received_log [OF Cons.prems(5,4), of "published ops"] Recv by simp
    next
      case 3
      let ?s = "s\<lparr>sub_next_global := sub_next_global s + 1\<rparr>"
      have "unat (sub_next_global ?s) = c0 + length (got @ [log ! ?c])"
        using Cons.prems(2,3) 3(1) by (simp add: unat_word_ariths)
      then show ?thesis
        using Cons.IH [OF Cons.prems(1), of ?s "got @ [log ! ?c]"] 3 law Cons.prems(2,6) Recv
          received_snoc [OF Cons.prems(5)] by simp
    qed
  qed
qed (auto simp: received_def)

lemma publish_all_inv:
  "log_inv log r \<Longrightarrow> length log + length fs < 2 ^ 64 \<Longrightarrow>
   log_inv (log @ fs) (fold ring_push fs r) \<and> rg_cap (fold ring_push fs r) = rg_cap r"
proof (induction fs arbitrary: log r)
  case (Cons f fs)
  then show ?case using Cons.IH [of "log @ [f]" "ring_push f r"] log_inv_push [OF Cons.prems(1), of f] by simp
qed simp

section \<open>Properties\<close>



end
