(* ===== verification/Util.thy ===== *)
theory Util
  imports Prelude
begin

text \<open>
  Helpers of \<open>src/src/util.rs\<close> and the string functions of Rust's standard library that the sources use.

  \<^item> \<open>split_on\<close>, \<open>split_once\<close>, \<open>trim\<close>, \<open>parse_unsigned\<close>: \<open>str::split\<close>, \<open>str::split_once\<close>, \<open>str::trim\<close> and
    \<open>parse\<close> at an unsigned type of \<open>w\<close> bits, on ASCII strings.
  \<^item> \<open>cpulist_contains\<close>: membership in a kernel CPU list such as \<open>0-3,8\<close>; \<open>cpulist\<close> writes one.
  \<^item> \<open>adaptive_wait\<close>: how the idle counter escalates; spinning, yielding and sleeping have no other effect.
\<close>

section \<open>Strings\<close>

fun split_on :: "char \<Rightarrow> string \<Rightarrow> string list" where
  "split_on c [] = [[]]"
| "split_on c (x # xs) =
     (if x = c then [] # split_on c xs
      else case split_on c xs of [] \<Rightarrow> [[x]] | p # ps \<Rightarrow> (x # p) # ps)"

fun split_once :: "char \<Rightarrow> string \<Rightarrow> (string \<times> string) option" where
  "split_once c [] = None"
| "split_once c (x # xs) = (if x = c then Some ([], xs) else map_option (\<lambda>(a, b). (x # a, b)) (split_once c xs))"

definition is_space :: "char \<Rightarrow> bool" where
  "is_space c \<longleftrightarrow> (of_char c :: nat) = 32 \<or> (9 \<le> (of_char c :: nat) \<and> (of_char c :: nat) \<le> 13)"

definition trim :: "string \<Rightarrow> string" where
  "trim s = rev (dropWhile is_space (rev (dropWhile is_space s)))"

definition is_digit :: "char \<Rightarrow> bool" where
  "is_digit c \<longleftrightarrow> 48 \<le> (of_char c :: nat) \<and> (of_char c :: nat) \<le> 57"

definition dec_val :: "string \<Rightarrow> nat" where
  "dec_val s = foldl (\<lambda>n c. 10 * n + (of_char c - 48)) 0 s"

definition parse_unsigned :: "nat \<Rightarrow> string \<Rightarrow> nat option" where
  "parse_unsigned w s =
     (let ds = (if s \<noteq> [] \<and> hd s = CHR ''+'' \<and> length s > 1 then tl s else s) in
      if ds = [] \<or> \<not> list_all is_digit ds \<or> dec_val ds \<ge> 2 ^ w then None else Some (dec_val ds))"

section \<open>Operations\<close>

definition adaptive_wait :: "u32 \<Rightarrow> u32" where
  "adaptive_wait idle_iters =
     (if idle_iters < 64 then idle_iters + 1 else if idle_iters < 256 then idle_iters + 1 else 256)"

definition cpulist_part :: "nat \<Rightarrow> string \<Rightarrow> bool" where
  "cpulist_part cpu_id part =
     (let part = trim part in
      if part = [] then False
      else case split_once CHR ''-'' part of
        Some (a, b) \<Rightarrow>
          (case (parse_unsigned 64 a, parse_unsigned 64 b) of
             (Some lo, Some hi) \<Rightarrow> cpu_id \<ge> lo \<and> cpu_id \<le> hi
           | _ \<Rightarrow> False)
      | None \<Rightarrow> (case parse_unsigned 64 part of Some v \<Rightarrow> v = cpu_id | None \<Rightarrow> False))"

definition cpulist_contains :: "string \<Rightarrow> nat \<Rightarrow> bool" where
  "cpulist_contains list cpu_id = list_ex (cpulist_part cpu_id) (split_on CHR '','' list)"

section \<open>Decimal numbers\<close>

fun show_dec :: "nat \<Rightarrow> string" where
  "show_dec n = (if n < 10 then [char_of (48 + n)] else show_dec (n div 10) @ [char_of (48 + n mod 10)])"

declare show_dec.simps [simp del]

lemma of_char_digit: "d < 10 \<Longrightarrow> of_char (char_of (48 + d :: nat)) = (48 + d :: nat)"
  by (simp add: of_char_of)

lemma is_digit_char: "d < 10 \<Longrightarrow> is_digit (char_of (48 + d :: nat))"
  by (simp only: is_digit_def of_char_digit) simp

lemma show_dec_digits: "list_all is_digit (show_dec n)" "show_dec n \<noteq> []"
  by (induction n rule: show_dec.induct) (subst show_dec.simps, simp add: is_digit_char)+

lemma dec_val_snoc: "dec_val (s @ [c]) = 10 * dec_val s + (of_char c - 48)"
  by (simp add: dec_val_def)

lemma dec_val_show: "dec_val (show_dec n) = n"
proof (induction n rule: show_dec.induct)
  case (1 n)
  show ?case
  proof (cases "n < 10")
    case True
    then show ?thesis using dec_val_snoc [of "[]" "char_of (48 + n)"] of_char_digit [of n]
      by (subst show_dec.simps) (simp add: dec_val_def)
  next
    case False
    then show ?thesis using 1 of_char_digit [of "n mod 10"]
      by (subst show_dec.simps) (simp add: dec_val_snoc)
  qed
qed

lemma digit_ne: "is_digit c \<Longrightarrow> \<not> is_digit d \<Longrightarrow> c \<noteq> d"
  by blast

lemma parse_show: "n < 2 ^ w \<Longrightarrow> parse_unsigned w (show_dec n) = Some n"
proof -
  have "hd (show_dec n) \<noteq> CHR ''+''"
    using show_dec_digits [of n] by (cases "show_dec n") (auto simp: is_digit_def)
  then show "n < 2 ^ w \<Longrightarrow> parse_unsigned w (show_dec n) = Some n"
    using show_dec_digits [of n] by (simp add: parse_unsigned_def dec_val_show)
qed

section \<open>CPU lists\<close>

fun cpu_range :: "nat \<times> nat \<Rightarrow> string" where
  "cpu_range (lo, hi) = (if lo = hi then show_dec lo else show_dec lo @ CHR ''-'' # show_dec hi)"

fun cpulist :: "(nat \<times> nat) list \<Rightarrow> string" where
  "cpulist [] = []"
| "cpulist [r] = cpu_range r"
| "cpulist (r # rs) = cpu_range r @ CHR '','' # cpulist rs"

lemma split_on_free: "c \<notin> set s \<Longrightarrow> split_on c s = [s]"
  by (induction s) auto

lemma split_on_app: "c \<notin> set s \<Longrightarrow> split_on c (s @ c # t) = s # split_on c t"
  by (induction s) auto

lemma split_once_free: "c \<notin> set s \<Longrightarrow> split_once c s = None"
  by (induction s) auto

lemma split_once_app: "c \<notin> set s \<Longrightarrow> split_once c (s @ c # t) = Some (s, t)"
  by (induction s) auto

lemma dropWhile_none: "list_all (\<lambda>c. \<not> P c) s \<Longrightarrow> dropWhile P s = s"
  by (cases s) auto

lemma trim_none: "list_all (\<lambda>c. \<not> is_space c) s \<Longrightarrow> trim s = s"
  by (simp add: trim_def dropWhile_none list_all_iff)

lemma not_digit: "\<not> is_digit CHR '',''" "\<not> is_digit CHR ''-''"
  by (simp_all add: is_digit_def)

lemma digits_free: "list_all is_digit s \<Longrightarrow> CHR '','' \<notin> set s \<and> CHR ''-'' \<notin> set s"
  using not_digit by (auto simp: list_all_iff)

lemma digit_not_space: "is_digit c \<Longrightarrow> \<not> is_space c"
  by (auto simp: is_digit_def is_space_def)

lemma cpu_range_chars: "CHR '','' \<notin> set (cpu_range r)" "list_all (\<lambda>c. \<not> is_space c) (cpu_range r)" "cpu_range r \<noteq> []"
proof -
  obtain lo hi where r: "r = (lo, hi)" by (cases r)
  note d = show_dec_digits [of lo] show_dec_digits [of hi]
  show "CHR '','' \<notin> set (cpu_range r)" "cpu_range r \<noteq> []"
    using r d digits_free [OF d(1)] digits_free [OF d(3)] by auto
  have "\<not> is_space CHR ''-''" by (simp add: is_space_def)
  then show "list_all (\<lambda>c. \<not> is_space c) (cpu_range r)" using r d digit_not_space by (auto simp: list_all_iff)
qed

lemma cpulist_part_range:
  assumes "fst r \<le> snd r" "snd r < 2 ^ 64"
  shows "cpulist_part c (cpu_range r) \<longleftrightarrow> fst r \<le> c \<and> c \<le> snd r"
proof -
  obtain lo hi where r: "r = (lo, hi)" by (cases r)
  have p: "parse_unsigned 64 (show_dec lo) = Some lo" "parse_unsigned 64 (show_dec hi) = Some hi"
    using assms r by (auto intro!: parse_show)
  have f: "CHR ''-'' \<notin> set (show_dec lo)" using digits_free [OF show_dec_digits(1)] by blast
  show ?thesis
    using r p f cpu_range_chars [of r]
    by (auto simp: cpulist_part_def trim_none split_once_free split_once_app)
qed

lemma split_cpulist: "rs \<noteq> [] \<Longrightarrow> split_on CHR '','' (cpulist rs) = map cpu_range rs"
  by (induction rs rule: cpulist.induct) (simp_all add: split_on_free split_on_app cpu_range_chars(1) del: cpu_range.simps)

section \<open>Properties\<close>

text \<open>
  Reading a CPU list inverts writing it: for any list of ranges, \<open>cpulist_contains\<close> on its text (ranges separated
  by commas, single CPUs without a dash) accepts exactly the CPUs of some range.
\<close>

theorem cpulist_contains_correct:
  assumes "\<forall>r \<in> set rs. fst r \<le> snd r \<and> snd r < 2 ^ 64"
  shows "cpulist_contains (cpulist rs) c \<longleftrightarrow> (\<exists>r \<in> set rs. fst r \<le> c \<and> c \<le> snd r)"
proof (cases "rs = []")
  case True
  then show ?thesis by (simp add: cpulist_contains_def cpulist_part_def trim_def)
next
  case False
  then show ?thesis using assms by (auto simp: cpulist_contains_def split_cpulist list_ex_iff cpulist_part_range)
qed

theorem cpulist_contains_correct_witness:
  "cpulist [(0, 3), (8, 8)] = ''0-3,8'' \<and> cpulist_contains ''0-3,8'' 2 \<and> \<not> cpulist_contains ''0-3,8'' 5"
proof -
  have t: "cpulist [(0, 3), (8, 8)] = ''0-3,8''" by code_simp
  show ?thesis
    using cpulist_contains_correct [of "[(0, 3), (8, 8)]" 2] cpulist_contains_correct [of "[(0, 3), (8, 8)]" 5]
    unfolding t by simp
qed

end
