(* ===== verification/Decode.thy ===== *)
theory Decode
  imports Window_Safety Book_Export Parser Pool Pubsub Util
begin

text \<open>
  The decode stage of \<open>src/src/decode.rs\<close>: it takes merged packets, decodes them, applies the events to the order book,
  publishes order-by-order messages, returns the buffers to the pool and exports snapshots.

  \<^item> \<open>decode_state\<close> holds the loop's variables; \<open>ds_exports\<close> collects the exports offered to the snapshot writer. Metrics and log
    lines are left out; the \<open>k\<close>-th reading of the clock taken for a frame is \<open>clk k\<close>.
  \<^item> \<open>tick\<close>: what an iteration sees of its surroundings: the monotonic clock and the snapshot trigger.
  \<^item> \<open>decode_pkt\<close>, \<open>decode_iter\<close>, \<open>decode_run\<close>: one packet, one iteration, a run over the results of \<open>q_in.pop()\<close>.
  \<^item> \<open>announcements\<close>, \<open>frame_at\<close>: what should be published for a list of events, in closed form.
\<close>

record decode_config =
  dc_max_depth :: nat
  dc_snapshot_interval_ms :: nat
  dc_consume_trades :: bool
  dc_snapshot_tx :: bool
  dc_initial_book :: "obook option"
  dc_snapshot_trigger :: bool
  dc_publisher :: bool

record 'q decode_state =
  ds_book :: obook
  ds_parser :: parser
  ds_bus :: bus
  ds_pool :: "'q pool"
  ds_clock :: nat
  ds_last_snap :: nat
  ds_processed_pkts :: u64
  ds_processed_msgs :: u64
  ds_idle_iters :: u32
  ds_exports :: "book_export list"

record tick =
  tk_now :: nat
  tk_later :: nat
  tk_triggered :: bool

text \<open>The parts of the surroundings that never change: allocator, hash map iteration orders, pool queue, UMEM.\<close>

record 'q deps =
  dp_alloc :: slab_alloc_fn
  dp_iter_idx :: "(u64 \<rightharpoonup> u32 \<times> handle) \<Rightarrow> u64 list"
  dp_iter_books :: "(u32 \<rightharpoonup> ibook) \<Rightarrow> u32 list"
  dp_push :: "'q \<Rightarrow> bytes \<Rightarrow> 'q \<times> (bytes + unit)"
  dp_mem :: "u64 \<Rightarrow> u8"

definition decode_init :: "decode_config \<Rightarrow> parser \<Rightarrow> bus \<Rightarrow> 'q pool \<Rightarrow> nat \<Rightarrow> 'q decode_state" where
  "decode_init cfg p b po now =
     \<lparr>ds_book = set_consume_trades (dc_consume_trades cfg)
        (case dc_initial_book cfg of Some ob \<Rightarrow> ob | None \<Rightarrow> ob_new (dc_max_depth cfg)),
      ds_parser = p, ds_bus = b, ds_pool = po, ds_clock = 0, ds_last_snap = now,
      ds_processed_pkts = 0, ds_processed_msgs = 0, ds_idle_iters = 0, ds_exports = []\<rparr>"

text \<open>The instrument of a message; events without one are looked up in the book, which the event has already changed.\<close>

definition event_instr :: "obook \<Rightarrow> event \<Rightarrow> u32 option \<Rightarrow> u64" where
  "event_instr ob ev maybe_instr =
     (let instr_opt = (case maybe_instr of
            Some i \<Rightarrow> Some i
          | None \<Rightarrow> (case ev of
                Mod order_id _ \<Rightarrow> instrument_for_order ob order_id
              | Del order_id \<Rightarrow> instrument_for_order ob order_id
              | Trade instr _ _ _ _ \<Rightarrow> Some instr
              | _ \<Rightarrow> None))
      in ucast (case instr_opt of Some i \<Rightarrow> i | None \<Rightarrow> 0))"

definition announce :: "obook \<Rightarrow> event \<Rightarrow> (u64 \<times> obo_event) option" where
  "announce ob ev = (case map_event_to_obo_parts ev of
     (maybe_instr, Some obo_ev) \<Rightarrow> Some (event_instr ob ev maybe_instr, obo_ev)
   | (maybe_instr, None) \<Rightarrow> None)"

definition publish_obo :: "clock \<Rightarrow> u64 \<times> obo_event \<Rightarrow> nat \<times> bus \<Rightarrow> nat \<times> bus" where
  "publish_obo clk a kb =
     (let (instr, obo_ev) = a; (k, b) = kb;
          (msg_ty, payload_bytes) = obo_bytes obo_ev;
          (seq, b) = next_seq_for_instrument instr b
      in (Suc k, publish_raw (clk k) msg_ty 0 instr seq payload_bytes b))"

definition decode_event :: "slab_alloc_fn \<Rightarrow> clock \<Rightarrow> bool \<Rightarrow> event \<Rightarrow> obook \<times> nat \<times> bus \<Rightarrow> (obook \<times> nat \<times> bus) option" where
  "decode_event alloc clk pub ev s = (case s of (ob, kb) \<Rightarrow>
     map_option (\<lambda>ob. (ob, if pub then (case announce ob ev of Some a \<Rightarrow> publish_obo clk a kb | None \<Rightarrow> kb) else kb))
       (apply_event alloc ob ev))"

fun decode_events :: "slab_alloc_fn \<Rightarrow> clock \<Rightarrow> bool \<Rightarrow> event list \<Rightarrow> obook \<times> nat \<times> bus \<Rightarrow> (obook \<times> nat \<times> bus) option" where
  "decode_events alloc clk pub [] s = Some s"
| "decode_events alloc clk pub (ev # evs) s = Option.bind (decode_event alloc clk pub ev s) (decode_events alloc clk pub evs)"

definition take_snapshot :: "decode_config \<Rightarrow> 'q deps \<Rightarrow> tick \<Rightarrow> 'q decode_state \<Rightarrow> 'q decode_state option" where
  "take_snapshot cfg dp tk st =
     (if tk_now tk - ds_last_snap st \<ge> dc_snapshot_interval_ms cfg * 1000000 \<or> (dc_snapshot_trigger cfg \<and> tk_triggered tk) then
        if dc_snapshot_tx cfg then
          map_option (\<lambda>e. st\<lparr>ds_exports := ds_exports st @ [e], ds_last_snap := tk_later tk\<rparr>)
            (export (dp_iter_idx dp) (dp_iter_books dp) (ds_book st))
        else Some (st\<lparr>ds_last_snap := tk_later tk\<rparr>)
      else Some st)"

definition decode_pkt :: "decode_config \<Rightarrow> 'q deps \<Rightarrow> clock \<Rightarrow> tick \<Rightarrow> pkt \<Rightarrow> 'q decode_state \<Rightarrow> 'q decode_state option" where
  "decode_pkt cfg dp clk tk p st = do {
     b \<leftarrow> payload (dp_mem dp) p;
     (prs, events) \<leftarrow> decode_into (ds_parser st) b [];
     (ob, k, bs) \<leftarrow> decode_events (dp_alloc dp) clk (dc_publisher cfg) events (ds_book st, ds_clock st, ds_bus st);
     take_snapshot cfg dp tk
       (st\<lparr>ds_book := ob, ds_parser := prs, ds_bus := bs, ds_clock := k, ds_pool := recycle (dp_push dp) p (ds_pool st),
           ds_processed_pkts := ds_processed_pkts st + 1,
           ds_processed_msgs := ds_processed_msgs st + word_of_nat (length events)\<rparr>)
   }"

definition decode_iter :: "decode_config \<Rightarrow> 'q deps \<Rightarrow> clock \<Rightarrow> tick \<times> pkt option \<Rightarrow> 'q decode_state \<Rightarrow> 'q decode_state option" where
  "decode_iter cfg dp clk x st = (case snd x of
     Some p \<Rightarrow> decode_pkt cfg dp clk (fst x) p st
   | None \<Rightarrow> Some (st\<lparr>ds_idle_iters := adaptive_wait (ds_idle_iters st)\<rparr>))"

fun decode_run :: "decode_config \<Rightarrow> 'q deps \<Rightarrow> clock \<Rightarrow> (tick \<times> pkt option) list \<Rightarrow> 'q decode_state \<Rightarrow> 'q decode_state option" where
  "decode_run cfg dp clk [] st = Some st"
| "decode_run cfg dp clk (x # xs) st = Option.bind (decode_iter cfg dp clk x st) (decode_run cfg dp clk xs)"

section \<open>What is published\<close>

text \<open>The messages for a list of events, each with the instrument found after its event was applied.\<close>

fun announcements :: "slab_alloc_fn \<Rightarrow> obook \<Rightarrow> event list \<Rightarrow> (u64 \<times> obo_event) list" where
  "announcements alloc ob [] = []"
| "announcements alloc ob (ev # evs) = (case apply_event alloc ob ev of
     None \<Rightarrow> []
   | Some ob' \<Rightarrow> (case announce ob' ev of Some a \<Rightarrow> [a] | None \<Rightarrow> []) @ announcements alloc ob' evs)"

definition first_seq :: "bus \<Rightarrow> u64 \<Rightarrow> u64" where
  "first_seq b i = (case bus_seqs b i of None \<Rightarrow> 1 | Some s \<Rightarrow> s)"

text \<open>The \<open>j\<close>-th frame: its sequence number counts the earlier messages of the same instrument.\<close>

definition frame_at :: "clock \<Rightarrow> nat \<Rightarrow> bus \<Rightarrow> (u64 \<times> obo_event) list \<Rightarrow> nat \<Rightarrow> bytes" where
  "frame_at clk k b as j =
     (let (instr, e) = as ! j; (ty, pl) = obo_bytes e
      in build_frame (clk (k + j)) ty pl instr (first_seq b instr + word_of_nat (count_list (map fst (take j as)) instr)))"

lemma publish_obo_eq:
  "publish_obo clk (i, e) (k, b) =
     (Suc k, b\<lparr>bus_seqs := (bus_seqs b)(i \<mapsto> first_seq b i + 1),
               bus_ring := ring_push (build_frame (clk k) (fst (obo_bytes e)) (snd (obo_bytes e)) i (first_seq b i)) (bus_ring b)\<rparr>)"
  by (simp add: publish_obo_def next_seq_for_instrument_def publish_raw_def build_frame_def first_seq_def Let_def
      split: prod.splits)

lemma publish_all:
  "fst (fold (publish_obo clk) as (k, b)) = k + length as \<and>
   bus_ring (snd (fold (publish_obo clk) as (k, b))) = fold ring_push (map (frame_at clk k b as) [0..<length as]) (bus_ring b)"
proof (induction as arbitrary: k b)
  case (Cons a as)
  obtain i e where a: "a = (i, e)" by (cases a)
  define b' where "b' = snd (publish_obo clk a (k, b))"
  have step: "publish_obo clk a (k, b) = (Suc k, b')" by (simp add: b'_def a publish_obo_eq)
  have seq: "first_seq b' x = (if x = i then first_seq b i + 1 else first_seq b x)" for x
    by (simp add: b'_def a publish_obo_eq first_seq_def)
  have "frame_at clk (Suc k) b' as j = frame_at clk k b (a # as) (Suc j)" for j
    unfolding frame_at_def by (simp add: a seq ac_simps split: prod.splits)
  then have "map (frame_at clk (Suc k) b' as) [0..<length as] = map (frame_at clk k b (a # as)) [Suc 0..<Suc (length as)]"
    by (simp add: map_Suc_upt [symmetric] del: upt_Suc)
  moreover have "bus_ring b' = ring_push (frame_at clk k b (a # as) 0) (bus_ring b)"
    by (simp add: b'_def a publish_obo_eq frame_at_def split: prod.splits)
  ultimately show ?case using Cons.IH [of "Suc k" b'] by (simp add: step upt_conv_Cons del: upt_Suc)
qed simp

lemma decode_events_law:
  "decode_events alloc clk pub evs (ob, kb) =
     map_option (\<lambda>ob'. (ob', if pub then fold (publish_obo clk) (announcements alloc ob evs) kb else kb)) (apply_events alloc ob evs)"
proof (induction evs arbitrary: ob kb)
  case (Cons ev evs)
  show ?case
  proof (cases "apply_event alloc ob ev")
    case (Some ob')
    then show ?thesis using Cons by (cases "announce ob' ev") (simp_all add: decode_event_def)
  qed (simp add: decode_event_def)
qed simp

section \<open>Runs\<close>

text \<open>The events of a sequence of payloads, each decoded into an empty list.\<close>

fun decode_stream :: "parser \<Rightarrow> bytes list \<Rightarrow> (parser \<times> event list) option" where
  "decode_stream p [] = Some (p, [])"
| "decode_stream p (b # bs) = do {
     (p, es) \<leftarrow> decode_into p b [];
     (p, es') \<leftarrow> decode_stream p bs;
     Some (p, es @ es')
   }"

fun popped :: "(tick \<times> pkt option) list \<Rightarrow> pkt list" where
  "popped [] = []"
| "popped ((tk, None) # xs) = popped xs"
| "popped ((tk, Some p) # xs) = p # popped xs"

text \<open>The export succeeds for the book after every prefix of the events.\<close>

definition exports_ok :: "'q deps \<Rightarrow> obook \<Rightarrow> event list \<Rightarrow> bool" where
  "exports_ok dp ob evs \<longleftrightarrow> (\<forall>n ob'. apply_events (dp_alloc dp) ob (take n evs) = Some ob' \<longrightarrow>
     export (dp_iter_idx dp) (dp_iter_books dp) ob' \<noteq> None)"

lemma apply_events_append:
  "apply_events alloc ob (es @ es') = Option.bind (apply_events alloc ob es) (\<lambda>ob. apply_events alloc ob es')"
proof (induction es arbitrary: ob)
  case (Cons e es)
  then show ?case by (cases "apply_event alloc ob e") simp_all
qed simp

lemma announcements_append:
  "apply_events alloc ob es = Some ob' \<Longrightarrow>
   announcements alloc ob (es @ es') = announcements alloc ob es @ announcements alloc ob' es'"
  by (induction es arbitrary: ob) (auto split: option.splits bind_splits)

lemma exports_ok_append:
  assumes "exports_ok dp ob (es @ es')" "apply_events (dp_alloc dp) ob es = Some ob'"
  shows "exports_ok dp ob' es'" "export (dp_iter_idx dp) (dp_iter_books dp) ob' \<noteq> None"
proof -
  have "export (dp_iter_idx dp) (dp_iter_books dp) ob2 \<noteq> None"
    if "apply_events (dp_alloc dp) ob' (take n es') = Some ob2" for n ob2
  proof -
    have "apply_events (dp_alloc dp) ob (take (length es + n) (es @ es')) = Some ob2"
      using assms(2) that by (simp add: apply_events_append)
    then show ?thesis using assms(1) unfolding exports_ok_def by blast
  qed
  then show "exports_ok dp ob' es'" by (simp add: exports_ok_def)
  show "export (dp_iter_idx dp) (dp_iter_books dp) ob' \<noteq> None"
    using assms unfolding exports_ok_def by (metis append_eq_conv_conj)
qed

lemma take_snapshot_ok:
  assumes "export (dp_iter_idx dp) (dp_iter_books dp) (ds_book st) \<noteq> None"
  shows "\<exists>st'. take_snapshot cfg dp tk st = Some st' \<and> ds_book st' = ds_book st \<and> ds_parser st' = ds_parser st \<and>
    ds_bus st' = ds_bus st \<and> ds_clock st' = ds_clock st \<and> ds_processed_pkts st' = ds_processed_pkts st \<and>
    ds_processed_msgs st' = ds_processed_msgs st"
  using assms by (auto simp: take_snapshot_def)

lemma decode_run_law:
  assumes "\<forall>p \<in> set (popped xs). payload (dp_mem dp) p = Some (pl p)"
    "decode_stream (ds_parser st) (map pl (popped xs)) = Some (prs, evs)"
    "apply_events (dp_alloc dp) (ds_book st) evs = Some ob'" "exports_ok dp (ds_book st) evs" "dc_publisher cfg"
  shows "\<exists>st'. decode_run cfg dp clk xs st = Some st' \<and> ds_book st' = ob' \<and> ds_parser st' = prs \<and>
    (ds_clock st', ds_bus st') = fold (publish_obo clk) (announcements (dp_alloc dp) (ds_book st) evs) (ds_clock st, ds_bus st) \<and>
    ds_processed_pkts st' = ds_processed_pkts st + word_of_nat (length (popped xs)) \<and>
    ds_processed_msgs st' = ds_processed_msgs st + word_of_nat (length evs)"
  using assms(1-4)
proof (induction xs arbitrary: st evs)
  case (Cons x xs)
  obtain tk o1 where x: "x = (tk, o1)" by (cases x)
  show ?case
  proof (cases o1)
    case None
    then show ?thesis using Cons.IH [of "st\<lparr>ds_idle_iters := adaptive_wait (ds_idle_iters st)\<rparr>" evs] Cons.prems x
      by (simp add: decode_iter_def)
  next
    case (Some p)
    obtain prs1 es es' where D: "decode_into (ds_parser st) (pl p) [] = Some (prs1, es)"
        "decode_stream prs1 (map pl (popped xs)) = Some (prs, es')" "evs = es @ es'"
      using Cons.prems(2) x Some by (auto simp: bind_Some_iff)
    obtain ob1 where A: "apply_events (dp_alloc dp) (ds_book st) es = Some ob1" "apply_events (dp_alloc dp) ob1 es' = Some ob'"
      using Cons.prems(3) D(3) by (auto simp: apply_events_append bind_Some_iff)
    note E = exports_ok_append [OF Cons.prems(4) [unfolded D(3)] A(1)]
    obtain k bs where F: "fold (publish_obo clk) (announcements (dp_alloc dp) (ds_book st) es) (ds_clock st, ds_bus st) = (k, bs)"
      by fastforce
    define st1 where "st1 = st\<lparr>ds_book := ob1, ds_parser := prs1, ds_bus := bs, ds_clock := k, ds_pool := recycle (dp_push dp) p (ds_pool st),
           ds_processed_pkts := ds_processed_pkts st + 1, ds_processed_msgs := ds_processed_msgs st + word_of_nat (length es)\<rparr>"
    obtain st2 where st2: "take_snapshot cfg dp tk st1 = Some st2" "ds_book st2 = ob1" "ds_parser st2 = prs1"
        "ds_bus st2 = bs" "ds_clock st2 = k" "ds_processed_pkts st2 = ds_processed_pkts st + 1"
        "ds_processed_msgs st2 = ds_processed_msgs st + word_of_nat (length es)"
      using take_snapshot_ok [of dp st1 cfg tk] E(2) by (auto simp: st1_def)
    have "payload (dp_mem dp) p = Some (pl p)" using Cons.prems(1) x Some by simp
    then have "decode_iter cfg dp clk x st = Some st2"
      using D(1) A(1) F assms(5) st2(1) x Some
      by (simp add: decode_iter_def decode_pkt_def decode_events_law st1_def)
    moreover have "\<exists>st'. decode_run cfg dp clk xs st2 = Some st' \<and> ds_book st' = ob' \<and> ds_parser st' = prs \<and>
        (ds_clock st', ds_bus st') = fold (publish_obo clk) (announcements (dp_alloc dp) ob1 es') (k, bs) \<and>
        ds_processed_pkts st' = ds_processed_pkts st2 + word_of_nat (length (popped xs)) \<and>
        ds_processed_msgs st' = ds_processed_msgs st2 + word_of_nat (length es')"
      using Cons.IH [of st2 es'] Cons.prems(1) D(2) A(2) E(1) st2 x Some by simp
    ultimately show ?thesis
      using x Some D(3) st2(6,7) announcements_append [OF A(1)] F by (auto simp: ac_simps)
  qed
qed simp

section \<open>Books along a run\<close>

lemma put_book_finite: "finite (dom (books ob)) \<Longrightarrow> finite (dom (books (put_book ob i b)))"
  by (simp add: put_book_def)

lemma book_mut_finite: "book_mut ob i = (ob', b) \<Longrightarrow> finite (dom (books ob)) \<Longrightarrow> finite (dom (books ob'))"
  by (auto simp: book_mut_def put_book_def split: option.splits)

lemma apply_event_finite:
  assumes "apply_event alloc ob e = Some ob'" "finite (dom (books ob))"
  shows "finite (dom (books ob'))"
  using assms
  by (cases e)
    (auto simp: apply_add_def apply_mod_def apply_del_def apply_trade_def consume_maker_def ob_set_qty_def ob_cancel_def
      touch_def index_remove_def index_insert_def bind_Some_iff Let_def
      split: option.splits prod.splits if_splits intro!: put_book_finite dest: book_mut_finite)

lemma apply_events_finite:
  "apply_events alloc ob es = Some ob' \<Longrightarrow> finite (dom (books ob)) \<Longrightarrow> finite (dom (books ob'))"
  by (induction es arbitrary: ob) (auto simp: bind_Some_iff dest: apply_event_finite)

lemma ids_fresh_take: "ids_fresh c A es \<Longrightarrow> ids_fresh c A (take n es)"
proof (induction es arbitrary: A n)
  case (Cons e es)
  then show ?case by (cases n) auto
qed simp

lemma fresh_book: "set_consume_trades ct (ob_new d) = ob_new_with_grid d ct (2 ^ 20) 1 16384"
  by (simp add: set_consume_trades_def ob_new_def ob_new_with_grid_def)

definition narrow :: "bands \<Rightarrow> bool" where
  "narrow W \<longleftrightarrow> (\<forall>i s. snd (W i s) - fst (W i s) < 8192)"

lemma fresh_run:
  assumes "slab_alloc alloc" "narrow W" "list_all (event_in W) evs" "ids_fresh ct [] evs"
  shows "\<exists>ob. apply_events alloc (set_consume_trades ct (ob_new d)) evs = Some ob \<and> ob_rel ob (spec_run ct [] evs)"
  unfolding fresh_book
  by (rule banded_run [OF assms(1) _ _ _ _ assms(3,4)])
    (use assms(2) in \<open>simp_all add: band_ok_def ob_new_with_grid_def narrow_def\<close>)

lemma fresh_exports_ok:
  assumes alloc: "slab_alloc (dp_alloc dp)" and it: "hm_iter (dp_iter_idx dp)" "hm_iter (dp_iter_books dp)"
    and W: "narrow W" "list_all (event_in W) evs" "ids_fresh ct [] evs"
  shows "exports_ok dp (set_consume_trades ct (ob_new d)) evs"
  unfolding exports_ok_def
proof (intro allI impI)
  fix n ob'
  assume r: "apply_events (dp_alloc dp) (set_consume_trades ct (ob_new d)) (take n evs) = Some ob'"
  have "list_all (event_in W) (take n evs)" using W(2) by (auto simp: list_all_iff dest: in_set_takeD)
  from fresh_run [OF alloc W(1) this ids_fresh_take [OF W(3)], of d] r
  have rel: "ob_rel ob' (spec_run ct [] (take n evs))" by simp
  have fin: "finite (dom (books ob'))"
    by (rule apply_events_finite [OF r]) (simp add: set_consume_trades_def ob_new_def)
  show "export (dp_iter_idx dp) (dp_iter_books dp) ob' \<noteq> None"
    using export_import [OF alloc it rel fin] by (metis option.distinct(1))
qed

lemma decode_fresh:
  assumes "slab_alloc (dp_alloc dp)" "hm_iter (dp_iter_idx dp)" "hm_iter (dp_iter_books dp)"
    and "dc_initial_book cfg = None" "dc_publisher cfg"
    and "\<forall>p \<in> set (popped xs). payload (dp_mem dp) p = Some (pl p)"
    and "decode_stream prs (map pl (popped xs)) = Some (prs', evs)"
    and "narrow W" "list_all (event_in W) evs" "ids_fresh (dc_consume_trades cfg) [] evs"
  shows "\<exists>st as. decode_run cfg dp clk xs (decode_init cfg prs b po t0) = Some st \<and>
    ob_bbo (ds_book st) = (case last_instr (ds_book st) of None \<Rightarrow> (None, None)
      | Some i \<Rightarrow> (a_bbo (spec_run (dc_consume_trades cfg) [] evs) i Bid, a_bbo (spec_run (dc_consume_trades cfg) [] evs) i Ask)) \<and>
    order_count (ds_book st) = length (spec_run (dc_consume_trades cfg) [] evs) \<and>
    as = announcements (dp_alloc dp) (set_consume_trades (dc_consume_trades cfg) (ob_new (dc_max_depth cfg))) evs \<and>
    bus_ring (ds_bus st) = fold ring_push (map (frame_at clk 0 b as) [0..<length as]) (bus_ring b) \<and>
    ds_processed_pkts st = word_of_nat (length (popped xs)) \<and> ds_processed_msgs st = word_of_nat (length evs)"
proof -
  let ?ct = "dc_consume_trades cfg" and ?st = "decode_init cfg prs b po t0"
  have init: "ds_book ?st = set_consume_trades ?ct (ob_new (dc_max_depth cfg))" "ds_parser ?st = prs" "ds_clock ?st = 0"
      "ds_bus ?st = b" "ds_processed_pkts ?st = 0" "ds_processed_msgs ?st = 0"
    using assms(4) by (simp_all add: decode_init_def)
  define as where "as = announcements (dp_alloc dp) (ds_book ?st) evs"
  obtain ob where ob: "apply_events (dp_alloc dp) (ds_book ?st) evs = Some ob" "ob_rel ob (spec_run ?ct [] evs)"
    using fresh_run [OF assms(1,8-10)] init(1) by metis
  have ex: "exports_ok dp (ds_book ?st) evs" unfolding init(1) by (rule fresh_exports_ok [OF assms(1-3,8-10)])
  obtain st where st: "decode_run cfg dp clk xs ?st = Some st" "ds_book st = ob"
      "(ds_clock st, ds_bus st) = fold (publish_obo clk) as (0, b)"
      "ds_processed_pkts st = word_of_nat (length (popped xs))" "ds_processed_msgs st = word_of_nat (length evs)"
    using decode_run_law [of xs dp pl ?st prs' evs ob cfg clk] assms(5-7) ob(1) ex init unfolding as_def by auto
  have "ds_bus st = snd (fold (publish_obo clk) as (0, b))" using st(3) by (metis snd_conv)
  then have "bus_ring (ds_bus st) = fold ring_push (map (frame_at clk 0 b as) [0..<length as]) (bus_ring b)"
    using publish_all [of clk as 0 b] by simp
  then show ?thesis
    using st ob_bbo_spec [OF ob(2)] order_count_spec [OF ob(2)] as_def init(1) by (intro exI [of _ st] exI [of _ as]) simp
qed

section \<open>Properties\<close>

text \<open>
  C3: The decode stage end to end: started without a snapshot, on any sequence of pops whose payloads decode to the events
  \<open>evs\<close>, with prices in narrow bands and no id added twice, it never panics, whenever snapshots fall due. Afterwards
  the book's best bid and offer and order count are those of the abstract price-time book after \<open>evs\<close>, and the
  frames published are exactly one per announced event, in order, with each instrument's sequence numbers counting up
  from its first one; the packet and message counters are exact.
\<close>

theorem decode_end_to_end:
  assumes "slab_alloc (dp_alloc dp)" "hm_iter (dp_iter_idx dp)" "hm_iter (dp_iter_books dp)"
    and "dc_initial_book cfg = None" "dc_publisher cfg"
    and "\<forall>p \<in> set (popped xs). payload (dp_mem dp) p = Some (pl p)"
    and "decode_stream prs (map pl (popped xs)) = Some (prs', evs)"
    and "narrow W" "list_all (event_in W) evs" "ids_fresh (dc_consume_trades cfg) [] evs"
  shows "\<exists>st as. decode_run cfg dp clk xs (decode_init cfg prs b po t0) = Some st \<and>
    ob_bbo (ds_book st) = (case last_instr (ds_book st) of None \<Rightarrow> (None, None)
      | Some i \<Rightarrow> (a_bbo (spec_run (dc_consume_trades cfg) [] evs) i Bid, a_bbo (spec_run (dc_consume_trades cfg) [] evs) i Ask)) \<and>
    order_count (ds_book st) = length (spec_run (dc_consume_trades cfg) [] evs) \<and>
    as = announcements (dp_alloc dp) (set_consume_trades (dc_consume_trades cfg) (ob_new (dc_max_depth cfg))) evs \<and>
    bus_ring (ds_bus st) = fold ring_push (map (frame_at clk 0 b as) [0..<length as]) (bus_ring b) \<and>
    ds_processed_pkts st = word_of_nat (length (popped xs)) \<and> ds_processed_msgs st = word_of_nat (length evs)"
  by (rule decode_fresh [OF assms])

definition demo_deps :: "bytes spsc deps" where
  "demo_deps = \<lparr>dp_alloc = first_free, dp_iter_idx = (\<lambda>m. sorted_list_of_set (dom m)),
     dp_iter_books = (\<lambda>m. sorted_list_of_set (dom m)), dp_push = spsc_push, dp_mem = (\<lambda>_. 0)\<rparr>"

definition demo_decode_cfg :: decode_config where
  "demo_decode_cfg = \<lparr>dc_max_depth = 10, dc_snapshot_interval_ms = 1000, dc_consume_trades = False, dc_snapshot_tx = True,
     dc_initial_book = None, dc_snapshot_trigger = True, dc_publisher = True\<rparr>"

definition demo_parser :: parser where
  "demo_parser = build_parser FixedBinary \<lparr>sc_offset = 0, sc_length = 4, sc_endian = Be\<rparr> 8"

definition demo_payload :: bytes where
  "demo_payload = eobi_encode 1 1 [Add 1 7 100 5 Bid, Add 2 7 101 6 Ask]"

definition demo_packet :: pkt where
  "demo_packet = \<lparr>pk_buf = Buf_Bytes demo_payload, pk_len = length demo_payload, pk_seq = 1, pk_ts_nanos = 0, pk_chan = 65,
     pk_ts_kind = Ts_Sw, pk_merge_emit_ns = 0\<rparr>"

theorem decode_end_to_end_witness:
  "\<exists>st. decode_run demo_decode_cfg demo_deps (\<lambda>_. 9) [(\<lparr>tk_now = 5, tk_later = 6, tk_triggered = True\<rparr>, Some demo_packet)]
      (decode_init demo_decode_cfg demo_parser (bus_new 4) (pool_new spsc_new spsc_push 4 64) 0) = Some st \<and>
    order_count (ds_book st) = 2 \<and> ds_processed_msgs st = 2"
proof -
  let ?xs = "[(\<lparr>tk_now = 5, tk_later = 6, tk_triggered = True\<rparr>, Some demo_packet)]"
  let ?evs = "[Add 1 7 100 5 Bid, Add 2 7 101 6 Ask]"
  have 1: "decode_stream demo_parser (map (\<lambda>_. demo_payload) (popped ?xs)) = Some (demo_parser, ?evs)" by code_simp
  have 2: "\<forall>p \<in> set (popped ?xs). payload (dp_mem demo_deps) p = Some demo_payload"
    by (simp add: payload_def demo_packet_def slice_def)
  have 3: "list_all (event_in (\<lambda>_ _. (90, 110))) ?evs" by (simp add: px_ok_def)
  have 4: "ids_fresh (dc_consume_trades demo_decode_cfg) [] ?evs" by simp
  have 5: "narrow (\<lambda>_ _. (90, 110))" by (simp add: narrow_def)
  have 6: "length (spec_run (dc_consume_trades demo_decode_cfg) [] ?evs) = 2" by code_simp
  have 7: "slab_alloc (dp_alloc demo_deps)" "hm_iter (dp_iter_idx demo_deps)" "hm_iter (dp_iter_books demo_deps)"
    by (simp_all add: demo_deps_def first_free_alloc sorted_iter)
  have 8: "dc_initial_book demo_decode_cfg = None" "dc_publisher demo_decode_cfg" by (simp_all add: demo_decode_cfg_def)
  obtain st where "decode_run demo_decode_cfg demo_deps (\<lambda>_. 9) ?xs
        (decode_init demo_decode_cfg demo_parser (bus_new 4) (pool_new spsc_new spsc_push 4 64) 0) = Some st"
      "order_count (ds_book st) = length (spec_run (dc_consume_trades demo_decode_cfg) [] ?evs)"
      "ds_processed_msgs st = word_of_nat (length ?evs)"
    using decode_end_to_end [OF 7 8 2 1 5 3 4] by blast
  then show ?thesis unfolding 6 by (intro exI [of _ st]) simp
qed

text \<open>
  C35: A delete is announced for instrument 0: the book has already forgotten the order when its instrument is looked up. So the
  cancels of all instruments share the sequence numbers of instrument 0, and a client never learns whose order was cancelled.
\<close>

theorem cancel_loses_instrument:
  assumes "apply_event alloc ob (Del oid) = Some ob'"
  shows "announce ob' (Del oid) = Some (0, Obo_Cancel \<lparr>oc_order_id = oid, oc_qty_cxl = 0, oc_reason = 0\<rparr>)"
proof -
  have "index ob' oid = None"
    using assms by (auto simp: apply_del_def ob_cancel_def book_mut_def put_book_def touch_def index_remove_def bind_Some_iff
        Let_def split: option.splits prod.splits)
  then show ?thesis by (simp add: announce_def event_instr_def instrument_for_order_def)
qed

theorem cancel_loses_instrument_witness:
  "\<exists>ob ob'. apply_event first_free (ob_new 10) (Add 1 7 100 5 Bid) = Some ob \<and> instrument_for_order ob 1 = Some 7 \<and>
     apply_event first_free ob (Del 1) = Some ob' \<and>
     announce ob' (Del 1) = Some (0, Obo_Cancel \<lparr>oc_order_id = 1, oc_qty_cxl = 0, oc_reason = 0\<rparr>)"
proof -
  have W: "narrow (\<lambda>_ _. (90, 110))" by (simp add: narrow_def)
  obtain ob2 where r: "apply_events first_free (set_consume_trades False (ob_new 10)) [Add 1 7 100 5 Bid, Del 1] = Some ob2"
    using fresh_run [OF first_free_alloc W, of "[Add 1 7 100 5 Bid, Del 1]" False 10] by (auto simp: px_ok_def)
  have same: "set_consume_trades False (ob_new 10) = ob_new 10" by (simp add: set_consume_trades_def ob_new_def)
  obtain ob where ob: "apply_event first_free (ob_new 10) (Add 1 7 100 5 Bid) = Some ob" "apply_event first_free ob (Del 1) = Some ob2"
    using r unfolding same by (auto simp: bind_Some_iff)
  have "instrument_for_order ob 1 = Some 7"
    using ob(1) by (auto simp: apply_add_def instrument_for_order_def touch_def index_insert_def bind_Some_iff Let_def
        split: prod.splits)
  then show ?thesis using ob cancel_loses_instrument [OF ob(2)] by blast
qed

end
