(* ===== verification/Pipeline.thy ===== *)
theory Pipeline
  imports Merge_Live Decode
begin

text \<open>
  The stages together: packets of both lines go through the arbiter (\<open>Merge\<close>), what it forwards is decoded and
  applied (\<open>Decode\<close>).

  \<^item> \<open>heap_payload\<close>, \<open>carries_events\<close>: a packet that carries the events of its number; copies of a number agree in their payload, not
    in channel or time stamp.
  \<^item> \<open>merged_payloads\<close>, \<open>eobi_stream\<close>: what the arbiter forwards of a block, and what the decoder makes of it.
\<close>

section \<open>From packets to the book\<close>

text \<open>The payload of a heap packet; \<open>content_of\<close> forgets only the forwarding time.\<close>

definition heap_payload :: "pkt \<Rightarrow> bytes \<Rightarrow> bool" where
  "heap_payload p b \<longleftrightarrow> pk_buf p = Buf_Bytes b \<and> pk_len p = length b"

lemma heap_payload_read: "heap_payload p b \<Longrightarrow> payload mem p = Some b"
  by (simp add: heap_payload_def payload_def slice_def)

lemma heap_payload_content: "content_of p = content_of q \<Longrightarrow> heap_payload q b \<Longrightarrow> heap_payload p b"
  by (cases p, cases q) (simp add: heap_payload_def content_of_def)

definition eobi_events :: "event list \<Rightarrow> bool" where
  "eobi_events es \<longleftrightarrow> list_all (\<lambda>e. eobi_body e \<noteq> None \<and> event_ok e) es"

lemma eobi_stream:
  assumes "p_dec prs = Fixed" "list_all eobi_events ess"
  shows "decode_stream prs (map (eobi_encode sc ve) ess) = Some (prs, concat ess)"
  using assms(2)
proof (induction ess)
  case (Cons es ess)
  have "eobi_decode (eobi_encode sc ve es @ []) [] = Some es"
    using eobi_loop_encode [of es "[]" "[]" sc ve "[]"] Cons.prems by (simp add: eobi_decode_def eobi_events_def)
  then have "decode_into prs (eobi_encode sc ve es) [] = Some (prs, es)" using assms(1) by (simp add: decode_into_def)
  then show ?case using Cons by simp
qed simp


text \<open>Each copy of a number carries the events of its place in the sequence.\<close>

definition carries_events :: "u64 \<Rightarrow> u16 \<Rightarrow> u16 \<Rightarrow> event list list \<Rightarrow> pkt \<Rightarrow> bool" where
  "carries_events n0 sc ve ess p \<longleftrightarrow> heap_payload p (eobi_encode sc ve (ess ! unat (pk_seq p - n0)))"

lemma merged_payloads:
  assumes F: "\<And>i. i < length ess \<Longrightarrow> f i \<in> set arr \<and> pk_seq (f i) = n0 + word_of_nat i" "length ess < 2 ^ 64"
    and out: "map content_of ps = map (\<lambda>i. content_of (f i)) [0..<length ess]" and "list_all (carries_events n0 sc ve ess) arr"
  shows "list_all2 heap_payload ps (map (eobi_encode sc ve) ess)"
proof -
  have len: "length ps = length ess" using arg_cong [OF out, of length] by simp
  have "heap_payload (ps ! i) (eobi_encode sc ve (ess ! i))" if i: "i < length ess" for i
  proof -
    have "unat (pk_seq (f i) - n0) = i" using F(1) [OF i] unat_diff_base [of i n0] F(2) i by simp
    then have "heap_payload (f i) (eobi_encode sc ve (ess ! i))" using assms(4) F(1) [OF i] by (auto simp: list_all_iff carries_events_def)
    moreover have "content_of (ps ! i) = content_of (f i)" using arg_cong [OF out, of "\<lambda>xs. xs ! i"] i len by simp
    ultimately show ?thesis using heap_payload_content by blast
  qed
  then show ?thesis using len by (simp add: list_all2_conv_all_nth)
qed

definition heap_bytes :: "pkt \<Rightarrow> bytes" where
  "heap_bytes p = (case pk_buf p of Buf_Bytes b \<Rightarrow> b | Umem _ _ _ \<Rightarrow> [])"

lemma heap_payloads:
  assumes "list_all2 heap_payload ps bs"
  shows "map heap_bytes ps = bs" "\<forall>p \<in> set ps. payload mem p = Some (heap_bytes p)"
proof -
  have bytes: "heap_bytes p = b" if "heap_payload p b" for p b using that by (simp add: heap_bytes_def heap_payload_def)
  show "map heap_bytes ps = bs" using assms by (induction rule: list_all2_induct) (auto simp: bytes)
  show "\<forall>p \<in> set ps. payload mem p = Some (heap_bytes p)"
    using assms by (induction rule: list_all2_induct) (auto simp: bytes heap_payload_read)
qed

section \<open>Properties\<close>

text \<open>
  C1: From the wire to the book. Let the packets of a block arrive in any order, on any worker of two redundant lines or from recovery,
  any number of times each and interleaved in any way with the arbiter's iterations, every number at least once, its copies carrying
  the same EOBI events; the block fits the window and the pending limit. Then finitely many further iterations of the arbiter forward
  it without reporting a gap, and the decode stage fed with what the arbiter forwards, with idle rounds anywhere in between,
  never panics; its book shows the best bid and offer and the order count of the abstract price-time book after all
  events in the order of their sequence numbers, and one frame per announced event has been published.
\<close>

theorem feed_to_book:
  assumes "slab_alloc (dp_alloc dp)" "hm_iter (dp_iter_idx dp)" "hm_iter (dp_iter_books dp)"
    and "dc_initial_book dcfg = None" "dc_publisher dcfg" "p_dec prs = Fixed"
    and "merge_run cfg rec clk1 na nb arr m" "0 < na" "na \<le> 2 ^ 64" "0 < nb" "nb \<le> 2 ^ 64"
    and "block_fits cfg (length ess)" "covers (mc_next_seq cfg) (length ess) arr"
    and "list_all (carries_events (mc_next_seq cfg) sc ve ess) arr" "list_all eobi_events ess"
    and "narrow W" "list_all (event_in W) (concat ess)" "ids_fresh (dc_consume_trades dcfg) [] (concat ess)"
  shows "\<exists>k m'. merge_iters cfg rec clk1 k m = Some m' \<and> mg_notes m' = [] \<and> (\<forall>xs. popped xs = mg_out m' \<longrightarrow>
    (\<exists>st as. decode_run dcfg dp clk xs (decode_init dcfg prs b po t0) = Some st \<and>
    ob_bbo (ds_book st) = (case last_instr (ds_book st) of None \<Rightarrow> (None, None)
      | Some i \<Rightarrow> (a_bbo (spec_run (dc_consume_trades dcfg) [] (concat ess)) i Bid,
                   a_bbo (spec_run (dc_consume_trades dcfg) [] (concat ess)) i Ask)) \<and>
    order_count (ds_book st) = length (spec_run (dc_consume_trades dcfg) [] (concat ess)) \<and>
    as = announcements (dp_alloc dp) (set_consume_trades (dc_consume_trades dcfg) (ob_new (dc_max_depth dcfg))) (concat ess) \<and>
    bus_ring (ds_bus st) = fold ring_push (map (frame_at clk 0 b as) [0..<length as]) (bus_ring b)))"
proof -
  have A: "list_all (in_block (mc_next_seq cfg) (length ess)) arr" using assms(13) by (simp add: covers_def)
  then have A': "\<forall>p\<in>set arr. in_block (mc_next_seq cfg) (length ess) p" by (simp add: list_all_iff)
  obtain k m' where m': "merge_iters cfg rec clk1 k m = Some m'" "live_inv cfg na nb (length ess) (set arr) m'" "waiting m' = {}"
    using queues_run_dry [OF assms(12) A' assms(9,11) block_run [OF assms(12,8,10,7) A]] by blast
  obtain f where f: "\<And>i. i < length ess \<Longrightarrow> f i \<in> set arr \<and> pk_seq (f i) = mc_next_seq cfg + word_of_nat i"
      "map content_of (mg_out m') = map (\<lambda>i. content_of (f i)) [0..<length ess]" "mg_notes m' = []"
    using block_delivered [OF assms(12) m'(2,3) assms(13)] by (auto simp: view_of_def)
  have "length ess < 2 ^ 64" using assms(12) by (simp add: block_fits_def)
  note P = heap_payloads [OF merged_payloads [OF f(1) this f(2) assms(14)]]
  have run: "\<exists>st as. decode_run dcfg dp clk xs (decode_init dcfg prs b po t0) = Some st \<and>
    ob_bbo (ds_book st) = (case last_instr (ds_book st) of None \<Rightarrow> (None, None)
      | Some i \<Rightarrow> (a_bbo (spec_run (dc_consume_trades dcfg) [] (concat ess)) i Bid,
                   a_bbo (spec_run (dc_consume_trades dcfg) [] (concat ess)) i Ask)) \<and>
    order_count (ds_book st) = length (spec_run (dc_consume_trades dcfg) [] (concat ess)) \<and>
    as = announcements (dp_alloc dp) (set_consume_trades (dc_consume_trades dcfg) (ob_new (dc_max_depth dcfg))) (concat ess) \<and>
    bus_ring (ds_bus st) = fold ring_push (map (frame_at clk 0 b as) [0..<length as]) (bus_ring b)" if x: "popped xs = mg_out m'" for xs
  proof -
    have pay: "\<forall>p \<in> set (popped xs). payload (dp_mem dp) p = Some (heap_bytes p)" using P(2) x by simp
    have ev: "decode_stream prs (map heap_bytes (popped xs)) = Some (prs, concat ess)" using P(1) eobi_stream [OF assms(6,15)] x by simp
    show ?thesis using decode_fresh [OF assms(1-5) pay ev assms(16-18), of clk b po t0] by blast
  qed
  then show ?thesis using m'(1) f(3) by blast
qed

lemma popped_all: "popped (map (\<lambda>p. (tk, Some p)) ps) = ps"
  by (induction ps) simp_all

text \<open>Two packets, sent on both lines; the second one overtakes the first.\<close>

definition feed_events :: "event list list" where
  "feed_events = [[Add 1 7 100 5 Bid], [Add 2 7 101 6 Ask]]"

definition feed_pkt :: "u8 \<Rightarrow> nat \<Rightarrow> pkt" where
  "feed_pkt chan i = (let b = eobi_encode 1 1 (feed_events ! i) in
     \<lparr>pk_buf = Buf_Bytes b, pk_len = length b, pk_seq = 1 + word_of_nat i, pk_ts_nanos = 0, pk_chan = chan, pk_ts_kind = Ts_Sw,
      pk_merge_emit_ns = 0\<rparr>)"

lemma feed_arrivals:
  "\<exists>m. merge_run demo_cfg True (\<lambda>_. 7) 1 1 [feed_pkt 65 1, feed_pkt 66 1, feed_pkt 66 0] m"
proof -
  obtain m0 where m0: "merge_run demo_cfg True (\<lambda>_. 7) 1 1 [] m0" using start_up [of None] by blast
  note m1 = arrive_a [OF m0, of 0 "feed_pkt 65 1"]
  note m2 = arrive_b [OF m1, of 0 "feed_pkt 66 1"]
  note m3 = arrive_b [OF m2, of 0 "feed_pkt 66 0"]
  from m3 show ?thesis by auto
qed

theorem feed_to_book_witness:
  "\<exists>m k m'. merge_iters demo_cfg True (\<lambda>_. 7) k m = Some m' \<and> mg_notes m' = [] \<and> (\<exists>st. decode_run demo_decode_cfg demo_deps (\<lambda>_. 9)
      (map (\<lambda>p. (\<lparr>tk_now = 5, tk_later = 6, tk_triggered = True\<rparr>, Some p)) (mg_out m'))
      (decode_init demo_decode_cfg demo_parser (bus_new 4) (pool_new spsc_new spsc_push 4 64) 0) = Some st \<and>
    order_count (ds_book st) = 2)"
proof -
  let ?ps = "[feed_pkt 65 1, feed_pkt 66 1, feed_pkt 66 0]"
  obtain m where m: "merge_run demo_cfg True (\<lambda>_. 7) 1 1 ?ps m" using feed_arrivals by blast
  have d: "slab_alloc (dp_alloc demo_deps)" "hm_iter (dp_iter_idx demo_deps)" "hm_iter (dp_iter_books demo_deps)"
      "dc_initial_book demo_decode_cfg = None" "dc_publisher demo_decode_cfg" "p_dec demo_parser = Fixed"
    by (simp_all add: demo_deps_def first_free_alloc sorted_iter demo_decode_cfg_def demo_parser_def build_parser_def)
  have sq: "pk_seq (feed_pkt c i) = 1 + word_of_nat i" for c i by (simp add: feed_pkt_def Let_def)
  have c: "covers (mc_next_seq demo_cfg) (length feed_events) ?ps"
    by (auto simp: covers_def in_block_def sq demo_cfg_def feed_events_def less_Suc_eq)
  have l: "block_fits demo_cfg (length feed_events)" by (simp add: block_fits_def demo_cfg_def feed_events_def)
  have e: "list_all (carries_events (mc_next_seq demo_cfg) 1 1 feed_events) ?ps"
    by (simp add: carries_events_def heap_payload_def feed_pkt_def demo_cfg_def Let_def)
  have ev: "list_all eobi_events feed_events" "list_all (event_in (\<lambda>_ _. (90, 110))) (concat feed_events)"
      "ids_fresh (dc_consume_trades demo_decode_cfg) [] (concat feed_events)" "narrow (\<lambda>_ _. (90, 110))"
    by (simp_all add: eobi_events_def feed_events_def px_ok_def narrow_def i64_ok_def)
  have n: "length (spec_run (dc_consume_trades demo_decode_cfg) [] (concat feed_events)) = 2" by code_simp
  have w: "0 < (1 :: nat)" "(1 :: nat) \<le> 2 ^ 64" by simp_all
  obtain k m' where K: "merge_iters demo_cfg True (\<lambda>_. 7) k m = Some m'" "mg_notes m' = []"
      "\<And>xs. popped xs = mg_out m' \<Longrightarrow> \<exists>st. decode_run demo_decode_cfg demo_deps (\<lambda>_. 9) xs
         (decode_init demo_decode_cfg demo_parser (bus_new 4) (pool_new spsc_new spsc_push 4 64) 0) = Some st \<and> order_count (ds_book st) = 2"
    using feed_to_book [OF d m w w l c e ev(1,4,2,3), of "\<lambda>_. 9" "bus_new 4" "pool_new spsc_new spsc_push 4 64" 0]
    unfolding n by blast
  show ?thesis using K(1,2) K(3) [OF popped_all] by blast
qed

end
