(* ===== verification/Rx.thy ===== *)
theory Rx
  imports Parser Pool Util
begin

text \<open>
  The receive loop of \<open>src/src/rx.rs\<close>.

  What the kernel answers is an argument: \<open>Datagram\<close> with its bytes and control messages, \<open>Again\<close>
  (\<open>EAGAIN\<close>, \<open>EWOULDBLOCK\<close>, \<open>EINTR\<close>) or \<open>Fatal\<close>. \<open>stamp\<close> chooses the time stamp, \<open>deliver\<close> turns a datagram into a packet and
  queues it, \<open>rx_singles\<close> is the path with one receive call per packet (no further answer: the shutdown flag was raised),
  \<open>rx_mmsg\<close> the batched path, \<open>rx_iteration\<close> one round of the loop, \<open>rx_run\<close> several. The specification \<open>rx_input\<close> says
  which datagrams a round accepts, \<open>rx_pkts\<close> which of them become packets. The pool's queue operations are arguments as in \<open>Pool\<close>. Metrics are left out; \<open>rx_dropped\<close> is the
  loop's own counter.
\<close>

datatype timestamping_mode = Ts_Off | Ts_Software | Ts_Hardware | Ts_HardwareRaw

record rx_config =
  rc_spin_loops_per_yield :: u32
  rc_rx_batch :: nat
  rc_ts_mode :: "timestamping_mode option"

record 'q rx =
  rx_q :: "pkt spsc"
  rx_pool :: "'q pool"
  rx_dropped :: u64
  rx_idle_iters :: u32
  rx_iter :: u64

text \<open>Seconds and nanoseconds, and the control messages that carry them.\<close>

type_synonym timespec = "i64 \<times> i64"

datatype cmsg =
    ScmTimestampns timespec
  | ScmTimestamping "timespec list"
  | Other_Cmsg

datatype answer =
    Datagram bytes "cmsg list"
  | Again
  | Fatal

definition chan_id :: "string \<Rightarrow> u8" where
  "chan_id chan_name = (if chan_name = ''A'' then 65 else 66)"

definition ts_off :: "timestamping_mode option \<Rightarrow> bool" where
  "ts_off ts_mode = (case ts_mode of Some m \<Rightarrow> m = Ts_Off | None \<Rightarrow> True)"

definition ts_ns :: "timespec \<Rightarrow> u64" where
  "ts_ns ts = i64_as_u64 (fst ts) * 1000000000 + i64_as_u64 (snd ts)"

text \<open>The last control message that carries a time wins; of several times in one message the last nonzero one.\<close>

fun scan_cmsg :: "timestamping_mode option \<Rightarrow> cmsg \<Rightarrow> u64 \<times> ts_kind \<Rightarrow> u64 \<times> ts_kind" where
  "scan_cmsg mode (ScmTimestampns ts) acc = (ts_ns ts, Ts_Sw)"
| "scan_cmsg mode (ScmTimestamping tss) acc =
     (case find (\<lambda>t. fst t \<noteq> 0 \<or> snd t \<noteq> 0) (rev tss) of
        Some tv \<Rightarrow> (ts_ns tv, if mode = Some Ts_HardwareRaw then Ts_HwRaw else Ts_HwSys)
      | None \<Rightarrow> acc)"
| "scan_cmsg mode Other_Cmsg acc = acc"

text \<open>
  The time stamp of a datagram, \<open>now\<close> being the loop's reading of the clock; \<open>None\<close> stands for
  \<open>EAGAIN\<close>, which an empty datagram is turned into when time stamping is on.
\<close>

definition stamp :: "timestamping_mode option \<Rightarrow> u64 \<Rightarrow> bytes \<Rightarrow> cmsg list \<Rightarrow> (u64 \<times> ts_kind) option" where
  "stamp mode now data cmsgs =
     (if ts_off mode then Some (now, Ts_Sw)
      else let (ts_nanos, kind) = fold (scan_cmsg mode) cmsgs (0, Ts_Sw) in
        if data = [] then None
        else if ts_nanos = 0 then Some (now, Ts_Sw)
        else Some (ts_nanos, kind))"

definition mk_pkt :: "u8 \<Rightarrow> bytes \<Rightarrow> u64 \<Rightarrow> u64 \<Rightarrow> ts_kind \<Rightarrow> pkt" where
  "mk_pkt chan buf sv ts kind =
     \<lparr>pk_buf = Buf_Bytes buf, pk_len = length buf, pk_seq = sv, pk_ts_nanos = ts, pk_chan = chan, pk_ts_kind = kind,
      pk_merge_emit_ns = 0\<rparr>"

text \<open>A queued packet leaves the loop with its buffer; so does one that is dropped because the queue is full.\<close>

definition deliver :: "('q \<Rightarrow> bytes \<Rightarrow> 'q \<times> (bytes + unit)) \<Rightarrow> seq_cfg \<Rightarrow> u8 \<Rightarrow> bytes \<Rightarrow> u64 \<Rightarrow> ts_kind \<Rightarrow> 'q rx \<Rightarrow> 'q rx option" where
  "deliver push sc chan buf ts kind st = (case extract_seq sc buf of
     None \<Rightarrow> None
   | Some (Some sv) \<Rightarrow>
       (case spsc_push (rx_q st) (mk_pkt chan buf sv ts kind) of
          (q, Inl _) \<Rightarrow> Some (st\<lparr>rx_q := q, rx_dropped := rx_dropped st + 1\<rparr>)
        | (q, Inr _) \<Rightarrow> Some (st\<lparr>rx_q := q\<rparr>))
   | Some None \<Rightarrow> Some (st\<lparr>rx_pool := pool_put push (rx_pool st) buf\<rparr>))"

text \<open>
  Up to \<open>n\<close> receive calls. Each takes a buffer from the pool first; on \<open>Again\<close> that buffer is dropped and the round ends. The
  result says whether a packet was received; \<open>Inl\<close> is the error return.
\<close>

fun rx_singles ::
  "('q \<Rightarrow> bytes \<Rightarrow> 'q \<times> (bytes + unit)) \<Rightarrow> ('q \<Rightarrow> ('q \<times> bytes option) option) \<Rightarrow> seq_cfg \<Rightarrow> u8 \<Rightarrow> timestamping_mode option \<Rightarrow>
   u64 \<Rightarrow> nat \<Rightarrow> answer list \<Rightarrow> bool \<Rightarrow> 'q rx \<Rightarrow> (unit + 'q rx \<times> bool) option" where
  "rx_singles push pop sc chan mode now n [] progressed st = Some (Inr (st, progressed))"
| "rx_singles push pop sc chan mode now 0 answers progressed st = Some (Inr (st, progressed))"
| "rx_singles push pop sc chan mode now (Suc n) (a # answers) progressed st =
     (case pool_get pop (rx_pool st) of
        None \<Rightarrow> None
      | Some (po, buf) \<Rightarrow>
          let st = st\<lparr>rx_pool := po\<rparr> in
          (case a of
             Fatal \<Rightarrow> Some (Inl ())
           | Again \<Rightarrow> Some (Inr (st, progressed))
           | Datagram data cmsgs \<Rightarrow>
               (case stamp mode now data cmsgs of
                  None \<Rightarrow> Some (Inr (st, progressed))
                | Some (ts, kind) \<Rightarrow>
                    Option.bind (deliver push sc chan (buf @ data) ts kind st)
                      (rx_singles push pop sc chan mode now n answers True))))"

text \<open>The batched path: a buffer per slot, then the datagrams, then the unused buffers back to the pool.\<close>

fun get_bufs :: "('q \<Rightarrow> ('q \<times> bytes option) option) \<Rightarrow> nat \<Rightarrow> 'q pool \<Rightarrow> ('q pool \<times> bytes list) option" where
  "get_bufs pop 0 po = Some (po, [])"
| "get_bufs pop (Suc n) po = Option.bind (pool_get pop po) (\<lambda>(po, b). map_option (\<lambda>(po, bs). (po, b # bs)) (get_bufs pop n po))"

fun deliver_all :: "('q \<Rightarrow> bytes \<Rightarrow> 'q \<times> (bytes + unit)) \<Rightarrow> seq_cfg \<Rightarrow> u8 \<Rightarrow> u64 \<Rightarrow> (bytes \<times> bytes) list \<Rightarrow> 'q rx \<Rightarrow> 'q rx option" where
  "deliver_all push sc chan ts [] st = Some st"
| "deliver_all push sc chan ts ((buf, data) # ds) st =
     Option.bind (deliver push sc chan (buf @ data) ts Ts_Sw st) (deliver_all push sc chan ts ds)"

definition rx_mmsg ::
  "('q \<Rightarrow> bytes \<Rightarrow> 'q \<times> (bytes + unit)) \<Rightarrow> ('q \<Rightarrow> ('q \<times> bytes option) option) \<Rightarrow> seq_cfg \<Rightarrow> u8 \<Rightarrow> u64 \<Rightarrow> nat \<Rightarrow>
   (bytes list) option option \<Rightarrow> 'q rx \<Rightarrow> (unit + 'q rx \<times> bool) option" where
  "rx_mmsg push pop sc chan now batch ret st = do {
     (po, bufs) \<leftarrow> get_bufs pop batch (rx_pool st);
     let st = st\<lparr>rx_pool := po\<rparr>;
     (case ret of
        None \<Rightarrow> Some (Inl ())
      | Some None \<Rightarrow> Some (Inr (st, False))
      | Some (Some []) \<Rightarrow> Some (Inr (st, False))
      | Some (Some datas) \<Rightarrow> do {
          st \<leftarrow> deliver_all push sc chan now (zip bufs datas) st;
          Some (Inr (st\<lparr>rx_pool := fold (\<lambda>b po. pool_put push po b) (drop (length datas) bufs) (rx_pool st)\<rparr>, True))
        })
   }"

definition rx_end :: "bool \<Rightarrow> 'q rx \<Rightarrow> 'q rx" where
  "rx_end progressed st = st\<lparr>
     rx_idle_iters := (if progressed then 0 else adaptive_wait (rx_idle_iters st)),
     rx_iter := rx_iter st + 1\<rparr>"

text \<open>
  One round: batched receive when time stamping is off and the batch is larger than one, single receives otherwise. \<open>mret\<close> is
  what \<open>recvmmsg\<close> answers: an error, nothing, or datagrams.
\<close>

definition rx_iteration ::
  "('q \<Rightarrow> bytes \<Rightarrow> 'q \<times> (bytes + unit)) \<Rightarrow> ('q \<Rightarrow> ('q \<times> bytes option) option) \<Rightarrow> seq_cfg \<Rightarrow> string \<Rightarrow> rx_config \<Rightarrow> u64 \<Rightarrow>
   (bytes list) option option \<Rightarrow> answer list \<Rightarrow> 'q rx \<Rightarrow> (unit + 'q rx) option" where
  "rx_iteration push pop sc chan_name cfg now mret answers st =
     (let batch = max (rc_rx_batch cfg) 1; chan = chan_id chan_name in
      map_option (map_sum id (\<lambda>(st, progressed). rx_end progressed st))
        (if ts_off (rc_ts_mode cfg) \<and> batch > 1 then rx_mmsg push pop sc chan now batch mret st
         else rx_singles push pop sc chan (rc_ts_mode cfg) now batch answers False st))"


fun rx_run ::
  "('q \<Rightarrow> bytes \<Rightarrow> 'q \<times> (bytes + unit)) \<Rightarrow> ('q \<Rightarrow> ('q \<times> bytes option) option) \<Rightarrow> seq_cfg \<Rightarrow> string \<Rightarrow> rx_config \<Rightarrow>
   (u64 \<times> (bytes list) option option \<times> answer list) list \<Rightarrow> 'q rx \<Rightarrow> (unit + 'q rx) option" where
  "rx_run push pop sc chan_name cfg [] st = Some (Inr st)"
| "rx_run push pop sc chan_name cfg ((now, mret, answers) # rs) st =
     (case rx_iteration push pop sc chan_name cfg now mret answers st of
        None \<Rightarrow> None
      | Some (Inl e) \<Rightarrow> Some (Inl e)
      | Some (Inr st) \<Rightarrow> rx_run push pop sc chan_name cfg rs st)"

section \<open>What a round accepts\<close>

text \<open>The datagrams of a round with their time stamps; \<open>None\<close> when the round ends with an error.\<close>

fun singles_input :: "timestamping_mode option \<Rightarrow> u64 \<Rightarrow> nat \<Rightarrow> answer list \<Rightarrow> (bytes \<times> u64 \<times> ts_kind) list option" where
  "singles_input mode now n [] = Some []"
| "singles_input mode now 0 answers = Some []"
| "singles_input mode now (Suc n) (Fatal # answers) = None"
| "singles_input mode now (Suc n) (Again # answers) = Some []"
| "singles_input mode now (Suc n) (Datagram data cmsgs # answers) =
     (case stamp mode now data cmsgs of
        None \<Rightarrow> Some []
      | Some (ts, kind) \<Rightarrow> map_option ((#) (data, ts, kind)) (singles_input mode now n answers))"

definition batched :: "rx_config \<Rightarrow> bool" where
  "batched cfg \<longleftrightarrow> ts_off (rc_ts_mode cfg) \<and> max (rc_rx_batch cfg) 1 > 1"

definition rx_input :: "rx_config \<Rightarrow> u64 \<Rightarrow> (bytes list) option option \<Rightarrow> answer list \<Rightarrow> (bytes \<times> u64 \<times> ts_kind) list option" where
  "rx_input cfg now mret answers =
     (if batched cfg then
        (case mret of None \<Rightarrow> None | Some None \<Rightarrow> Some [] | Some (Some datas) \<Rightarrow> Some (map (\<lambda>d. (d, now, Ts_Sw)) datas))
      else singles_input (rc_ts_mode cfg) now (max (rc_rx_batch cfg) 1) answers)"

text \<open>A datagram long enough to hold its sequence number becomes a packet.\<close>

definition rx_pkt :: "seq_cfg \<Rightarrow> u8 \<Rightarrow> bytes \<times> u64 \<times> ts_kind \<Rightarrow> pkt list" where
  "rx_pkt sc chan d = (case d of (data, ts, kind) \<Rightarrow>
     (case extract_seq sc data of Some (Some sv) \<Rightarrow> [mk_pkt chan data sv ts kind] | _ \<Rightarrow> []))"

definition rx_pkts :: "seq_cfg \<Rightarrow> u8 \<Rightarrow> (bytes \<times> u64 \<times> ts_kind) list \<Rightarrow> pkt list" where
  "rx_pkts sc chan ds = concat (map (rx_pkt sc chan) ds)"

lemma rx_pkts_simps [simp]: "rx_pkts sc chan [] = []" "rx_pkts sc chan (d # ds) = rx_pkt sc chan d @ rx_pkts sc chan ds"
  by (simp_all add: rx_pkts_def)

lemma extract_seq_total: "extract_seq sc b \<noteq> None"
  by (auto simp: extract_seq_def slice_def Let_def)

text \<open>The queue holds \<open>xs\<close>, the pool \<open>n\<close> empty buffers.\<close>

definition rx_rel :: "('q \<Rightarrow> bytes list \<Rightarrow> bool) \<Rightarrow> ('q \<Rightarrow> nat) \<Rightarrow> 'q rx \<Rightarrow> pkt list \<Rightarrow> nat \<Rightarrow> bool" where
  "rx_rel rel cap st xs n \<longleftrightarrow> ring_rel (rx_q st) xs \<and> holds_empty rel (rx_pool st) n \<and> n \<le> cap (po_inner (rx_pool st))"

text \<open>Packets \<open>ps\<close> have been offered to the queue: it kept what fitted, the rest is counted.\<close>

definition offered :: "('q \<Rightarrow> bytes list \<Rightarrow> bool) \<Rightarrow> ('q \<Rightarrow> nat) \<Rightarrow> 'q rx \<Rightarrow> pkt list \<Rightarrow> pkt list \<Rightarrow> 'q rx \<Rightarrow> bool" where
  "offered rel cap st xs ps st' \<longleftrightarrow>
     (\<exists>n. rx_rel rel cap st' (take (cap_of (rx_q st)) (xs @ ps)) n) \<and> cap_of (rx_q st') = cap_of (rx_q st) \<and>
     rx_dropped st' = rx_dropped st + word_of_nat (length xs + length ps - cap_of (rx_q st)) \<and>
     rx_idle_iters st' = rx_idle_iters st \<and> rx_iter st' = rx_iter st"

lemma take_take_append: "take c (take c xs @ ys) = take c (xs @ ys)"
  by (cases "length xs \<le> c") simp_all

lemma rx_rel_len: "rx_rel rel cap st xs n \<Longrightarrow> length xs \<le> cap_of (rx_q st)"
  by (simp add: rx_rel_def ring_rel_def)

lemma offered_trans:
  assumes "length xs \<le> cap_of (rx_q st)" "offered rel cap st xs ps st1"
    "offered rel cap st1 (take (cap_of (rx_q st)) (xs @ ps)) qs st2"
  shows "offered rel cap st xs (ps @ qs) st2"
proof -
  have "word_of_nat (length xs + length ps - cap_of (rx_q st)) +
      word_of_nat (length (take (cap_of (rx_q st)) (xs @ ps)) + length qs - cap_of (rx_q st)) =
      (word_of_nat (length xs + length (ps @ qs) - cap_of (rx_q st)) :: u64)"
    unfolding of_nat_add [symmetric] using assms(1) by (intro arg_cong [where f = word_of_nat]) auto
  then show ?thesis using assms(2,3) take_take_append [of "cap_of (rx_q st)" "xs @ ps" qs] by (auto simp: offered_def ac_simps)
qed

lemma deliver_law:
  assumes F: "bounded_fifo rel cap push pop" and R: "rx_rel rel cap st xs n"
  shows "\<exists>st'. deliver push sc chan data ts kind st = Some st' \<and> offered rel cap st xs (rx_pkt sc chan (data, ts, kind)) st'"
proof -
  have len: "length xs \<le> cap_of (rx_q st)" by (rule rx_rel_len [OF R])
  consider "extract_seq sc data = Some None" | sv where "extract_seq sc data = Some (Some sv)"
    using extract_seq_total [of sc data] by fastforce
  then show ?thesis
  proof cases
    case 1
    have H: "holds_empty rel (rx_pool st) n" "n \<le> cap (po_inner (rx_pool st))" using R by (simp_all add: rx_rel_def)
    have "rx_rel rel cap (st\<lparr>rx_pool := pool_put push (rx_pool st) data\<rparr>) xs (if n < cap (po_inner (rx_pool st)) then n + 1 else n)"
      using R pool_put_holds [OF F H(1), of data] by (simp add: rx_rel_def)
    then show ?thesis using 1 len by (auto simp: deliver_def rx_pkt_def offered_def)
  next
    case (2 sv)
    define p where "p = mk_pkt chan data sv ts kind"
    have q: "ring_rel (rx_q st) xs" using R by (simp add: rx_rel_def)
    show ?thesis
    proof (cases "length xs < cap_of (rx_q st)")
      case True
      obtain q' where "spsc_push (rx_q st) p = (q', Inr ())" "ring_rel q' (xs @ [p])" "cap_of q' = cap_of (rx_q st)"
        using spsc_fifo.push_room [OF q True] by blast
      moreover from this have "rx_rel rel cap (st\<lparr>rx_q := q'\<rparr>) (xs @ [p]) n" using R by (simp add: rx_rel_def)
      ultimately show ?thesis using 2 True by (auto simp: deliver_def rx_pkt_def offered_def p_def)
    next
      case False
      have "rx_rel rel cap (st\<lparr>rx_q := rx_q st, rx_dropped := rx_dropped st + 1\<rparr>) xs n" using R by (simp add: rx_rel_def)
      then show ?thesis using 2 False len spsc_fifo.push_full [OF q False, of p]
        by (auto simp: deliver_def rx_pkt_def offered_def p_def)
    qed
  qed
qed

lemma offered_rel: "offered rel cap st xs ps st' \<Longrightarrow> \<exists>n. rx_rel rel cap st' (take (cap_of (rx_q st)) (xs @ ps)) n"
  by (simp add: offered_def)

lemma offered_nil: "rx_rel rel cap st xs n \<Longrightarrow> offered rel cap st xs [] st"
  using rx_rel_len by (fastforce simp: offered_def)

lemma offered_pool:
  assumes "offered rel cap st xs ps st'" "holds_empty rel po m" "m \<le> cap (po_inner po)"
  shows "offered rel cap st xs ps (st'\<lparr>rx_pool := po\<rparr>)"
  using assms by (auto simp: offered_def rx_rel_def)

lemma deliver_all_law:
  assumes F: "bounded_fifo rel cap push pop"
  shows "rx_rel rel cap st xs n \<Longrightarrow> \<exists>st'. deliver_all push sc chan ts (map (Pair []) datas) st = Some st' \<and>
    offered rel cap st xs (rx_pkts sc chan (map (\<lambda>d. (d, ts, Ts_Sw)) datas)) st'"
proof (induction datas arbitrary: st xs n)
  case (Cons d datas)
  obtain st1 where 1: "deliver push sc chan d ts Ts_Sw st = Some st1" "offered rel cap st xs (rx_pkt sc chan (d, ts, Ts_Sw)) st1"
    using deliver_law [OF F Cons.prems] by blast
  obtain m where m: "rx_rel rel cap st1 (take (cap_of (rx_q st)) (xs @ rx_pkt sc chan (d, ts, Ts_Sw))) m"
    using offered_rel [OF 1(2)] by blast
  show ?case using Cons.IH [OF m] 1 offered_trans [OF rx_rel_len [OF Cons.prems] 1(2)] by auto
qed (simp add: offered_nil)

lemma rx_rel_get:
  assumes F: "bounded_fifo rel cap push pop" and R: "rx_rel rel cap st xs n"
  shows "\<exists>po. pool_get pop (rx_pool st) = Some (po, []) \<and> rx_rel rel cap (st\<lparr>rx_pool := po\<rparr>) xs (n - 1)"
  using pool_get_holds [OF F, of "rx_pool st" n] R by (fastforce simp: rx_rel_def)

lemma singles_law:
  assumes F: "bounded_fifo rel cap push pop"
  shows "rx_rel rel cap st xs m \<Longrightarrow>
    (case singles_input mode now n answers of
       None \<Rightarrow> rx_singles push pop sc chan mode now n answers pr st = Some (Inl ())
     | Some ds \<Rightarrow> \<exists>st'. rx_singles push pop sc chan mode now n answers pr st = Some (Inr (st', pr \<or> ds \<noteq> [])) \<and>
         offered rel cap st xs (rx_pkts sc chan ds) st')"
proof (induction mode now n answers arbitrary: st xs m pr rule: singles_input.induct)
  case (5 mode now n data cmsgs answers)
  obtain po where po: "pool_get pop (rx_pool st) = Some (po, [])" "rx_rel rel cap (st\<lparr>rx_pool := po\<rparr>) xs (m - 1)"
    using rx_rel_get [OF F "5.prems"] by blast
  show ?case
  proof (cases "stamp mode now data cmsgs")
    case None
    then show ?thesis using po offered_nil [OF po(2)] by (simp add: offered_def)
  next
    case (Some t)
    obtain ts kind where t: "t = (ts, kind)" by (cases t)
    obtain st1 where 1: "deliver push sc chan data ts kind (st\<lparr>rx_pool := po\<rparr>) = Some st1"
        "offered rel cap (st\<lparr>rx_pool := po\<rparr>) xs (rx_pkt sc chan (data, ts, kind)) st1"
      using deliver_law [OF F po(2)] by blast
    have o1: "offered rel cap st xs (rx_pkt sc chan (data, ts, kind)) st1" using 1(2) by (simp add: offered_def)
    obtain k where k: "rx_rel rel cap st1 (take (cap_of (rx_q st)) (xs @ rx_pkt sc chan (data, ts, kind))) k"
      using offered_rel [OF o1] by blast
    show ?thesis
      using "5.IH" [OF Some t [symmetric] k, of True] po(1) 1(1) Some t offered_trans [OF rx_rel_len [OF "5.prems"] o1]
      by (auto split: option.splits)
  qed
next
  case (4 mode now n answers)
  obtain po where "pool_get pop (rx_pool st) = Some (po, [])" "rx_rel rel cap (st\<lparr>rx_pool := po\<rparr>) xs (m - 1)"
    using rx_rel_get [OF F "4.prems"] by blast
  then show ?case using offered_nil by (fastforce simp: offered_def)
next
  case (3 mode now n answers)
  then show ?case using rx_rel_get [OF F "3.prems"] by auto
qed (auto simp: offered_nil)


lemma get_bufs_law:
  assumes F: "bounded_fifo rel cap push pop"
  shows "holds_empty rel po n \<Longrightarrow> n \<le> cap (po_inner po) \<Longrightarrow> \<exists>po'. get_bufs pop k po = Some (po', replicate k []) \<and>
    holds_empty rel po' (n - k) \<and> cap (po_inner po') = cap (po_inner po)"
proof (induction k arbitrary: po n)
  case (Suc k)
  obtain po' where "pool_get pop po = Some (po', [])" "holds_empty rel po' (n - 1)" "cap (po_inner po') = cap (po_inner po)"
    using pool_get_holds [OF F Suc.prems(1)] by blast
  then show ?case using Suc.IH [of po' "n - 1"] Suc.prems(2) by auto
qed auto

lemma put_bufs_law:
  assumes F: "bounded_fifo rel cap push pop"
  shows "holds_empty rel po n \<Longrightarrow> n \<le> cap (po_inner po) \<Longrightarrow>
    \<exists>m. holds_empty rel (fold (\<lambda>b po. pool_put push po b) bs po) m \<and>
      m \<le> cap (po_inner (fold (\<lambda>b po. pool_put push po b) bs po))"
proof (induction bs arbitrary: po n)
  case (Cons b bs)
  show ?case
    using Cons.IH [OF pool_put_holds(1) [OF F Cons.prems(1), of b]] Cons.prems(2)
    by (simp add: pool_put_holds(2) [OF F Cons.prems(1)] split: if_splits)
qed auto

lemma mmsg_law:
  assumes F: "bounded_fifo rel cap push pop" and R: "rx_rel rel cap st xs n"
  shows "rx_mmsg push pop sc chan now batch None st = Some (Inl ())"
    "\<exists>st'. rx_mmsg push pop sc chan now batch (Some None) st = Some (Inr (st', False)) \<and> offered rel cap st xs [] st' \<and>
       rx_rel rel cap st' xs (n - batch)"
    "length datas \<le> batch \<Longrightarrow> \<exists>st'. rx_mmsg push pop sc chan now batch (Some (Some datas)) st = Some (Inr (st', datas \<noteq> [])) \<and>
       offered rel cap st xs (rx_pkts sc chan (map (\<lambda>d. (d, now, Ts_Sw)) datas)) st'"
proof -
  obtain po where po: "get_bufs pop batch (rx_pool st) = Some (po, replicate batch [])" "holds_empty rel po (n - batch)"
      "cap (po_inner po) = cap (po_inner (rx_pool st))"
    using get_bufs_law [OF F, of "rx_pool st" n batch] R by (auto simp: rx_rel_def)
  let ?st = "st\<lparr>rx_pool := po\<rparr>"
  have R1: "rx_rel rel cap ?st xs (n - batch)" using R po by (auto simp: rx_rel_def)
  have o: "offered rel cap st xs ps st'" if "offered rel cap ?st xs ps st'" for ps st' using that by (simp add: offered_def)
  show "rx_mmsg push pop sc chan now batch None st = Some (Inl ())" using po(1) by (simp add: rx_mmsg_def)
  show "\<exists>st'. rx_mmsg push pop sc chan now batch (Some None) st = Some (Inr (st', False)) \<and> offered rel cap st xs [] st' \<and>
      rx_rel rel cap st' xs (n - batch)"
    using po(1) R1 o [OF offered_nil [OF R1]] by (simp add: rx_mmsg_def)
  assume len: "length datas \<le> batch"
  have z: "zip (replicate batch ([] :: bytes)) datas = map (Pair []) datas" using len
    by (simp add: list_eq_iff_nth_eq)
  obtain st' where st': "deliver_all push sc chan now (map (Pair []) datas) ?st = Some st'"
      "offered rel cap ?st xs (rx_pkts sc chan (map (\<lambda>d. (d, now, Ts_Sw)) datas)) st'"
    using deliver_all_law [OF F R1] by blast
  obtain m where "holds_empty rel (rx_pool st') m" "m \<le> cap (po_inner (rx_pool st'))"
    using offered_rel [OF st'(2)] by (auto simp: rx_rel_def)
  then obtain k where k: "holds_empty rel (fold (\<lambda>b po. pool_put push po b) (replicate (batch - length datas) []) (rx_pool st')) k"
      "k \<le> cap (po_inner (fold (\<lambda>b po. pool_put push po b) (replicate (batch - length datas) []) (rx_pool st')))"
    using put_bufs_law [OF F] by blast
  show "\<exists>st'. rx_mmsg push pop sc chan now batch (Some (Some datas)) st = Some (Inr (st', datas \<noteq> [])) \<and>
       offered rel cap st xs (rx_pkts sc chan (map (\<lambda>d. (d, now, Ts_Sw)) datas)) st'"
  proof (cases datas)
    case Nil
    then show ?thesis using po(1) o [OF offered_nil [OF R1]] by (simp add: rx_mmsg_def)
  next
    case (Cons d ds)
    have "rx_mmsg push pop sc chan now batch (Some (Some datas)) st =
        Some (Inr (st'\<lparr>rx_pool := fold (\<lambda>b po. pool_put push po b) (replicate (batch - length datas) []) (rx_pool st')\<rparr>, datas \<noteq> []))"
      using z st'(1) unfolding rx_mmsg_def Cons by (simp add: po(1) del: deliver_all.simps)
    then show ?thesis using o [OF offered_pool [OF st'(2) k]] by blast
  qed
qed

section \<open>Rounds\<close>

definition round_law ::
  "('q \<Rightarrow> bytes list \<Rightarrow> bool) \<Rightarrow> ('q \<Rightarrow> nat) \<Rightarrow> ('q \<Rightarrow> bytes \<Rightarrow> 'q \<times> (bytes + unit)) \<Rightarrow> ('q \<Rightarrow> ('q \<times> bytes option) option) \<Rightarrow>
   seq_cfg \<Rightarrow> string \<Rightarrow> rx_config \<Rightarrow> u64 \<Rightarrow> (bytes list) option option \<Rightarrow> answer list \<Rightarrow> 'q rx \<Rightarrow> pkt list \<Rightarrow> bool" where
  "round_law rel cap push pop sc chan_name cfg now mret answers st xs \<longleftrightarrow>
     (case rx_input cfg now mret answers of
        None \<Rightarrow> rx_iteration push pop sc chan_name cfg now mret answers st = Some (Inl ())
      | Some ds \<Rightarrow> \<exists>st'. rx_iteration push pop sc chan_name cfg now mret answers st = Some (Inr (rx_end (ds \<noteq> []) st')) \<and>
          offered rel cap st xs (rx_pkts sc (chan_id chan_name) ds) st')"

lemma batched_round:
  assumes "bounded_fifo rel cap push pop" "rx_rel rel cap st xs n"
    and "\<forall>datas. mret = Some (Some datas) \<longrightarrow> length datas \<le> max (rc_rx_batch cfg) 1" "batched cfg"
  shows "round_law rel cap push pop sc chan_name cfg now mret answers st xs"
proof -
  let ?b = "max (rc_rx_batch cfg) 1" and ?c = "chan_id chan_name"
  have it: "rx_iteration push pop sc chan_name cfg now mret answers st =
      map_option (map_sum id (\<lambda>(st, progressed). rx_end progressed st)) (rx_mmsg push pop sc ?c now ?b mret st)"
    using assms(4) by (simp add: rx_iteration_def batched_def)
  note M = mmsg_law [OF assms(1,2), where sc = sc and chan = ?c and now = now and batch = ?b]
  consider "mret = None" | "mret = Some None" | datas where "mret = Some (Some datas)" by (metis not_Some_eq)
  then show ?thesis
  proof cases
    case 1
    then show ?thesis using assms(4) it M(1) by (simp add: round_law_def rx_input_def)
  next
    case 2
    then show ?thesis using M(2) assms(4) it by (auto simp: round_law_def rx_input_def)
  next
    case (3 datas)
    then show ?thesis using M(3) [of datas] assms(3,4) it by (auto simp: round_law_def rx_input_def)
  qed
qed

lemma singles_round:
  assumes "bounded_fifo rel cap push pop" "rx_rel rel cap st xs n" "\<not> batched cfg"
  shows "round_law rel cap push pop sc chan_name cfg now mret answers st xs"
proof -
  let ?b = "max (rc_rx_batch cfg) 1" and ?c = "chan_id chan_name"
  have it: "rx_iteration push pop sc chan_name cfg now mret answers st =
      map_option (map_sum id (\<lambda>(st, progressed). rx_end progressed st))
        (rx_singles push pop sc ?c (rc_ts_mode cfg) now ?b answers False st)"
    and inp: "rx_input cfg now mret answers = singles_input (rc_ts_mode cfg) now ?b answers"
    using assms(3) by (auto simp: rx_iteration_def batched_def rx_input_def)
  show ?thesis
    using singles_law [OF assms(1,2), where mode = "rc_ts_mode cfg" and now = now and n = ?b and answers = answers
        and sc = sc and chan = ?c and pr = False] it
    by (auto simp: round_law_def inp split: option.splits)
qed

section \<open>Properties\<close>

text \<open>
  C17: A round of the receive loop conserves packets. The datagrams it accepts that carry a sequence number become packets with
  exactly their bytes, sequence number, channel and time stamp; they are queued in order while the queue has room, every
  other one is counted as dropped, and no accepted datagram panics the loop. An error of the socket is returned.
\<close>

theorem rx_round_conserves:
  assumes "bounded_fifo rel cap push pop" "rx_rel rel cap st xs n"
    and "\<forall>datas. mret = Some (Some datas) \<longrightarrow> length datas \<le> max (rc_rx_batch cfg) 1"
  shows "case rx_input cfg now mret answers of
      None \<Rightarrow> rx_iteration push pop sc chan_name cfg now mret answers st = Some (Inl ())
    | Some ds \<Rightarrow> \<exists>st' m. rx_iteration push pop sc chan_name cfg now mret answers st = Some (Inr st') \<and>
        rx_rel rel cap st' (take (cap_of (rx_q st)) (xs @ rx_pkts sc (chan_id chan_name) ds)) m \<and>
        rx_dropped st' = rx_dropped st + word_of_nat (length xs + length (rx_pkts sc (chan_id chan_name) ds) - cap_of (rx_q st)) \<and>
        (ds \<noteq> [] \<longrightarrow> rx_idle_iters st' = 0)"
proof -
  have fin: ?thesis if "round_law rel cap push pop sc chan_name cfg now mret answers st xs"
    using that by (auto simp: round_law_def offered_def rx_end_def rx_rel_def split: option.splits)
  show ?thesis
    using fin batched_round [OF assms] singles_round [OF assms(1,2)] by blast
qed

definition demo_rx :: "bytes spsc rx" where
  "demo_rx = \<lparr>rx_q = spsc_new 2, rx_pool = pool_new spsc_new spsc_push 4 64, rx_dropped = 0, rx_idle_iters = 0, rx_iter = 0\<rparr>"

lemma demo_rx_rel: "rx_rel ring_rel cap_of demo_rx [] 4" "cap_of (rx_q demo_rx) = 2"
proof -
  have c: "cap_of (spsc_new 4 :: bytes spsc) = 4" "cap_of (spsc_new 2 :: pkt spsc) = 2"
    by (simp_all add: cap_of_new next_power_of_two_def pow2_from.simps)
  note pool_new_holds [where new = spsc_new and n = 4 and sz = 64, OF spsc_fifo.bounded_fifo_axioms spsc_new_rel c(1)]
  then show "rx_rel ring_rel cap_of demo_rx [] 4" "cap_of (rx_q demo_rx) = 2"
    using c spsc_new_rel by (auto simp: rx_rel_def demo_rx_def)
qed

theorem rx_round_conserves_witness:
  "\<exists>st' m. rx_iteration spsc_push spsc_pop \<lparr>sc_offset = 0, sc_length = 4, sc_endian = Be\<rparr> ''A''
      \<lparr>rc_spin_loops_per_yield = 64, rc_rx_batch = 8, rc_ts_mode = None\<rparr> 77
      (Some (Some [[0, 0, 0, 1], [5], [0, 0, 0, 2], [0, 0, 0, 3]])) [] demo_rx = Some (Inr st') \<and>
    rx_rel ring_rel cap_of st' [mk_pkt 65 [0, 0, 0, 1] 1 77 Ts_Sw, mk_pkt 65 [0, 0, 0, 2] 2 77 Ts_Sw] m \<and> rx_dropped st' = 1"
proof -
  let ?sc = "\<lparr>sc_offset = 0, sc_length = 4, sc_endian = Be\<rparr>"
    and ?cfg = "\<lparr>rc_spin_loops_per_yield = 64, rc_rx_batch = 8, rc_ts_mode = None\<rparr>"
    and ?in = "Some (Some [[0, 0, 0, 1], [5], [0, 0, 0, 2], [0, 0, 0, 3]])"
  have i: "rx_input ?cfg 77 ?in [] = Some (map (\<lambda>d. (d, 77, Ts_Sw)) [[0, 0, 0, 1], [5], [0, 0, 0, 2], [0, 0, 0, 3]])"
    by (simp add: rx_input_def batched_def ts_off_def)
  have p: "rx_pkts ?sc (chan_id ''A'') (map (\<lambda>d. (d, 77, Ts_Sw)) [[0, 0, 0, 1], [5], [0, 0, 0, 2], [0, 0, 0, 3]]) =
      [mk_pkt 65 [0, 0, 0, 1] 1 77 Ts_Sw, mk_pkt 65 [0, 0, 0, 2] 2 77 Ts_Sw, mk_pkt 65 [0, 0, 0, 3] 3 77 Ts_Sw]" by code_simp
  have d: "rx_dropped demo_rx = 0" by (simp add: demo_rx_def)
  show ?thesis
    using rx_round_conserves [OF spsc_fifo.bounded_fifo_axioms demo_rx_rel(1), where mret = ?in and cfg = ?cfg and now = 77
        and answers = "[]" and sc = ?sc and chan_name = "''A''"]
    unfolding i p demo_rx_rel(2) d option.case by auto
qed

text \<open>
  C36: Idle polling drains the buffer pool: every round without traffic takes its buffers from the pool (one, or a whole batch
  on the batched path) and drops them, so after \<open>k\<close> idle rounds a pool of \<open>n\<close> buffers holds \<open>n - k * batch\<close>
  and, in the end, none.
\<close>

theorem idle_rounds_drain_pool:
  assumes "bounded_fifo rel cap push pop" "rx_rel rel cap st xs n" "list_all (\<lambda>(now, mret, answers). mret = Some None \<and> answers = [Again]) rs"
  shows "\<exists>st'. rx_run push pop sc chan_name cfg rs st = Some (Inr st') \<and>
    rx_rel rel cap st' xs (n - length rs * (if batched cfg then max (rc_rx_batch cfg) 1 else 1))"
  using assms(2,3)
proof (induction rs arbitrary: st n)
  case (Cons r rs)
  let ?k = "if batched cfg then max (rc_rx_batch cfg) 1 else 1"
  obtain now where r: "r = (now, Some None, [Again])" using Cons.prems(2) by (cases r) auto
  obtain po where po: "pool_get pop (rx_pool st) = Some (po, [])" "rx_rel rel cap (st\<lparr>rx_pool := po\<rparr>) xs (n - 1)"
    using rx_rel_get [OF assms(1) Cons.prems(1)] by blast
  have end_rel: "rx_rel rel cap (rx_end b s) xs m" if "rx_rel rel cap s xs m" for b s m
    using that by (simp add: rx_rel_def rx_end_def)
  obtain st1 where "rx_iteration push pop sc chan_name cfg now (Some None) [Again] st = Some (Inr st1)"
      "rx_rel rel cap st1 xs (n - ?k)"
  proof (cases "batched cfg")
    case True
    then show ?thesis
      using mmsg_law(2) [OF assms(1) Cons.prems(1), of sc "chan_id chan_name" now "max (rc_rx_batch cfg) 1"] that end_rel
      by (fastforce simp: rx_iteration_def batched_def Let_def)
  next
    case False
    then obtain b where "max (rc_rx_batch cfg) 1 = Suc b" by (metis Suc_pred max.strict_coboundedI2 zero_less_one)
    then show ?thesis using False that end_rel [OF po(2)] po(1) by (auto simp: rx_iteration_def batched_def Let_def)
  qed
  then show ?case using Cons.IH [of st1 "n - ?k"] Cons.prems(2) r by (auto simp: diff_diff_left)
qed simp

theorem idle_rounds_drain_pool_witness:
  "\<exists>st'. rx_run spsc_push spsc_pop \<lparr>sc_offset = 0, sc_length = 4, sc_endian = Be\<rparr> ''A''
      \<lparr>rc_spin_loops_per_yield = 64, rc_rx_batch = 1, rc_ts_mode = None\<rparr> (replicate 4 (9, Some None, [Again])) demo_rx = Some (Inr st') \<and>
    rx_rel ring_rel cap_of st' [] 0"
  using idle_rounds_drain_pool [OF spsc_fifo.bounded_fifo_axioms demo_rx_rel(1), of "replicate 4 (9, Some None, [Again])"
      "\<lparr>sc_offset = 0, sc_length = 4, sc_endian = Be\<rparr>" "''A''" "\<lparr>rc_spin_loops_per_yield = 64, rc_rx_batch = 1, rc_ts_mode = None\<rparr>"]
  by (simp add: batched_def list_all_length del: rx_run.simps replicate.simps)

end
