(* ===== verification/Config.thy ===== *)
theory Config
  imports Merge_Order Rx Decode
begin

text \<open>
  The configuration, \<open>src/src/config.rs\<close>, and how \<open>src/src/main.rs\<close> derives the stages' parameters from it.

  Reading the file and parsing TOML are arguments of \<open>from_file\<close>; \<open>validate\<close> is translated check by check, with an error
  constructor per message. Logging, CPU pinning and memory locking options are carried but have no effect on the model.
\<close>

section \<open>Records\<close>

type_synonym ipv4 = "u8 \<times> u8 \<times> u8 \<times> u8"

record general_cfg =
  gc_max_packet_size :: u32
  gc_pool_size :: nat
  gc_rx_queue_capacity :: nat
  gc_merge_queue_capacity :: nat
  gc_spin_loops_per_yield :: u32
  gc_rx_recvmmsg_batch :: "nat option"
  gc_mlock_all :: bool
  gc_json_logs :: bool

record sequence_cfg =
  qc_offset :: u16
  qc_length :: u8
  qc_endian :: endian

record parser_cfg =
  pc_kind :: parser_kind
  pc_max_messages_per_packet :: nat

record channel_cfg =
  cc_group :: ipv4
  cc_port :: u16
  cc_iface_addr :: ipv4
  cc_reuse_port :: bool
  cc_recv_buffer_bytes :: u32
  cc_busy_poll_us :: "u32 option"
  cc_nonblocking :: bool
  cc_timestamping :: "timestamping_mode option"
  cc_workers :: "nat option"

record channels_cfg =
  ch_a :: channel_cfg
  ch_b :: channel_cfg

record merge_section =
  ms_initial_expected_seq :: u64
  ms_reorder_window :: u64
  ms_max_pending_packets :: nat
  ms_dwell_ns :: "u64 option"
  ms_adaptive :: bool
  ms_reorder_window_max :: "u64 option"

record book_cfg =
  bc_max_depth :: nat
  bc_snapshot_interval_ms :: nat
  bc_consume_trades :: bool

record recovery_cfg =
  ry_enable_injector :: bool
  ry_endpoint :: string
  ry_backlog_path :: "string option"

record cpu_cfg =
  cp_a_rx_core :: "nat option"
  cp_b_rx_core :: "nat option"
  cp_merge_core :: "nat option"
  cp_decode_core :: "nat option"
  cp_rt_priority :: "int option"

record metrics_cfg =
  mt_bind :: string

record snapshot_cfg =
  sn_path :: string
  sn_load_on_start :: bool
  sn_enable_writer :: bool

record afxdp_cfg =
  ac_enable :: bool
  ac_ifname :: string
  ac_queues :: "nat option"

record pop_cfg =
  pp_ws_endpoints :: "string list"
  pp_h3_endpoints :: "string list"

record tls_cfg =
  tl_cert_path :: string
  tl_key_path :: string

record buffers_cfg =
  bu_pub_queue :: nat

record obo_feed_cfg =
  of_enabled :: bool
  of_buffers :: "buffers_cfg option"

record feeds_cfg =
  fe_enabled :: bool
  fe_pops :: "pop_cfg list"
  fe_tls :: "tls_cfg option"
  fe_obo :: "obo_feed_cfg option"
  fe_auth_token :: "string option"

record app_config =
  ap_general :: general_cfg
  ap_sequence :: sequence_cfg
  ap_parser :: parser_cfg
  ap_channels :: channels_cfg
  ap_merge :: merge_section
  ap_book :: book_cfg
  ap_cpu :: cpu_cfg
  ap_metrics :: "metrics_cfg option"
  ap_snapshot :: "snapshot_cfg option"
  ap_recovery :: "recovery_cfg option"
  ap_afxdp :: "afxdp_cfg option"
  ap_feeds :: "feeds_cfg option"

section \<open>Validation\<close>

datatype config_error =
    Not_Multicast
  | Bad_Sequence_Length
  | Bad_Packet_Size
  | Zero_Reorder_Window
  | Workers_Need_Reuse_Port string
  | Zero_Depth
  | Zero_Snapshot_Interval
  | Ws_Endpoints
  | H3_Endpoints
  | No_Pops
  | Empty_Token
  | Empty_Tls_Path
  | Zero_Pub_Queue
  | Empty_Snapshot_Path
  | Bad_Endpoint
  | Empty_Ifname
  | File_Unreadable
  | Toml_Error

definition is_multicast :: "ipv4 \<Rightarrow> bool" where
  "is_multicast ip = (case ip of (a, _) \<Rightarrow> a AND 0xF0 = 0xE0)"

definition blank :: "string \<Rightarrow> bool" where
  "blank s = (trim s = [])"

fun validate_pops :: "pop_cfg list \<Rightarrow> config_error + unit" where
  "validate_pops [] = Inr ()"
| "validate_pops (p # ps) =
     (if length (pp_ws_endpoints p) \<noteq> 2 then Inl Ws_Endpoints
      else if length (pp_h3_endpoints p) \<noteq> 2 then Inl H3_Endpoints
      else validate_pops ps)"

definition validate_feeds :: "feeds_cfg \<Rightarrow> config_error + unit" where
  "validate_feeds f = (case validate_pops (fe_pops f) of
     Inl e \<Rightarrow> Inl e
   | Inr _ \<Rightarrow>
       if fe_enabled f \<and> fe_pops f = [] then Inl No_Pops
       else if (case fe_auth_token f of Some tok \<Rightarrow> blank tok | None \<Rightarrow> False) then Inl Empty_Token
       else if (case fe_tls f of Some t \<Rightarrow> blank (tl_cert_path t) \<or> blank (tl_key_path t) | None \<Rightarrow> False) then Inl Empty_Tls_Path
       else if (case fe_obo f of Some b \<Rightarrow> (case of_buffers b of Some u \<Rightarrow> bu_pub_queue u = 0 | None \<Rightarrow> False) | None \<Rightarrow> False)
         then Inl Zero_Pub_Queue
       else Inr ())"

definition workers_of :: "channel_cfg \<Rightarrow> nat" where
  "workers_of ch = (case cc_workers ch of Some n \<Rightarrow> n | None \<Rightarrow> 1)"

definition validate_rest :: "app_config \<Rightarrow> config_error + unit" where
  "validate_rest c =
     (if (case ap_snapshot c of Some s \<Rightarrow> blank (sn_path s) | None \<Rightarrow> False) then Inl Empty_Snapshot_Path
      else if (case ap_recovery c of
          Some r \<Rightarrow> ry_enable_injector r \<and> (blank (ry_endpoint r) \<or> CHR '':'' \<notin> set (ry_endpoint r))
        | None \<Rightarrow> False) then Inl Bad_Endpoint
      else if (case ap_afxdp c of Some a \<Rightarrow> blank (ac_ifname a) | None \<Rightarrow> False) then Inl Empty_Ifname
      else Inr ())"

definition validate :: "app_config \<Rightarrow> config_error + unit" where
  "validate c =
     (let a = ch_a (ap_channels c); b = ch_b (ap_channels c) in
      if \<not> is_multicast (cc_group a) \<or> \<not> is_multicast (cc_group b) then Inl Not_Multicast
      else if qc_length (ap_sequence c) \<noteq> 4 \<and> qc_length (ap_sequence c) \<noteq> 8 then Inl Bad_Sequence_Length
      else if gc_max_packet_size (ap_general c) < 512 \<or> gc_max_packet_size (ap_general c) > 65535 then Inl Bad_Packet_Size
      else if ms_reorder_window (ap_merge c) = 0 then Inl Zero_Reorder_Window
      else if workers_of a > 1 \<and> \<not> cc_reuse_port a then Inl (Workers_Need_Reuse_Port ''a'')
      else if workers_of b > 1 \<and> \<not> cc_reuse_port b then Inl (Workers_Need_Reuse_Port ''b'')
      else if bc_max_depth (ap_book c) = 0 then Inl Zero_Depth
      else if bc_snapshot_interval_ms (ap_book c) = 0 then Inl Zero_Snapshot_Interval
      else case (case ap_feeds c of Some f \<Rightarrow> validate_feeds f | None \<Rightarrow> Inr ()) of
        Inl e \<Rightarrow> Inl e
      | Inr _ \<Rightarrow> validate_rest c)"

definition from_file :: "('p \<Rightarrow> string option) \<Rightarrow> (string \<Rightarrow> app_config option) \<Rightarrow> 'p \<Rightarrow> config_error + app_config" where
  "from_file read_to_string from_str p = (case read_to_string p of
     None \<Rightarrow> Inl File_Unreadable
   | Some s \<Rightarrow> (case from_str s of
       None \<Rightarrow> Inl Toml_Error
     | Some cfg \<Rightarrow> (case validate cfg of Inl e \<Rightarrow> Inl e | Inr _ \<Rightarrow> Inr cfg)))"

section \<open>Parameters of the stages\<close>

definition worker_count :: "channel_cfg \<Rightarrow> nat" where
  "worker_count ch = max (workers_of ch) 1"

definition seq_cfg_of :: "app_config \<Rightarrow> seq_cfg" where
  "seq_cfg_of c = \<lparr>sc_offset = qc_offset (ap_sequence c), sc_length = qc_length (ap_sequence c), sc_endian = qc_endian (ap_sequence c)\<rparr>"

definition parser_of :: "app_config \<Rightarrow> parser" where
  "parser_of c = build_parser (pc_kind (ap_parser c)) (seq_cfg_of c) (pc_max_messages_per_packet (ap_parser c))"

definition rx_config_of :: "app_config \<Rightarrow> channel_cfg \<Rightarrow> rx_config" where
  "rx_config_of c ch = \<lparr>rc_spin_loops_per_yield = gc_spin_loops_per_yield (ap_general c),
     rc_rx_batch = (case gc_rx_recvmmsg_batch (ap_general c) of Some n \<Rightarrow> n | None \<Rightarrow> 0), rc_ts_mode = cc_timestamping ch\<rparr>"

definition merge_config_of :: "app_config \<Rightarrow> merge_config" where
  "merge_config_of c = (let m = ap_merge c in
     \<lparr>mc_next_seq = ms_initial_expected_seq m, mc_reorder_window = ms_reorder_window m, mc_max_pending = ms_max_pending_packets m,
      mc_dwell_ns = (case ms_dwell_ns m of Some d \<Rightarrow> d | None \<Rightarrow> 2000000), mc_adaptive = ms_adaptive m,
      mc_reorder_window_max = (case ms_reorder_window_max m of Some w \<Rightarrow> w
        | None \<Rightarrow> max (sat_mul (ms_reorder_window m) 8) (ms_reorder_window m + 1))\<rparr>)"

definition obo_enabled :: "app_config \<Rightarrow> bool" where
  "obo_enabled c = (case Option.bind (ap_feeds c) fe_obo of Some b \<Rightarrow> of_enabled b | None \<Rightarrow> False)"

definition pub_queue :: "app_config \<Rightarrow> nat" where
  "pub_queue c = (case Option.bind (Option.bind (ap_feeds c) fe_obo) of_buffers of Some u \<Rightarrow> bu_pub_queue u | None \<Rightarrow> 65536)"

definition decode_config_of :: "app_config \<Rightarrow> obook option \<Rightarrow> decode_config" where
  "decode_config_of c initial = \<lparr>dc_max_depth = bc_max_depth (ap_book c), dc_snapshot_interval_ms = bc_snapshot_interval_ms (ap_book c),
     dc_consume_trades = bc_consume_trades (ap_book c),
     dc_snapshot_tx = (case ap_snapshot c of Some s \<Rightarrow> sn_enable_writer s | None \<Rightarrow> False),
     dc_initial_book = initial, dc_snapshot_trigger = True, dc_publisher = obo_enabled c\<rparr>"

text \<open>The pairs of addresses to listen on.\<close>

definition ws_pairs :: "pop_cfg list \<Rightarrow> (string \<times> string) list" where
  "ws_pairs ps = map (\<lambda>p. (pp_ws_endpoints p ! 0, pp_ws_endpoints p ! 1)) (filter (\<lambda>p. length (pp_ws_endpoints p) \<ge> 2) ps)"

definition ws_listeners :: "app_config \<Rightarrow> (string \<times> string) list" where
  "ws_listeners c = (case ap_feeds c of
     Some f \<Rightarrow> if fe_enabled f \<and> obo_enabled c then ws_pairs (fe_pops f) else []
   | None \<Rightarrow> [])"

section \<open>What a validated configuration guarantees\<close>

lemma validated:
  assumes "validate c = Inr ()"
  shows "qc_length (ap_sequence c) = 4 \<or> qc_length (ap_sequence c) = 8" "ms_reorder_window (ap_merge c) \<noteq> 0"
    "512 \<le> gc_max_packet_size (ap_general c)" "gc_max_packet_size (ap_general c) \<le> 65535"
    "workers_of (ch_a (ap_channels c)) > 1 \<Longrightarrow> cc_reuse_port (ch_a (ap_channels c))"
    "workers_of (ch_b (ap_channels c)) > 1 \<Longrightarrow> cc_reuse_port (ch_b (ap_channels c))"
    "ap_feeds c = Some f \<Longrightarrow> validate_feeds f = Inr ()"
  using assms by (auto simp: validate_def Let_def not_less split: if_splits sum.splits option.splits)

lemma validated_pops: "validate_pops ps = Inr () \<Longrightarrow> list_all (\<lambda>p. length (pp_ws_endpoints p) = 2 \<and> length (pp_h3_endpoints p) = 2) ps"
  by (induction ps) (auto split: if_splits)

lemma validated_feeds:
  assumes "validate_feeds f = Inr ()"
  shows "validate_pops (fe_pops f) = Inr ()" "fe_enabled f \<Longrightarrow> fe_pops f \<noteq> []"
    "fe_obo f = Some b \<Longrightarrow> of_buffers b = Some u \<Longrightarrow> bu_pub_queue u > 0"
  using assms by (auto simp: validate_feeds_def split: sum.splits if_splits option.splits)

lemma validated_pub_queue: "validate c = Inr () \<Longrightarrow> 0 < pub_queue c"
  using validated(7) validated_feeds(3)
  by (fastforce simp: pub_queue_def bind_eq_None_conv bind_Some_iff split: option.splits)

lemma ws_pairs_all:
  "list_all (\<lambda>p. length (pp_ws_endpoints p) = 2 \<and> length (pp_h3_endpoints p) = 2) ps \<Longrightarrow>
     map (\<lambda>(a, b). [a, b]) (ws_pairs ps) = map pp_ws_endpoints ps"
proof (induction ps)
  case (Cons p ps)
  obtain x y where "pp_ws_endpoints p = [x, y]" using Cons.prems by (auto simp: numeral_2_eq_2 length_Suc_conv)
  then show ?case using Cons by (simp add: ws_pairs_def)
qed (simp add: ws_pairs_def)

lemma validated_listeners:
  assumes "validate c = Inr ()" "ap_feeds c = Some f" "fe_enabled f" "obo_enabled c"
  shows "map (\<lambda>(a, b). [a, b]) (ws_listeners c) = map pp_ws_endpoints (fe_pops f)"
  using assms ws_pairs_all [OF validated_pops [OF validated_feeds(1) [OF validated(7) [OF assms(1,2)]]]]
  by (simp add: ws_listeners_def)

lemma extract_seq_reads:
  assumes "sc_length sc = 4 \<or> sc_length sc = 8" "unat (sc_offset sc) + unat (sc_length sc) \<le> length b"
  shows "\<exists>v. extract_seq sc b = Some (Some v)"
  using assms by (auto simp: extract_seq_def slice_def Let_def)

section \<open>Properties\<close>



definition demo_channel :: channel_cfg where
  "demo_channel = \<lparr>cc_group = (239, 10, 10, 1), cc_port = 5001, cc_iface_addr = (10, 0, 0, 1), cc_reuse_port = True,
     cc_recv_buffer_bytes = 0, cc_busy_poll_us = None, cc_nonblocking = True, cc_timestamping = None, cc_workers = Some 2\<rparr>"

definition demo_config :: app_config where
  "demo_config = \<lparr>
     ap_general = \<lparr>gc_max_packet_size = 2048, gc_pool_size = 16, gc_rx_queue_capacity = 16, gc_merge_queue_capacity = 16,
       gc_spin_loops_per_yield = 64, gc_rx_recvmmsg_batch = None, gc_mlock_all = False, gc_json_logs = False\<rparr>,
     ap_sequence = \<lparr>qc_offset = 0, qc_length = 8, qc_endian = Be\<rparr>,
     ap_parser = \<lparr>pc_kind = FixedBinary, pc_max_messages_per_packet = 8\<rparr>,
     ap_channels = \<lparr>ch_a = demo_channel, ch_b = demo_channel\<rparr>,
     ap_merge = \<lparr>ms_initial_expected_seq = 1, ms_reorder_window = 8, ms_max_pending_packets = 64, ms_dwell_ns = None,
       ms_adaptive = True, ms_reorder_window_max = None\<rparr>,
     ap_book = \<lparr>bc_max_depth = 10, bc_snapshot_interval_ms = 1000, bc_consume_trades = False\<rparr>,
     ap_cpu = \<lparr>cp_a_rx_core = None, cp_b_rx_core = None, cp_merge_core = None, cp_decode_core = None, cp_rt_priority = None\<rparr>,
     ap_metrics = None, ap_snapshot = None, ap_recovery = None, ap_afxdp = None,
     ap_feeds = Some \<lparr>fe_enabled = True, fe_pops = [\<lparr>pp_ws_endpoints = [''h:1'', ''h:2''], pp_h3_endpoints = [''h:3'', ''h:4'']\<rparr>],
       fe_tls = None, fe_obo = Some \<lparr>of_enabled = True, of_buffers = None\<rparr>, fe_auth_token = None\<rparr>\<rparr>"

lemma demo_config_valid: "validate demo_config = Inr ()"
  by code_simp


text \<open>
  C33: With the adaptive window on and no explicit maximum, \<open>main\<close>'s default lets the window outgrow the arbiter's ring:
  the configuration is valid, yet at the first check after a gap the window exceeds the one the ring was
  allocated for, from where in-window packets can share a slot.
\<close>

theorem default_window_outgrows_ring:
  assumes "validate c = Inr ()" "ms_adaptive (ap_merge c)" "ms_reorder_window_max (ap_merge c) = None"
    and "ms_reorder_window (ap_merge c) < 2 ^ 60"
    and "mg_window m = mc_reorder_window (merge_config_of c)" "mg_fwd_since_check m \<ge> 4096" "mg_recent_gaps m > 0"
  shows "\<not> fits (merge_config_of c) \<and> mc_reorder_window (merge_config_of c) < mg_window (adapt (merge_config_of c) m)"
proof -
  define w where "w = ms_reorder_window (ap_merge c)"
  have w: "0 < unat w" "unat w < 2 ^ 60"
    using validated(2) [OF assms(1)] assms(4) by (auto simp: w_def unat_gt_0 word_less_nat_alt)
  have cfg: "mc_adaptive (merge_config_of c)" "mc_reorder_window (merge_config_of c) = w"
      "mc_reorder_window_max (merge_config_of c) = max (sat_mul w 8) (w + 1)"
    using assms(2,3) by (simp_all add: merge_config_of_def w_def Let_def)
  have w1: "w < w + 1" using w by (auto simp: word_less_nat_alt unat_word_ariths)
  have mx: "w < max (sat_mul w 8) (w + 1)" using w1 by (simp add: less_max_iff_disj)
  have "unat (max (w div 4) 1) \<le> unat w" "0 < unat (max (w div 4) 1)"
    using w by (auto simp: max_def unat_div word_le_nat_alt)
  then have inc: "w < w + max (w div 4) 1" using w by (auto simp: word_less_nat_alt unat_word_ariths)
  have "mg_window (adapt (merge_config_of c) m) = min (w + max (w div 4) 1) (max (sat_mul w 8) (w + 1))"
    using assms(5-7) cfg mx by (auto simp: adapt_def Let_def)
  moreover have "\<not> fits (merge_config_of c)" unfolding fits_def cfg using mx cfg(1) by (metis not_le)
  ultimately show ?thesis unfolding cfg(2) using mx inc by (simp only: min_less_iff_conj not_False_eq_True simp_thms)
qed

theorem default_window_outgrows_ring_witness:
  "\<not> fits (merge_config_of demo_config) \<and>
   8 < mg_window (adapt (merge_config_of demo_config)
     ((merge_init (merge_config_of demo_config) (\<lambda>_. 0) [[]] [[]] None)\<lparr>mg_fwd_since_check := 4096, mg_recent_gaps := 1\<rparr>))"
  using default_window_outgrows_ring [OF demo_config_valid, of
      "(merge_init (merge_config_of demo_config) (\<lambda>_. 0) [[]] [[]] None)\<lparr>mg_fwd_since_check := 4096, mg_recent_gaps := 1\<rparr>"]
  by (simp add: demo_config_def merge_config_of_def merge_init_def Let_def)

end
