(* ===== verification/Rx_Afxdp.thy ===== *)
theory Rx_Afxdp
  imports Rx
begin

text \<open>
  The packet-ring receiver of \<open>src/src/rx_afxdp.rs\<close>: a ring of frames shared with the kernel, and the extraction of the
  UDP payload from an Ethernet frame.

  A slot holds its status word, the kernel's time stamp and the captured bytes (\<open>tp_snaplen\<close> bytes from \<open>tp_mac\<close>).
  \<open>afxdp_step\<close> is one pass of the loop; \<open>room\<close> is the capacity of the buffers the pool hands out. Setting up the socket and the
  mapping are system calls and not modelled.
\<close>

section \<open>Extraction of the payload\<close>

text \<open>The outer option is a panic, the inner one the result; \<open>off\<close> is where the IPv4 header starts.\<close>

definition ip_payload :: "bytes \<Rightarrow> u16 \<Rightarrow> nat \<Rightarrow> bytes option option" where
  "ip_payload frame et off =
     (if et \<noteq> 0x0800 then Some None
      else if length frame < off + 20 then Some None
      else do {
        b \<leftarrow> byte_at frame off;
        let ihl = unat (b AND 0x0F) * 4;
        if length frame < off + ihl + 8 then Some None
        else do {
          proto \<leftarrow> byte_at frame (off + 9);
          if proto \<noteq> 17 then Some None
          else if length frame < off + ihl + 8 then Some None
          else map_option Some (slice frame (off + ihl + 8) (length frame))
        }
      })"

definition parse_udp_payload :: "bytes \<Rightarrow> bytes option option" where
  "parse_udp_payload frame =
     (if length frame < 14 then Some None
      else do {
        a \<leftarrow> byte_at frame 12;
        b \<leftarrow> byte_at frame 13;
        let et = (from_be [a, b] :: u16);
        if et = 0x8100 \<or> et = 0x88A8 then
          if length frame < 18 then Some None
          else do {
            c \<leftarrow> byte_at frame 16;
            d \<leftarrow> byte_at frame 17;
            ip_payload frame (from_be [c, d]) 18
          }
        else ip_payload frame et 14
      })"

section \<open>The loop\<close>

record tp_slot =
  tp_status :: u32
  tp_sec :: u32
  tp_nsec :: u32
  tp_frame :: bytes

record 'q afxdp =
  ax_ring :: "tp_slot list"
  ax_idx :: nat
  ax_rx :: "'q rx"

definition frame_nr :: nat where
  "frame_nr = 2048 * 1024 div 2048 * 4"

definition slot_ts :: "tp_slot \<Rightarrow> u64" where
  "slot_ts s = ucast (tp_sec s) * 1000000000 + ucast (tp_nsec s)"

definition afxdp_frame ::
  "('q \<Rightarrow> bytes \<Rightarrow> 'q \<times> (bytes + unit)) \<Rightarrow> ('q \<Rightarrow> ('q \<times> bytes option) option) \<Rightarrow> seq_cfg \<Rightarrow> u8 \<Rightarrow> nat \<Rightarrow> tp_slot \<Rightarrow>
   'q rx \<Rightarrow> 'q rx option" where
  "afxdp_frame push pop sc chan room s st = do {
     r \<leftarrow> parse_udp_payload (tp_frame s);
     (case r of
        None \<Rightarrow> Some st
      | Some udp_payload \<Rightarrow> do {
          (po, buf) \<leftarrow> pool_get pop (rx_pool st);
          let st = st\<lparr>rx_pool := po\<rparr>;
          if length udp_payload \<le> room then deliver push sc chan (buf @ udp_payload) (slot_ts s) Ts_Sw st
          else Some (st\<lparr>rx_pool := pool_put push (rx_pool st) buf\<rparr>)
        })
   }"

definition afxdp_step ::
  "('q \<Rightarrow> bytes \<Rightarrow> 'q \<times> (bytes + unit)) \<Rightarrow> ('q \<Rightarrow> ('q \<times> bytes option) option) \<Rightarrow> seq_cfg \<Rightarrow> string \<Rightarrow> nat \<Rightarrow>
   'q afxdp \<Rightarrow> 'q afxdp option" where
  "afxdp_step push pop sc chan_name room ax =
     (let s = ax_ring ax ! ax_idx ax in
      if tp_status s AND 1 = 0 then Some ax
      else do {
        st \<leftarrow> afxdp_frame push pop sc (chan_id chan_name) room s (ax_rx ax);
        Some \<lparr>ax_ring = (ax_ring ax)[ax_idx ax := s\<lparr>tp_status := 0\<rparr>],
              ax_idx = (ax_idx ax + 1) mod frame_nr, ax_rx = st\<rparr>
      })"

fun afxdp_run ::
  "('q \<Rightarrow> bytes \<Rightarrow> 'q \<times> (bytes + unit)) \<Rightarrow> ('q \<Rightarrow> ('q \<times> bytes option) option) \<Rightarrow> seq_cfg \<Rightarrow> string \<Rightarrow> nat \<Rightarrow> nat \<Rightarrow>
   'q afxdp \<Rightarrow> 'q afxdp option" where
  "afxdp_run push pop sc chan_name room 0 ax = Some ax"
| "afxdp_run push pop sc chan_name room (Suc n) ax =
     Option.bind (afxdp_step push pop sc chan_name room ax) (afxdp_run push pop sc chan_name room n)"

section \<open>Frames\<close>

text \<open>An Ethernet frame with an optional VLAN tag, an IPv4 header of any length and a UDP header.\<close>

definition encap :: "bytes \<Rightarrow> bytes \<Rightarrow> bytes \<Rightarrow> bytes \<Rightarrow> bytes \<Rightarrow> bytes" where
  "encap macs tag ip udp data = macs @ tag @ [8, 0] @ ip @ udp @ data"

definition headers_ok :: "bytes \<Rightarrow> bytes \<Rightarrow> bytes \<Rightarrow> bytes \<Rightarrow> bool" where
  "headers_ok macs tag ip udp \<longleftrightarrow>
     length macs = 12 \<and> (tag = [] \<or> (length tag = 4 \<and> (take 2 tag = [0x81, 0] \<or> take 2 tag = [0x88, 0xA8]))) \<and>
     20 \<le> length ip \<and> length ip = unat (ip ! 0 AND 0x0F) * 4 \<and> ip ! 9 = 17 \<and> length udp = 8"

lemma ip_payload_ok:
  assumes "length pre = off" "20 \<le> length ip" "length ip = unat (ip ! 0 AND 0x0F) * 4" "ip ! 9 = 17" "length udp = 8"
  shows "ip_payload (pre @ ip @ udp @ data) 0x0800 off = Some (Some data)"
proof -
  have "byte_at (pre @ ip @ udp @ data) off = Some (ip ! 0)" "byte_at (pre @ ip @ udp @ data) (off + 9) = Some 17"
    using assms by (auto simp: byte_at_def nth_append)
  then show ?thesis using assms by (simp add: ip_payload_def slice_def)
qed

lemma ethertype: "(from_be [8, 0] :: u16) = 0x0800" "(from_be [0x81, 0] :: u16) = 0x8100" "(from_be [0x88, 0xA8] :: u16) = 0x88A8"
  by (simp_all add: from_be_def be_val_def)

lemma tag_cases:
  assumes "length t = 4" "take 2 t = [a, b]"
  obtains c d where "t = [a, b, c, d]"
proof -
  obtain w x c d where "t = [w, x, c, d]" using assms(1) by (auto simp: numeral_eq_Suc length_Suc_conv)
  then show ?thesis using assms(2) that by (simp add: numeral_2_eq_2)
qed

lemma parse_udp_tagged:
  assumes "length macs = 12" "(from_be [a, b] :: u16) = 0x8100 \<or> (from_be [a, b] :: u16) = 0x88A8" "2 \<le> length rest"
  shows "parse_udp_payload (macs @ [a, b, c, d] @ rest) =
    ip_payload (macs @ [a, b, c, d] @ rest) (from_be [rest ! 0, rest ! 1]) 18"
  using assms by (auto simp: parse_udp_payload_def byte_at_def nth_append)

lemma parse_udp_encap:
  assumes "headers_ok macs tag ip udp"
  shows "parse_udp_payload (encap macs tag ip udp data) = Some (Some data)"
proof -
  note h = assms [unfolded headers_ok_def]
  show ?thesis
  proof (cases "tag = []")
    case True
    have "ip_payload ((macs @ [8, 0]) @ ip @ udp @ data) 0x0800 14 = Some (Some data)"
      using h by (intro ip_payload_ok) auto
    then show ?thesis using h True ethertype(1)
      by (simp add: encap_def parse_udp_payload_def byte_at_def nth_append)
  next
    case False
    then obtain a b where ab: "take 2 tag = [a, b]" "(from_be [a, b] :: u16) = 0x8100 \<or> (from_be [a, b] :: u16) = 0x88A8"
      using h ethertype by auto
    obtain c d where t: "tag = [a, b, c, d]" using tag_cases [OF _ ab(1)] h False by blast
    have "ip_payload ((macs @ [a, b, c, d] @ [8, 0]) @ ip @ udp @ data) 0x0800 18 = Some (Some data)"
      using h by (intro ip_payload_ok) auto
    then show ?thesis
      using parse_udp_tagged [of macs a b "[8, 0] @ ip @ udp @ data" c d] h ab(2) t ethertype(1)
      by (simp add: encap_def)
  qed
qed

lemma ip_payload_total: "\<exists>r. ip_payload frame et off = Some r"
  by (auto simp: ip_payload_def byte_at_def slice_def Let_def)

lemma parse_udp_total: "\<exists>r. parse_udp_payload frame = Some r"
  by (auto simp: parse_udp_payload_def byte_at_def Let_def ip_payload_total)

section \<open>Along the ring\<close>

text \<open>What a slot contributes: the packet of its payload, if it has one that fits a buffer.\<close>

definition slot_pkts :: "seq_cfg \<Rightarrow> u8 \<Rightarrow> nat \<Rightarrow> tp_slot \<Rightarrow> pkt list" where
  "slot_pkts sc chan room s = (case parse_udp_payload (tp_frame s) of
     Some (Some p) \<Rightarrow> if length p \<le> room then rx_pkt sc chan (p, slot_ts s, Ts_Sw) else []
   | _ \<Rightarrow> [])"

lemma afxdp_frame_law:
  assumes F: "bounded_fifo rel cap push pop" and R: "rx_rel rel cap st xs n"
  shows "\<exists>st'. afxdp_frame push pop sc chan room s st = Some st' \<and> offered rel cap st xs (slot_pkts sc chan room s) st'"
proof -
  obtain po where po: "pool_get pop (rx_pool st) = Some (po, [])" "rx_rel rel cap (st\<lparr>rx_pool := po\<rparr>) xs (n - 1)"
    using rx_rel_get [OF F R] by blast
  obtain r where r: "parse_udp_payload (tp_frame s) = Some r" using parse_udp_total by blast
  show ?thesis
  proof (cases r)
    case None
    then show ?thesis using r offered_nil [OF R] by (simp add: afxdp_frame_def slot_pkts_def)
  next
    case (Some p)
    show ?thesis
    proof (cases "length p \<le> room")
      case True
      then show ?thesis
        using deliver_law [OF F po(2), of sc chan p "slot_ts s" Ts_Sw] r Some po(1)
        by (auto simp: afxdp_frame_def slot_pkts_def offered_def)
    next
      case False
      have H: "holds_empty rel po (n - 1)" "n - 1 \<le> cap (po_inner po)" using po(2) by (simp_all add: rx_rel_def)
      have "offered rel cap st xs [] (st\<lparr>rx_pool := pool_put push po []\<rparr>)"
        using offered_pool [OF offered_nil [OF R] pool_put_holds(1) [OF F H(1), of "[]"]] H(2)
        by (simp add: pool_put_holds(2) [OF F H(1)])
      then show ?thesis using False r Some po(1) by (simp add: afxdp_frame_def slot_pkts_def)
    qed
  qed
qed

text \<open>The \<open>k\<close> slots from \<open>i\<close> on, around the ring.\<close>

definition slots_from :: "tp_slot list \<Rightarrow> nat \<Rightarrow> nat \<Rightarrow> tp_slot list" where
  "slots_from ring i k = map (\<lambda>j. ring ! ((i + j) mod frame_nr)) [0..<k]"

lemma slots_from_Suc: "slots_from ring i (Suc k) = ring ! (i mod frame_nr) # slots_from ring ((i + 1) mod frame_nr) k"
proof -
  have "(i + Suc j) mod frame_nr = ((i + 1) mod frame_nr + j) mod frame_nr" for j by (simp add: mod_simps)
  then show ?thesis by (simp add: slots_from_def map_upt_Suc del: upt_Suc)
qed

lemma slots_from_update:
  assumes "k < frame_nr" "i < frame_nr" "length ring = frame_nr"
  shows "slots_from (ring[i := s]) ((i + 1) mod frame_nr) k = slots_from ring ((i + 1) mod frame_nr) k"
proof -
  have ne: "((i + 1) mod frame_nr + j) mod frame_nr \<noteq> i" if "j < k" for j
  proof -
    have "((i + 1) mod frame_nr + j) mod frame_nr = (i + 1 + j) mod frame_nr" by (simp add: mod_simps)
    also have "\<dots> = (if i + 1 + j < frame_nr then i + 1 + j else i + 1 + j - frame_nr)"
      using assms(1,2) that by (simp add: le_mod_geq)
    finally show ?thesis using assms(1,2) that by auto
  qed
  show ?thesis unfolding slots_from_def by (rule map_cong) (auto dest!: ne)
qed

lemma afxdp_run_law:
  assumes F: "bounded_fifo rel cap push pop"
  shows "rx_rel rel cap (ax_rx ax) xs n \<Longrightarrow> length (ax_ring ax) = frame_nr \<Longrightarrow> ax_idx ax < frame_nr \<Longrightarrow> k \<le> frame_nr \<Longrightarrow>
    list_all (\<lambda>s. tp_status s AND 1 \<noteq> 0) (slots_from (ax_ring ax) (ax_idx ax) k) \<Longrightarrow>
    \<exists>ax'. afxdp_run push pop sc chan_name room k ax = Some ax' \<and> ax_idx ax' = (ax_idx ax + k) mod frame_nr \<and>
      offered rel cap (ax_rx ax) xs (concat (map (slot_pkts sc (chan_id chan_name) room) (slots_from (ax_ring ax) (ax_idx ax) k))) (ax_rx ax')"
proof (induction k arbitrary: ax xs n)
  case 0
  then show ?case by (simp add: slots_from_def offered_nil)
next
  case (Suc k)
  let ?s = "ax_ring ax ! ax_idx ax" and ?c = "chan_id chan_name"
  have sl: "slots_from (ax_ring ax) (ax_idx ax) (Suc k) = ?s # slots_from (ax_ring ax) ((ax_idx ax + 1) mod frame_nr) k"
    using Suc.prems(3) by (simp add: slots_from_Suc)
  obtain st where st: "afxdp_frame push pop sc ?c room ?s (ax_rx ax) = Some st"
      "offered rel cap (ax_rx ax) xs (slot_pkts sc ?c room ?s) st"
    using afxdp_frame_law [OF F Suc.prems(1)] by blast
  define ax1 where "ax1 = \<lparr>ax_ring = (ax_ring ax)[ax_idx ax := ?s\<lparr>tp_status := 0\<rparr>], ax_idx = (ax_idx ax + 1) mod frame_nr, ax_rx = st\<rparr>"
  have ax1: "length (ax_ring ax1) = frame_nr" "ax_idx ax1 < frame_nr" "ax_rx ax1 = st"
    using Suc.prems(2,3) by (auto simp: ax1_def)
  have step: "afxdp_step push pop sc chan_name room ax = Some ax1"
    using Suc.prems(5) sl st(1) by (simp add: afxdp_step_def ax1_def)
  obtain m where m: "rx_rel rel cap st (take (cap_of (rx_q (ax_rx ax))) (xs @ slot_pkts sc ?c room ?s)) m"
    using offered_rel [OF st(2)] by blast
  have keep: "slots_from (ax_ring ax1) (ax_idx ax1) k = slots_from (ax_ring ax) ((ax_idx ax + 1) mod frame_nr) k"
    using slots_from_update Suc.prems(2-4) by (simp add: ax1_def)
  obtain ax' where ax': "afxdp_run push pop sc chan_name room k ax1 = Some ax'" "ax_idx ax' = (ax_idx ax1 + k) mod frame_nr"
      "offered rel cap st (take (cap_of (rx_q (ax_rx ax))) (xs @ slot_pkts sc ?c room ?s))
         (concat (map (slot_pkts sc ?c room) (slots_from (ax_ring ax1) (ax_idx ax1) k))) (ax_rx ax')"
    using Suc.IH [of ax1 "take (cap_of (rx_q (ax_rx ax))) (xs @ slot_pkts sc ?c room ?s)" m] ax1 m Suc.prems(4,5) sl keep
    by (auto simp del: take_append)
  show ?case
    using step ax' offered_trans [OF rx_rel_len [OF Suc.prems(1)] st(2) ax'(3)] sl keep
    by (auto simp: ax1_def mod_simps)
qed


text \<open>A slot the kernel has filled with a UDP datagram carrying \<open>d\<close>.\<close>

definition carries :: "nat \<Rightarrow> tp_slot \<Rightarrow> bytes \<Rightarrow> bool" where
  "carries room s d \<longleftrightarrow> tp_status s AND 1 \<noteq> 0 \<and> length d \<le> room \<and>
     (\<exists>macs tag ip udp. headers_ok macs tag ip udp \<and> tp_frame s = encap macs tag ip udp d)"

lemma carries_pkts: "carries room s d \<Longrightarrow> slot_pkts sc chan room s = rx_pkt sc chan (d, slot_ts s, Ts_Sw)"
  by (auto simp: carries_def slot_pkts_def parse_udp_encap)

lemma carries_all_pkts:
  "list_all2 (carries room) ss ds \<Longrightarrow>
     concat (map (slot_pkts sc chan room) ss) = rx_pkts sc chan (map (\<lambda>(s, d). (d, slot_ts s, Ts_Sw)) (zip ss ds))"
  by (induction ss ds rule: list_all2_induct) (simp_all add: carries_pkts)

section \<open>Properties\<close>


definition demo_slot :: tp_slot where
  "demo_slot = \<lparr>tp_status = 1, tp_sec = 2, tp_nsec = 5,
     tp_frame = encap (replicate 12 0) [0x81, 0, 0, 9] (69 # replicate 8 0 @ 17 # replicate 10 0) (replicate 8 0) [0, 0, 0, 7]\<rparr>"

definition demo_ring :: "bytes spsc afxdp" where
  "demo_ring = \<lparr>ax_ring = replicate frame_nr demo_slot, ax_idx = frame_nr - 1, ax_rx = demo_rx\<rparr>"


end
