(* ===== verification/Sockets.thy ===== *)
theory Sockets
  imports Config Rx_Afxdp
begin

text \<open>
  Opening the inputs: the multicast sockets of \<open>src/src/net.rs\<close> and the packet ring of \<open>src/src/rx_afxdp.rs\<close>, as the sequences of
  system calls they make. What the kernel answers is an argument.

  \<^item> \<open>build_mcast_socket\<close>: the calls on one socket, in order; only creating, binding and joining the group can fail. \<open>mcast_sockets\<close>: one per
    worker, as in \<open>src/src/main.rs\<close>.
  \<^item> \<open>timestamping_flags\<close>: the flags of \<open>SO_TIMESTAMPING\<close>, with the values of \<open>linux/net_tstamp.h\<close>.
  \<^item> \<open>afxdp_open\<close>, \<open>afxdp_close\<close>: setting up and tearing down the packet ring; \<open>fanout_val\<close>: the argument of \<open>PACKET_FANOUT\<close>, of which the kernel
    reads the group from the low and the mode from the high half.
\<close>

unbundle bit_operations_syntax

section \<open>Multicast sockets\<close>

datatype sock_call =
    Set_Reuse_Address
  | Set_Reuse_Port
  | Bind_Wildcard u16
  | Set_Recv_Buffer nat
  | Join_Multicast ipv4 ipv4
  | Set_Busy_Poll u32
  | Set_Timestampns
  | Set_Timestamping u32
  | Set_Nonblocking

datatype net_error = Socket_Failed | Bind_Failed | Join_Failed

definition timestamping_flags :: "timestamping_mode \<Rightarrow> u32" where
  "timestamping_flags mode =
     (let RX_SW = 8; SW = 16; RX_HW = 4; SYS_HW = 32; RAW_HW = 64;
          flags = RX_SW OR SW;
          flags = flags OR RX_HW
      in flags OR (case mode of Ts_HardwareRaw \<Rightarrow> RAW_HW | _ \<Rightarrow> SYS_HW))"

definition timestamping_calls :: "timestamping_mode option \<Rightarrow> sock_call list" where
  "timestamping_calls mode = (case mode of
     None \<Rightarrow> []
   | Some Ts_Off \<Rightarrow> []
   | Some Ts_Software \<Rightarrow> [Set_Timestampns]
   | Some m \<Rightarrow> [Set_Timestamping (timestamping_flags m)])"

definition build_mcast_socket :: "bool \<Rightarrow> (sock_call \<Rightarrow> bool) \<Rightarrow> channel_cfg \<Rightarrow> net_error + sock_call list" where
  "build_mcast_socket created ok cfg =
     (if \<not> created then Inl Socket_Failed
      else let calls = [Set_Reuse_Address] @ (if cc_reuse_port cfg then [Set_Reuse_Port] else []) @ [Bind_Wildcard (cc_port cfg)] in
        if \<not> ok (Bind_Wildcard (cc_port cfg)) then Inl Bind_Failed
        else let calls = calls @ (if cc_recv_buffer_bytes cfg > 0 then [Set_Recv_Buffer (unat (cc_recv_buffer_bytes cfg))] else []) @
                   [Join_Multicast (cc_group cfg) (cc_iface_addr cfg)] in
          if \<not> ok (Join_Multicast (cc_group cfg) (cc_iface_addr cfg)) then Inl Join_Failed
          else Inr (calls @ (case cc_busy_poll_us cfg of Some us \<Rightarrow> [Set_Busy_Poll us] | None \<Rightarrow> []) @
                 timestamping_calls (cc_timestamping cfg) @ (if cc_nonblocking cfg then [Set_Nonblocking] else [])))"

fun mcast_sockets :: "(bool \<times> (sock_call \<Rightarrow> bool)) list \<Rightarrow> channel_cfg \<Rightarrow> net_error + sock_call list list" where
  "mcast_sockets [] cfg = Inr []"
| "mcast_sockets ((created, ok) # as) cfg = (case build_mcast_socket created ok cfg of
     Inl e \<Rightarrow> Inl e
   | Inr s \<Rightarrow> (case mcast_sockets as cfg of Inl e \<Rightarrow> Inl e | Inr ss \<Rightarrow> Inr (s # ss)))"

section \<open>The packet ring\<close>

record tpacket_req =
  tr_block_size :: u32
  tr_block_nr :: u32
  tr_frame_size :: u32
  tr_frame_nr :: u32

definition ring_req :: tpacket_req where
  "ring_req = (let frame_size = 2048; block_size = frame_size * 1024; block_nr = 4 in
     \<lparr>tr_block_size = block_size, tr_block_nr = block_nr, tr_frame_size = frame_size,
      tr_frame_nr = (block_size div frame_size) * block_nr\<rparr>)"

datatype raw_call =
    Open_Packet_Socket
  | Set_Packet_Version int
  | Set_Rx_Ring tpacket_req
  | If_Nametoindex string
  | Bind_Interface u32
  | Set_Fanout u32
  | Map_Ring nat
  | Unmap_Ring nat
  | Close_Fd

datatype ring_error = Packet_Socket_Failed | Version_Failed | Ring_Failed | No_Interface | Ring_Bind_Failed | Mmap_Failed

record ring_answers =
  an_socket :: bool
  an_version :: bool
  an_ring :: bool
  an_if_index :: u32
  an_bind :: bool
  an_mmap :: bool

definition fanout_val :: "u32 \<Rightarrow> u32" where
  "fanout_val queue_id =
     (let group_id = (ucast queue_id :: u16) + 1; PACKET_FANOUT_HASH = (0 :: u16)
      in push_bit 16 (ucast group_id) OR ucast PACKET_FANOUT_HASH)"

definition ring_len :: nat where
  "ring_len = unat (tr_block_size ring_req) * unat (tr_block_nr ring_req)"

text \<open>\<open>None\<close> is the panic on an interface name with a NUL character. \<open>PACKET_FANOUT\<close> may fail without consequence.\<close>

definition afxdp_open :: "ring_answers \<Rightarrow> string \<Rightarrow> u32 \<Rightarrow> ((ring_error + unit) \<times> raw_call list) option" where
  "afxdp_open an ifname queue_id =
     (let c1 = [Open_Packet_Socket]; c2 = c1 @ [Set_Packet_Version 1]; c3 = c2 @ [Set_Rx_Ring ring_req];
          c4 = c3 @ [If_Nametoindex ifname]; c5 = c4 @ [Bind_Interface (an_if_index an)];
          c6 = c5 @ [Set_Fanout (fanout_val queue_id), Map_Ring ring_len] in
      if \<not> an_socket an then Some (Inl Packet_Socket_Failed, c1)
      else if \<not> an_version an then Some (Inl Version_Failed, c2 @ [Close_Fd])
      else if \<not> an_ring an then Some (Inl Ring_Failed, c3 @ [Close_Fd])
      else if CHR 0x00 \<in> set ifname then None
      else if an_if_index an = 0 then Some (Inl No_Interface, c4 @ [Close_Fd])
      else if \<not> an_bind an then Some (Inl Ring_Bind_Failed, c5 @ [Close_Fd])
      else if \<not> an_mmap an then Some (Inl Mmap_Failed, c6 @ [Close_Fd])
      else Some (Inr (), c6))"

definition afxdp_close :: "raw_call list" where
  "afxdp_close = [Unmap_Ring ring_len, Close_Fd]"

section \<open>Laws\<close>

lemma mcast_calls:
  assumes "build_mcast_socket created ok cfg = Inr s"
  shows "created \<and> ok (Bind_Wildcard (cc_port cfg)) \<and> ok (Join_Multicast (cc_group cfg) (cc_iface_addr cfg)) \<and>
    (\<exists>rest. s = [Set_Reuse_Address] @ (if cc_reuse_port cfg then [Set_Reuse_Port] else []) @ [Bind_Wildcard (cc_port cfg)] @ rest \<and>
      Join_Multicast (cc_group cfg) (cc_iface_addr cfg) \<in> set rest \<and>
      (\<forall>m. cc_timestamping cfg = Some m \<longrightarrow> set (timestamping_calls (Some m)) \<subseteq> set rest))"
  using assms by (auto simp: build_mcast_socket_def Let_def split: if_splits)

lemma mcast_sockets_all:
  "mcast_sockets as cfg = Inr ss \<Longrightarrow> list_all2 (\<lambda>(created, ok) s. build_mcast_socket created ok cfg = Inr s) as ss"
  by (induction as arbitrary: ss) (auto split: sum.splits)

lemma ring_geometry: "ring_len = frame_nr * 2048" "unat (tr_frame_nr ring_req) = frame_nr"
  by (simp_all add: ring_len_def ring_req_def frame_nr_def Let_def)

section \<open>Properties\<close>

text \<open>
  The sockets of a channel, under a configuration that loads: whenever start-up succeeds there is one socket per worker, each bound to the
  channel's port and joined to its group; if there are several, each has asked to share the port before it was bound, without
  which the second bind would fail.
\<close>

theorem mcast_sockets_share_port:
  assumes "from_file read_to_string from_str p = Inr c" "ch \<in> {ch_a (ap_channels c), ch_b (ap_channels c)}"
    and "mcast_sockets as ch = Inr ss" "length as = worker_count ch"
  shows "length ss = worker_count ch \<and> (\<forall>s \<in> set ss. \<exists>pre rest. s = pre @ Bind_Wildcard (cc_port ch) # rest \<and>
    Join_Multicast (cc_group ch) (cc_iface_addr ch) \<in> set rest \<and> (worker_count ch > 1 \<longrightarrow> Set_Reuse_Port \<in> set pre))"
proof -
  have v: "validate c = Inr ()" using assms(1) by (auto simp: from_file_def split: option.splits sum.splits)
  have port: "cc_reuse_port ch" if "worker_count ch > 1"
    using that assms(2) validated(5,6) [OF v] by (auto simp: worker_count_def)
  note all = mcast_sockets_all [OF assms(3)]
  have "\<exists>pre rest. s = pre @ Bind_Wildcard (cc_port ch) # rest \<and> Join_Multicast (cc_group ch) (cc_iface_addr ch) \<in> set rest \<and>
      (worker_count ch > 1 \<longrightarrow> Set_Reuse_Port \<in> set pre)" if s: "s \<in> set ss" for s
  proof -
    obtain i where i: "i < length ss" "s = ss ! i" using s by (auto simp: in_set_conv_nth)
    obtain created ok where b: "build_mcast_socket created ok ch = Inr s"
      using list_all2_nthD2 [OF all i(1)] i(2) by (cases "as ! i") auto
    obtain rest where r: "s = [Set_Reuse_Address] @ (if cc_reuse_port ch then [Set_Reuse_Port] else []) @ [Bind_Wildcard (cc_port ch)] @ rest"
        "Join_Multicast (cc_group ch) (cc_iface_addr ch) \<in> set rest"
      using mcast_calls [OF b] by blast
    show ?thesis
      by (rule exI [of _ "[Set_Reuse_Address] @ (if cc_reuse_port ch then [Set_Reuse_Port] else [])"], rule exI [of _ rest])
        (use r port in simp)
  qed
  moreover have "length ss = worker_count ch" using list_all2_lengthD [OF all] assms(4) by simp
  ultimately show ?thesis by blast
qed

theorem mcast_sockets_share_port_witness:
  "\<exists>ss. mcast_sockets [(True, \<lambda>_. True), (True, \<lambda>_. True)] demo_channel = Inr ss \<and> length ss = 2 \<and>
     (\<forall>s \<in> set ss. \<exists>pre rest. s = pre @ Bind_Wildcard 5001 # rest \<and> Set_Reuse_Port \<in> set pre)"
proof -
  have l: "from_file (\<lambda>p. Some p) (\<lambda>s. Some demo_config) ''config.toml'' = Inr demo_config"
    by (simp add: from_file_def demo_config_valid)
  have "\<exists>ss. mcast_sockets [(True, \<lambda>_. True), (True, \<lambda>_. True)] demo_channel = Inr ss" by (simp add: build_mcast_socket_def Let_def)
  then obtain ss where ss: "mcast_sockets [(True, \<lambda>_. True), (True, \<lambda>_. True)] demo_channel = Inr ss" by blast
  have ch: "demo_channel \<in> {ch_a (ap_channels demo_config), ch_b (ap_channels demo_config)}"
    "length [(True, \<lambda>_ :: sock_call. True), (True, \<lambda>_. True)] = worker_count demo_channel" "worker_count demo_channel = 2" "cc_port demo_channel = 5001"
    by (simp_all add: demo_config_def demo_channel_def worker_count_def workers_of_def)
  show ?thesis using mcast_sockets_share_port [OF l ch(1) ss ch(2)] ss unfolding ch(3,4) by fastforce
qed

text \<open>
  C37: With hardware time stamping the sockets also ask for software times, as a fallback; a datagram that carries nothing but the software time
  is stamped with it and labelled as hardware time all the same.
\<close>

theorem software_time_labelled_hardware:
  assumes "build_mcast_socket created ok ch = Inr s" "cc_timestamping ch = Some mode" "mode = Ts_Hardware \<or> mode = Ts_HardwareRaw"
    and "data \<noteq> []" "sw \<noteq> (0, 0)" "ts_ns sw \<noteq> 0"
  shows "(\<exists>flags. Set_Timestamping flags \<in> set s \<and> flags AND 16 \<noteq> 0) \<and>
    stamp (cc_timestamping ch) now data [ScmTimestamping [sw, (0, 0), (0, 0)]] =
      Some (ts_ns sw, if mode = Ts_HardwareRaw then Ts_HwRaw else Ts_HwSys)"
proof -
  have "Set_Timestamping (timestamping_flags mode) \<in> set s"
    using mcast_calls [OF assms(1)] assms(2,3) by (auto simp: timestamping_calls_def)
  moreover have "timestamping_flags mode AND 16 \<noteq> 0" using assms(3) by (auto simp: timestamping_flags_def Let_def)
  ultimately show ?thesis using assms(2-6) by (cases sw) (auto simp: stamp_def ts_off_def Let_def)
qed

theorem software_time_labelled_hardware_witness:
  "stamp (Some Ts_Hardware) 5 [1] [ScmTimestamping [(3, 7), (0, 0), (0, 0)]] = Some (3000000007, Ts_HwSys)"
proof -
  let ?ch = "demo_channel\<lparr>cc_timestamping := Some Ts_Hardware\<rparr>"
  have "\<exists>s. build_mcast_socket True (\<lambda>_. True) ?ch = Inr s" by (simp add: build_mcast_socket_def Let_def)
  then obtain s where s: "build_mcast_socket True (\<lambda>_. True) ?ch = Inr s" by blast
  have ts: "ts_ns (3, 7) = 3000000007" by (simp add: ts_ns_def i64_as_u64_def)
  show ?thesis using software_time_labelled_hardware [OF s, of Ts_Hardware "[1]" "(3, 7)" 5] unfolding ts by simp
qed

text \<open>
  C28: Opening the packet ring leaks no descriptor: unless it panics on the interface name, it either fails and has closed the socket it opened, as
  its last call, or succeeds with the socket open and a ring of \<open>frame_nr\<close> frames of 2048 bytes, in the order version, ring, bind, map; the loop's
  end unmaps the same length and closes it once.
\<close>

theorem afxdp_open_no_leak:
  assumes "afxdp_open an ifname q = Some (r, calls)"
  shows "(case r of
      Inl e \<Rightarrow> count_list calls Close_Fd = (if an_socket an then 1 else 0) \<and> (an_socket an \<longrightarrow> last calls = Close_Fd)
    | Inr _ \<Rightarrow> count_list calls Close_Fd = 0 \<and> count_list (calls @ afxdp_close) Close_Fd = 1 \<and>
        calls = [Open_Packet_Socket, Set_Packet_Version 1, Set_Rx_Ring ring_req, If_Nametoindex ifname, Bind_Interface (an_if_index an),
          Set_Fanout (fanout_val q), Map_Ring (frame_nr * 2048)])"
  using assms by (auto simp: afxdp_open_def afxdp_close_def Let_def ring_geometry split: if_splits)

theorem afxdp_open_no_leak_witness:
  "\<exists>calls. afxdp_open \<lparr>an_socket = True, an_version = True, an_ring = True, an_if_index = 2, an_bind = True, an_mmap = False\<rparr> ''eth0'' 0 =
     Some (Inl Mmap_Failed, calls) \<and> last calls = Close_Fd"
proof -
  let ?an = "\<lparr>an_socket = True, an_version = True, an_ring = True, an_if_index = 2, an_bind = True, an_mmap = False\<rparr>"
  have "\<exists>calls. afxdp_open ?an ''eth0'' 0 = Some (Inl Mmap_Failed, calls)" by (simp add: afxdp_open_def Let_def)
  then obtain calls where c: "afxdp_open ?an ''eth0'' 0 = Some (Inl Mmap_Failed, calls)" by blast
  from afxdp_open_no_leak [OF this] have "last calls = Close_Fd" by simp
  then show ?thesis using c by blast
qed

text \<open>
  C38: The fanout argument has its halves swapped. The kernel takes the group from the low half and the mode from the high half: every worker
  asks for group 0, the worker of queue \<open>q\<close> with mode \<open>q + 1\<close>, so none of them gets the hash mode (mode 0), and no two workers agree.
\<close>

theorem fanout_halves_swapped:
  "(ucast (fanout_val q) :: u16) = 0 \<and> (ucast (drop_bit 16 (fanout_val q)) :: u16) = ucast q + 1"
proof
  show "(ucast (fanout_val q) :: u16) = 0" by (rule bit_word_eqI) (simp add: fanout_val_def Let_def bit_simps)
  show "(ucast (drop_bit 16 (fanout_val q)) :: u16) = ucast q + 1"
    by (rule bit_word_eqI) (auto simp: fanout_val_def Let_def bit_simps)
qed

end
