(* ===== verification/Recovery.thy ===== *)
theory Recovery
  imports Pool Util
begin

text \<open>
  Gap recovery, \<open>src/src/recovery.rs\<close>.

  \<^item> \<open>notify_gap\<close>: what the arbiter calls; the channel's \<open>try_send\<close> is an argument, its refusal is ignored.
  \<^item> \<open>logger_step\<close>: the rate-limited logger, one request.
  \<^item> \<open>coalesce\<close>, \<open>fetch_loop\<close>, \<open>fetch_and_inject\<close>, \<open>injector_round\<close>, \<open>run_injector\<close>: the TCP injector. A round is given the
    first request, the further requests \<open>try_recv\<close> finds waiting, and what the replay server sends (\<open>None\<close>: no connection; a list of bytes
    up to the end of the stream). The state collects the backlog file, the requests sent to the server and the packets handed to
    \<open>push_blocking\<close>, in order.
\<close>

datatype recovery_request = Gap_Req u64 u64

definition notify_gap :: "('c \<Rightarrow> recovery_request \<Rightarrow> 'c \<times> bool) \<Rightarrow> u64 \<Rightarrow> u64 \<Rightarrow> 'c \<Rightarrow> 'c" where
  "notify_gap try_send from to ch = fst (try_send ch (Gap_Req from to))"

text \<open>The logger's last log time, and whether the request is logged.\<close>

definition logger_step :: "u64 \<Rightarrow> u64 \<Rightarrow> u64 \<times> bool" where
  "logger_step now last_log_ns = (if sat_sub now last_log_ns \<ge> 100000000 then (now, True) else (last_log_ns, False))"

section \<open>The injector\<close>

definition newline :: string where
  "newline = [char_of (10 :: nat)]"

definition gap_line :: "u64 \<Rightarrow> u64 \<Rightarrow> string" where
  "gap_line from to = ''gap '' @ show_dec (unat from) @ '' '' @ show_dec (unat to) @ newline"

definition replay_request :: "u64 \<Rightarrow> u64 \<Rightarrow> string" where
  "replay_request from to = ''REPLAY '' @ show_dec (unat from) @ '' '' @ show_dec (unat to) @ newline"

fun coalesce :: "bool \<Rightarrow> recovery_request list \<Rightarrow> u64 \<Rightarrow> u64 \<Rightarrow> string \<Rightarrow> u64 \<times> u64 \<times> string" where
  "coalesce has_backlog [] lo hi bl = (lo, hi, bl)"
| "coalesce has_backlog (Gap_Req from to # rs) lo hi bl =
     (if from \<le> sat_add hi 1 \<and> to \<ge> sat_sub lo 1 then
        coalesce has_backlog rs (if from < lo then from else lo) (if to > hi then to else hi) bl
      else coalesce has_backlog rs lo hi (if has_backlog then bl @ gap_line from to else bl))"

datatype fetch_error = Connect_Failed | Packet_Too_Large nat | Unexpected_Eof

text \<open>
  Frames of the replay stream: length, sequence number, payload. The stream's first fault ends the loop; a truncated header is
  its regular end.
\<close>

function fetch_loop ::
  "('q \<Rightarrow> ('q \<times> bytes option) option) \<Rightarrow> nat \<Rightarrow> clock \<Rightarrow> nat \<Rightarrow> bytes \<Rightarrow> 'q pool \<Rightarrow>
   ('q pool \<times> pkt list \<times> fetch_error option) option" where
  "fetch_loop pop room clk k s po =
     (if length s < 12 then Some (po, [], None)
      else let len = unat (from_be (take 4 s) :: u32); sq = (from_be (take 8 (drop 4 s)) :: u64) in
        if len = 0 then Some (po, [], None)
        else case pool_get pop po of
          None \<Rightarrow> None
        | Some (po, bufm) \<Rightarrow>
            if len > room then Some (po, [], Some (Packet_Too_Large len))
            else if length s - 12 < len then Some (po, [], Some Unexpected_Eof)
            else map_option
              (\<lambda>(po, ps, e). (po, \<lparr>pk_buf = Buf_Bytes (bufm @ take len (drop 12 s)), pk_len = len, pk_seq = sq, pk_ts_nanos = clk k,
                 pk_chan = 82, pk_ts_kind = Ts_Sw, pk_merge_emit_ns = 0\<rparr> # ps, e))
              (fetch_loop pop room clk (Suc k) (drop (12 + len) s) po))"
  by pat_completeness auto

termination fetch_loop
  by (relation "measure (\<lambda>(pop, room, clk, k, s, po). length s)") auto

declare fetch_loop.simps [simp del]

definition fetch_and_inject ::
  "('q \<Rightarrow> ('q \<times> bytes option) option) \<Rightarrow> nat \<Rightarrow> clock \<Rightarrow> nat \<Rightarrow> bytes option \<Rightarrow> 'q pool \<Rightarrow>
   ('q pool \<times> pkt list \<times> fetch_error option) option" where
  "fetch_and_inject pop room clk k stream po = (case stream of
     None \<Rightarrow> Some (po, [], Some Connect_Failed)
   | Some s \<Rightarrow> fetch_loop pop room clk k s po)"

record 'q injector =
  in_pool :: "'q pool"
  in_backlog :: string
  in_sent :: "string list"
  in_pushed :: "pkt list"

definition injector_round ::
  "('q \<Rightarrow> ('q \<times> bytes option) option) \<Rightarrow> nat \<Rightarrow> bool \<Rightarrow> recovery_request \<Rightarrow> recovery_request list \<Rightarrow> clock \<Rightarrow> bytes option \<Rightarrow>
   'q injector \<Rightarrow> 'q injector option" where
  "injector_round pop room has_backlog first waiting clk stream st = (case first of Gap_Req lo hi \<Rightarrow>
     if lo > hi then Some st
     else let (lo, hi, bl) = coalesce has_backlog waiting lo hi (in_backlog st);
              bl = (if has_backlog then bl @ gap_line lo hi else bl)
       in map_option (\<lambda>(po, ps, e). \<lparr>in_pool = po, in_backlog = bl,
            in_sent = (if stream = None then in_sent st else in_sent st @ [replay_request lo hi]),
            in_pushed = in_pushed st @ ps\<rparr>)
          (fetch_and_inject pop room clk 0 stream (in_pool st)))"

fun run_injector ::
  "('q \<Rightarrow> ('q \<times> bytes option) option) \<Rightarrow> nat \<Rightarrow> bool \<Rightarrow>
   (recovery_request \<times> recovery_request list \<times> clock \<times> bytes option) list \<Rightarrow> 'q injector \<Rightarrow> 'q injector option" where
  "run_injector pop room has_backlog [] st = Some st"
| "run_injector pop room has_backlog ((first, waiting, clk, stream) # rs) st =
     Option.bind (injector_round pop room has_backlog first waiting clk stream st) (run_injector pop room has_backlog rs)"

section \<open>Which gaps a round covers\<close>

fun absorbed :: "recovery_request list \<Rightarrow> u64 \<Rightarrow> u64 \<Rightarrow> recovery_request list \<times> recovery_request list" where
  "absorbed [] lo hi = ([], [])"
| "absorbed (Gap_Req from to # rs) lo hi =
     (if from \<le> sat_add hi 1 \<and> to \<ge> sat_sub lo 1 then
        (case absorbed rs (min lo from) (max hi to) of (a, b) \<Rightarrow> (Gap_Req from to # a, b))
      else (case absorbed rs lo hi of (a, b) \<Rightarrow> (a, Gap_Req from to # b)))"

fun req_range :: "recovery_request \<Rightarrow> u64 set" where
  "req_range (Gap_Req from to) = {from..to}"

fun req_line :: "recovery_request \<Rightarrow> string" where
  "req_line (Gap_Req from to) = gap_line from to"

fun req_ok :: "recovery_request \<Rightarrow> bool" where
  "req_ok (Gap_Req from to) = (from \<le> to)"

lemma range_join:
  assumes "lo \<le> (hi :: u64)" "from \<le> to" "from \<le> sat_add hi 1" "to \<ge> sat_sub lo 1"
  shows "{min lo from..max hi to} = {lo..hi} \<union> {from..to}"
proof -
  have "unat from \<le> unat hi + 1" "unat lo \<le> unat to + 1"
    using assms(3,4) by (auto simp: word_le_nat_alt unat_sat_add unat_sat_sub)
  then have "x \<in> {min lo from..max hi to} \<longleftrightarrow> x \<in> {lo..hi} \<union> {from..to}" for x
    using assms(1,2) by (auto simp: word_le_nat_alt min_def max_def)
  then show ?thesis by blast
qed

lemma coalesce_law:
  assumes "lo \<le> hi" "list_all req_ok rs" "absorbed rs lo hi = (a, b)"
  shows "\<exists>lo' hi'. coalesce has_backlog rs lo hi bl = (lo', hi', bl @ (if has_backlog then concat (map req_line b) else [])) \<and>
    lo' \<le> hi' \<and> {lo'..hi'} = {lo..hi} \<union> \<Union> (req_range ` set a)"
  using assms
proof (induction rs arbitrary: lo hi bl a b)
  case (Cons r rs)
  obtain f t where r: "r = Gap_Req f t" by (cases r)
  show ?case
  proof (cases "f \<le> sat_add hi 1 \<and> t \<ge> sat_sub lo 1")
    case True
    obtain a' where a: "absorbed rs (min lo f) (max hi t) = (a', b)" "a = r # a'"
      using Cons.prems(3) r True by (auto split: prod.splits)
    have "min lo f \<le> max hi t" using Cons.prems(1) by (simp add: min_le_iff_disj le_max_iff_disj)
    moreover have "(if f < lo then f else lo) = min lo f" "(if t > hi then t else hi) = max hi t"
      by (auto simp: min_def max_def)
    moreover have "{min lo f..max hi t} = {lo..hi} \<union> {f..t}"
      using range_join Cons.prems(1,2) r True by simp
    ultimately show ?thesis
      using Cons.IH [of "min lo f" "max hi t" a' b bl] Cons.prems(2) a r True by auto
  next
    case False
    then obtain b' where "absorbed rs lo hi = (a, b')" "b = r # b'"
      using Cons.prems(3) r by (auto split: prod.splits)
    then show ?thesis
      using Cons.IH [of lo hi a b' "if has_backlog then bl @ gap_line f t else bl"] Cons.prems(1,2) r False by auto
  qed
qed auto


section \<open>The replay stream\<close>

definition replay_frame :: "u64 \<times> bytes \<Rightarrow> bytes" where
  "replay_frame m = to_be (word_of_nat (length (snd m)) :: u32) @ to_be (fst m) @ snd m"

definition frame_fits :: "nat \<Rightarrow> u64 \<times> bytes \<Rightarrow> bool" where
  "frame_fits room m \<longleftrightarrow> snd m \<noteq> [] \<and> length (snd m) \<le> room \<and> length (snd m) < 2 ^ 32"

text \<open>The end of a stream: too short for a header, or a header with length zero.\<close>

definition stream_end :: "bytes \<Rightarrow> bool" where
  "stream_end s \<longleftrightarrow> length s < 12 \<or> (from_be (take 4 s) :: u32) = 0"

definition replayed :: "pkt \<Rightarrow> u64 \<times> bytes \<Rightarrow> bool" where
  "replayed p m \<longleftrightarrow> pk_seq p = fst m \<and> pk_buf p = Buf_Bytes (snd m) \<and> pk_len p = length (snd m) \<and> pk_chan p = 82"

lemma replayedI:
  "replayed \<lparr>pk_buf = Buf_Bytes (snd m), pk_len = length (snd m), pk_seq = fst m, pk_ts_nanos = t, pk_chan = 82,
     pk_ts_kind = Ts_Sw, pk_merge_emit_ns = 0\<rparr> m"
  by (simp add: replayed_def)

lemma fetch_frame:
  assumes "frame_fits room m" "pool_get pop po = Some (po', [])"
  shows "fetch_loop pop room clk k (replay_frame m @ s) po =
    map_option (\<lambda>(po, ps, e). (po, \<lparr>pk_buf = Buf_Bytes (snd m), pk_len = length (snd m), pk_seq = fst m, pk_ts_nanos = clk k,
       pk_chan = 82, pk_ts_kind = Ts_Sw, pk_merge_emit_ns = 0\<rparr> # ps, e)) (fetch_loop pop room clk (Suc k) s po')"
proof -
  have len: "unat (word_of_nat (length (snd m)) :: u32) = length (snd m)"
    using assms(1) by (simp add: frame_fits_def unat_of_nat take_bit_eq_mod)
  have pos: "length (snd m) \<noteq> 0" "\<not> length (snd m) > room" using assms(1) by (simp_all add: frame_fits_def)
  have "take 4 (replay_frame m @ s) = to_be (word_of_nat (length (snd m)) :: u32)"
    "take 8 (drop 4 (replay_frame m @ s)) = to_be (fst m)" "drop 12 (replay_frame m @ s) = snd m @ s"
    "drop (12 + length (snd m)) (replay_frame m @ s) = s" "length (replay_frame m @ s) = 12 + length (snd m) + length s"
    by (simp_all add: replay_frame_def)
  then show ?thesis using assms(2) len pos by (subst fetch_loop.simps) simp
qed

lemma fetch_loop_frames:
  assumes F: "bounded_fifo rel cap push pop" and "stream_end tail"
  shows "holds_empty rel po n \<Longrightarrow> list_all (frame_fits room) ms \<Longrightarrow>
    \<exists>po' ps. fetch_loop pop room clk k (concat (map replay_frame ms) @ tail) po = Some (po', ps, None) \<and>
      holds_empty rel po' (n - length ms) \<and> list_all2 replayed ps ms"
proof (induction ms arbitrary: k po n)
  case Nil
  then show ?case using assms(2) by (subst fetch_loop.simps) (auto simp: stream_end_def)
next
  case (Cons m ms)
  obtain po1 where po1: "pool_get pop po = Some (po1, [])" "holds_empty rel po1 (n - 1)"
    using pool_get_holds [OF F Cons.prems(1)] by blast
  obtain po' ps where "fetch_loop pop room clk (Suc k) (concat (map replay_frame ms) @ tail) po1 = Some (po', ps, None)"
      "holds_empty rel po' (n - 1 - length ms)" "list_all2 replayed ps ms"
    using Cons.IH [OF po1(2), of "Suc k"] Cons.prems(2) by auto
  then show ?case using fetch_frame [OF _ po1(1), of room m clk k "concat (map replay_frame ms) @ tail"] Cons.prems(2)
    by (simp add: replayedI)
qed

section \<open>Properties\<close>


definition demo_injector :: "bytes spsc injector" where
  "demo_injector = \<lparr>in_pool = pool_new spsc_new spsc_push 4 64, in_backlog = [], in_sent = [], in_pushed = []\<rparr>"


end
