(* ===== verification/Wiring.thy ===== *)
theory Wiring
  imports Config Recovery
begin

text \<open>
  How \<open>src/src/main.rs\<close> puts the program together: which threads it starts for a configuration, on which cores, and which queue
  each of them writes and reads.

  \<^item> \<open>clock_nanos\<close>, \<open>lock_all_memory_if\<close>, \<open>set_realtime_priority_if\<close>, \<open>pin_target\<close>: clock, memory, priority and the core a thread is pinned to (\<open>src/src/util.rs\<close>); the cores of the machine are an argument.
  \<^item> \<open>rx_worker\<close>, \<open>rx_a_workers\<close>, \<open>rx_b_workers\<close>: the receive threads with their queue and source.
  \<^item> \<open>recovery_plan\<close>, \<open>h3_listeners\<close>: the recovery thread and the HTTP/3 endpoints; \<open>program\<close>: all threads, in the order they are started.
  \<^item> \<open>pushes_to\<close>, \<open>pops_from\<close>: the queues a thread writes and reads. \<open>spsc_wiring\<close>: every ring has at most one producer and one consumer,
    which is what the ring's correctness rests on.
\<close>

section \<open>Machine set-up\<close>

text \<open>
  The clock: seconds and nanoseconds of the raw monotonic clock if it can be read, else the time since the first reading. Locking the memory: the test of
  the flag has an empty body, so the calls are made in any case. Real-time priority: only if one is configured.
\<close>

definition clock_nanos :: "(i64 \<times> i64) option \<Rightarrow> nat \<Rightarrow> u64" where
  "clock_nanos raw elapsed = (case raw of
     Some (sec, nsec) \<Rightarrow> i64_as_u64 sec * 1000000000 + i64_as_u64 nsec
   | None \<Rightarrow> word_of_nat elapsed)"

datatype os_call = Setrlimit_Memlock | Mlockall_Current_Future | Sched_Setscheduler_Fifo int

definition lock_all_memory_if :: "bool \<Rightarrow> os_call list" where
  "lock_all_memory_if cfg = (if \<not> cfg then [] else []) @ [Setrlimit_Memlock, Mlockall_Current_Future]"

definition set_realtime_priority_if :: "int option \<Rightarrow> os_call list" where
  "set_realtime_priority_if priority = (case priority of Some pri \<Rightarrow> [Sched_Setscheduler_Fifo pri] | None \<Rightarrow> [])"

lemma memory_locked_anyway: "lock_all_memory_if (gc_mlock_all (ap_general c)) = lock_all_memory_if True"
  by (simp add: lock_all_memory_if_def)


definition pin_target :: "nat list option \<Rightarrow> nat option \<Rightarrow> nat \<Rightarrow> nat option" where
  "pin_target cores base offset = (case base of
     None \<Rightarrow> None
   | Some b \<Rightarrow> (case cores of
       None \<Rightarrow> None
     | Some ids \<Rightarrow> find (\<lambda>c. c = min (b + offset) (2 ^ 64 - 1)) ids))"

text \<open>The warnings about cores that are not on the node of the network card; \<open>node_of\<close> and \<open>cpulist_of\<close> read the kernel's files.\<close>

datatype numa_warning = Core_Off_Node nat string int string | Node_Unknown string

definition numa_check :: "int \<Rightarrow> string \<Rightarrow> string \<times> nat option \<Rightarrow> numa_warning list" where
  "numa_check n list nc = (case snd nc of
     Some k \<Rightarrow> if \<not> cpulist_contains list k then [Core_Off_Node k (fst nc) n list] else []
   | None \<Rightarrow> [])"

definition numa_warnings :: "(string \<Rightarrow> int option) \<Rightarrow> (int \<Rightarrow> string option) \<Rightarrow> app_config \<Rightarrow> numa_warning list" where
  "numa_warnings node_of cpulist_of c = (case ap_afxdp c of
     Some ax \<Rightarrow>
       if ac_enable ax then
         (case node_of (ac_ifname ax) of
            Some n \<Rightarrow> (case cpulist_of n of
              Some list \<Rightarrow> concat (map (numa_check n list)
                [(''a_rx_core'', cp_a_rx_core (ap_cpu c)), (''b_rx_core'', cp_b_rx_core (ap_cpu c)),
                 (''merge_core'', cp_merge_core (ap_cpu c)), (''decode_core'', cp_decode_core (ap_cpu c))])
            | None \<Rightarrow> [])
          | None \<Rightarrow> [Node_Unknown (ac_ifname ax)])
       else []
   | None \<Rightarrow> [])"

section \<open>Threads and queues\<close>

datatype queue_id = Q_Rx_A nat | Q_Rx_B nat | Q_Merged | Q_Recovery

datatype thread =
    Metrics_Http
  | Snapshot_Writer
  | Recovery_Thread
  | Rx_A nat
  | Rx_A_Join
  | Rx_B nat
  | Rx_B_Join
  | Merge_Thread
  | Ws_A nat
  | Ws_B nat
  | H3_A nat
  | H3_B nat
  | Decode_Thread

datatype rx_source = Udp_Socket channel_cfg | Packet_Ring string u32

record rx_worker =
  rw_thread :: thread
  rw_name :: string
  rw_core :: "nat option"
  rw_queue :: queue_id
  rw_source :: rx_source

definition q_rx_a_list :: "app_config \<Rightarrow> queue_id list" where
  "q_rx_a_list c = map Q_Rx_A [0..<worker_count (ch_a (ap_channels c))]"

definition q_rx_b_list :: "app_config \<Rightarrow> queue_id list" where
  "q_rx_b_list c = map Q_Rx_B [0..<worker_count (ch_b (ap_channels c))]"

definition afxdp_on :: "app_config \<Rightarrow> bool" where
  "afxdp_on c = (case ap_afxdp c of Some ax \<Rightarrow> ac_enable ax | None \<Rightarrow> False)"

definition afxdp_workers :: "nat list option \<Rightarrow> app_config \<Rightarrow> afxdp_cfg \<Rightarrow> rx_worker list" where
  "afxdp_workers cores c ax =
     (let queues = max (case ac_queues ax of Some q \<Rightarrow> q | None \<Rightarrow> 1) 1 in
      map (\<lambda>(i, q). \<lparr>rw_thread = Rx_A i, rw_name = ''afxdp-A-'' @ show_dec i, rw_core = pin_target cores (cp_a_rx_core (ap_cpu c)) i,
            rw_queue = q, rw_source = Packet_Ring (ac_ifname ax) (word_of_nat i)\<rparr>)
        (enumerate 0 (take queues (q_rx_a_list c))))"

definition rx_a_workers :: "nat list option \<Rightarrow> app_config \<Rightarrow> rx_worker list" where
  "rx_a_workers cores c =
     (if afxdp_on c then afxdp_workers cores c (the (ap_afxdp c))
      else map (\<lambda>i. \<lparr>rw_thread = Rx_A i, rw_name = ''rx-A-'' @ show_dec i, rw_core = pin_target cores (cp_a_rx_core (ap_cpu c)) i,
            rw_queue = q_rx_a_list c ! i, rw_source = Udp_Socket (ch_a (ap_channels c))\<rparr>)
        [0..<worker_count (ch_a (ap_channels c))])"

definition rx_b_workers :: "nat list option \<Rightarrow> app_config \<Rightarrow> rx_worker list" where
  "rx_b_workers cores c =
     map (\<lambda>i. \<lparr>rw_thread = Rx_B i, rw_name = ''rx-B-'' @ show_dec i, rw_core = pin_target cores (cp_b_rx_core (ap_cpu c)) i,
         rw_queue = q_rx_b_list c ! i, rw_source = Udp_Socket (ch_b (ap_channels c))\<rparr>)
       [0..<worker_count (ch_b (ap_channels c))]"

text \<open>The recovery thread: the injector with its queue, or the logger.\<close>

datatype recovery_mode = Logger | Injector string "string option"

definition recovery_plan :: "app_config \<Rightarrow> recovery_mode \<times> queue_id option" where
  "recovery_plan c = (case ap_recovery c of
     Some r \<Rightarrow> if ry_enable_injector r then (Injector (ry_endpoint r) (ry_backlog_path r), Some Q_Recovery) else (Logger, None)
   | None \<Rightarrow> (Logger, None))"

definition writer_on :: "app_config \<Rightarrow> bool" where
  "writer_on c = (case ap_snapshot c of Some s \<Rightarrow> sn_enable_writer s | None \<Rightarrow> False)"

text \<open>The HTTP/3 endpoints, only with the feature \<open>h3\<close>.\<close>

record h3_listener =
  hl_addr_a :: string
  hl_addr_b :: string
  hl_cert :: "string option"
  hl_key :: "string option"
  hl_snapshot :: "string option"

definition h3_listeners :: "bool \<Rightarrow> app_config \<Rightarrow> h3_listener list" where
  "h3_listeners h3 c =
     (if h3 then (case ap_feeds c of
        Some f \<Rightarrow>
          if fe_enabled f \<and> obo_enabled c then
            map (\<lambda>p. \<lparr>hl_addr_a = pp_h3_endpoints p ! 0, hl_addr_b = pp_h3_endpoints p ! 1,
                hl_cert = map_option tl_cert_path (fe_tls f), hl_key = map_option tl_key_path (fe_tls f),
                hl_snapshot = map_option sn_path (ap_snapshot c)\<rparr>)
              (filter (\<lambda>p. length (pp_h3_endpoints p) \<ge> 2) (fe_pops f))
          else []
      | None \<Rightarrow> [])
      else [])"

definition pair_threads :: "(nat \<Rightarrow> thread) \<Rightarrow> (nat \<Rightarrow> thread) \<Rightarrow> 'a list \<Rightarrow> thread list" where
  "pair_threads a b ps = concat (map (\<lambda>i. [a i, b i]) [0..<length ps])"

definition program :: "bool \<Rightarrow> app_config \<Rightarrow> thread list" where
  "program h3 c =
     (case ap_metrics c of Some _ \<Rightarrow> [Metrics_Http] | None \<Rightarrow> []) @
     (if writer_on c then [Snapshot_Writer] else []) @
     [Recovery_Thread] @
     map rw_thread (rx_a_workers None c) @ [Rx_A_Join] @
     map rw_thread (rx_b_workers None c) @ [Rx_B_Join] @
     [Merge_Thread] @
     pair_threads Ws_A Ws_B (ws_listeners c) @
     pair_threads H3_A H3_B (h3_listeners h3 c) @
     [Decode_Thread]"

text \<open>The queues a thread writes and reads.\<close>

fun pushes_to :: "app_config \<Rightarrow> thread \<Rightarrow> queue_id list" where
  "pushes_to c (Rx_A i) = map rw_queue (filter (\<lambda>w. rw_thread w = Rx_A i) (rx_a_workers None c))"
| "pushes_to c (Rx_B i) = map rw_queue (filter (\<lambda>w. rw_thread w = Rx_B i) (rx_b_workers None c))"
| "pushes_to c Merge_Thread = [Q_Merged]"
| "pushes_to c Recovery_Thread = (case recovery_plan c of (Injector _ _, Some q) \<Rightarrow> [q] | _ \<Rightarrow> [])"
| "pushes_to c _ = []"

fun pops_from :: "app_config \<Rightarrow> thread \<Rightarrow> queue_id list" where
  "pops_from c Merge_Thread = q_rx_a_list c @ q_rx_b_list c @ (case snd (recovery_plan c) of Some q \<Rightarrow> [q] | None \<Rightarrow> [])"
| "pops_from c Decode_Thread = [Q_Merged]"
| "pops_from c _ = []"

definition queues_of :: "app_config \<Rightarrow> queue_id list" where
  "queues_of c = q_rx_a_list c @ q_rx_b_list c @ [Q_Merged] @ (case snd (recovery_plan c) of Some q \<Rightarrow> [q] | None \<Rightarrow> [])"

definition producers :: "bool \<Rightarrow> app_config \<Rightarrow> queue_id \<Rightarrow> thread list" where
  "producers h3 c q = filter (\<lambda>t. q \<in> set (pushes_to c t)) (program h3 c)"

definition consumers :: "bool \<Rightarrow> app_config \<Rightarrow> queue_id \<Rightarrow> thread list" where
  "consumers h3 c q = filter (\<lambda>t. q \<in> set (pops_from c t)) (program h3 c)"

text \<open>The number of receive threads of line A.\<close>

definition rx_a_count :: "app_config \<Rightarrow> nat" where
  "rx_a_count c = (if afxdp_on c
     then min (max (case ac_queues (the (ap_afxdp c)) of Some q \<Rightarrow> q | None \<Rightarrow> 1) 1) (worker_count (ch_a (ap_channels c)))
     else worker_count (ch_a (ap_channels c)))"

section \<open>One producer, one consumer\<close>

lemma q_rx_nth:
  "i < worker_count (ch_a (ap_channels c)) \<Longrightarrow> q_rx_a_list c ! i = Q_Rx_A i"
  "i < worker_count (ch_b (ap_channels c)) \<Longrightarrow> q_rx_b_list c ! i = Q_Rx_B i"
  by (simp_all add: q_rx_a_list_def q_rx_b_list_def)

lemma rx_a_shape:
  "map (\<lambda>w. (rw_thread w, rw_queue w)) (rx_a_workers cores c) = map (\<lambda>i. (Rx_A i, Q_Rx_A i)) [0..<rx_a_count c]"
  by (rule nth_equalityI)
    (auto simp: rx_a_workers_def afxdp_workers_def rx_a_count_def Let_def nth_enumerate_eq q_rx_nth length_enumerate q_rx_a_list_def
      split: option.splits)

lemma rx_b_shape:
  "map (\<lambda>w. (rw_thread w, rw_queue w)) (rx_b_workers cores c) = map (\<lambda>i. (Rx_B i, Q_Rx_B i)) [0..<worker_count (ch_b (ap_channels c))]"
  by (rule nth_equalityI) (auto simp: rx_b_workers_def q_rx_nth)

lemma shape_parts:
  assumes "map (\<lambda>w. (rw_thread w, rw_queue w)) ws = map (\<lambda>i. (T i, Q i)) [0..<n]"
  shows "map rw_thread ws = map T [0..<n]"
    "inj T \<Longrightarrow> q \<in> set (map rw_queue (filter (\<lambda>w. rw_thread w = T i) ws)) \<longleftrightarrow> i < n \<and> q = Q i"
proof -
  show "map rw_thread ws = map T [0..<n]" using arg_cong [OF assms, of "map fst"] by (simp add: o_def)
  have "q \<in> set (map rw_queue (filter (\<lambda>w. rw_thread w = T i) ws)) \<longleftrightarrow> (T i, q) \<in> set (map (\<lambda>w. (rw_thread w, rw_queue w)) ws)" by force
  then show "q \<in> set (map rw_queue (filter (\<lambda>w. rw_thread w = T i) ws)) \<longleftrightarrow> i < n \<and> q = Q i" if "inj T"
    unfolding assms using that by (auto dest: injD)
qed

lemmas rx_threads = shape_parts(1) [OF rx_a_shape] shape_parts(1) [OF rx_b_shape]

lemma rx_pushes:
  "q \<in> set (pushes_to c (Rx_A i)) \<longleftrightarrow> i < rx_a_count c \<and> q = Q_Rx_A i"
  "q \<in> set (pushes_to c (Rx_B i)) \<longleftrightarrow> i < worker_count (ch_b (ap_channels c)) \<and> q = Q_Rx_B i"
  unfolding pushes_to.simps by (rule shape_parts(2) [OF rx_a_shape] shape_parts(2) [OF rx_b_shape], simp add: inj_def)+

text \<open>The only thread that may write a queue.\<close>

fun writer_of :: "queue_id \<Rightarrow> thread" where
  "writer_of (Q_Rx_A i) = Rx_A i"
| "writer_of (Q_Rx_B i) = Rx_B i"
| "writer_of Q_Merged = Merge_Thread"
| "writer_of Q_Recovery = Recovery_Thread"

definition written :: "app_config \<Rightarrow> queue_id \<Rightarrow> bool" where
  "written c q = (case q of Q_Rx_A i \<Rightarrow> i < rx_a_count c | Q_Rx_B i \<Rightarrow> i < worker_count (ch_b (ap_channels c))
     | Q_Merged \<Rightarrow> True | Q_Recovery \<Rightarrow> snd (recovery_plan c) \<noteq> None)"

lemma pushes_iff: "q \<in> set (pushes_to c t) \<longleftrightarrow> t = writer_of q \<and> written c q"
proof (cases t)
  case Recovery_Thread
  then show ?thesis by (cases q) (auto simp: written_def recovery_plan_def split: option.splits if_splits)
qed (cases q; auto simp: rx_pushes written_def simp del: pushes_to.simps(1,2))+

lemma pops_iff: "q \<in> set (pops_from c t) \<longleftrightarrow> t = (if q = Q_Merged then Decode_Thread else Merge_Thread) \<and> q \<in> set (queues_of c)"
  by (cases t) (auto simp: queues_of_def recovery_plan_def q_rx_a_list_def q_rx_b_list_def split: option.splits if_splits)

lemma distinct_pairs: "inj a \<Longrightarrow> inj b \<Longrightarrow> (\<And>i j. a i \<noteq> b j) \<Longrightarrow> distinct (pair_threads a b ps)"
proof -
  have "distinct (concat (map (\<lambda>i. [a i, b i]) [0..<n]))" if "inj a" "inj b" "\<And>i j. a i \<noteq> b j" for n
    using that by (induction n) (auto dest: injD, metis)
  then show "inj a \<Longrightarrow> inj b \<Longrightarrow> (\<And>i j. a i \<noteq> b j) \<Longrightarrow> distinct (pair_threads a b ps)" by (simp add: pair_threads_def)
qed

lemma set_pairs: "set (pair_threads a b ps) = {t. \<exists>i<length ps. t = a i \<or> t = b i}"
  by (auto simp: pair_threads_def)

lemma distinct_program: "distinct (program h3 c)"
  unfolding program_def rx_threads distinct_append
  by (auto simp: distinct_map inj_on_def set_pairs inj_def intro!: distinct_pairs split: option.splits)

lemma filter_one: "distinct xs \<Longrightarrow> length (filter (\<lambda>t. t = x \<and> P) xs) = (if x \<in> set xs \<and> P then 1 else 0)"
  by (induction xs) auto

lemma program_members:
  "Merge_Thread \<in> set (program h3 c)" "Decode_Thread \<in> set (program h3 c)" "Recovery_Thread \<in> set (program h3 c)"
  "written c q \<Longrightarrow> writer_of q \<in> set (program h3 c)"
proof -
  show "Merge_Thread \<in> set (program h3 c)" "Decode_Thread \<in> set (program h3 c)" "Recovery_Thread \<in> set (program h3 c)"
    by (simp_all add: program_def)
  then show "writer_of q \<in> set (program h3 c)" if "written c q"
    using that by (cases q) (auto simp: written_def program_def rx_threads)
qed

lemma written_iff: "written c q \<longleftrightarrow> q \<in> set (queues_of c) \<and> (\<forall>i. q = Q_Rx_A i \<longrightarrow> i < rx_a_count c)"
  by (cases q) (auto simp: written_def queues_of_def q_rx_a_list_def q_rx_b_list_def recovery_plan_def rx_a_count_def
    split: option.splits if_splits)

section \<open>Properties\<close>

text \<open>
  C9: The wiring respects the rings' contract, for every configuration: each queue of the program is read by exactly one thread and
  written by exactly one, except that with the packet ring enabled the queues of line A beyond the requested number of
  ring queues are written by none (and are still polled); no thread reads or writes anything else.
\<close>

theorem spsc_wiring:
  "length (consumers h3 c q) = (if q \<in> set (queues_of c) then 1 else 0) \<and>
   length (producers h3 c q) = (if q \<in> set (queues_of c) \<and> \<not> (\<exists>i\<ge>rx_a_count c. q = Q_Rx_A i) then 1 else 0) \<and>
   distinct (program h3 c)"
proof -
  have "length (consumers h3 c q) = (if q \<in> set (queues_of c) then 1 else 0)"
    unfolding consumers_def pops_iff filter_one [OF distinct_program] using program_members(1,2) [of h3 c] by simp
  moreover have "length (producers h3 c q) = (if written c q then 1 else 0)"
    unfolding producers_def pushes_iff filter_one [OF distinct_program] using program_members(4) [of c q h3] by simp
  ultimately show ?thesis using distinct_program unfolding written_iff by (auto simp: not_less)
qed

end
