(* ===== verification/Shutdown.thy ===== *)
theory Shutdown
  imports Wiring Merge_Spec
begin

text \<open>
  How the program ends: the last part of \<open>main\<close> in \<open>src/src/main.rs\<close>, which joins the threads one after the other, together with the
  conditions under which each thread returns.

  \<^item> \<open>main_plan\<close>: what \<open>main\<close> does after start-up; \<open>Join t\<close> waits for thread \<open>t\<close>.
  \<^item> \<open>system\<close>: the shutdown flag, the threads that have returned, who still holds a sender of which channel, the rest of the plan.
  \<^item> \<open>sys_step\<close>: a worker (receiver, arbiter, decoder) may return at any moment, because the flag is up, with an error or by a panic;
    a listener returns only when it cannot bind its address (it panics), since accepting connections never ends; the recovery thread and the
    snapshot writer read a channel and return once all its senders are gone. A returning thread drops the senders it owns. Allowing more
    than the code does here only strengthens what is shown.
  \<^item> \<open>forward_stalls\<close>: the arbiter waits for the decoder even after the decoder has returned.
\<close>

section \<open>State\<close>

datatype channel = Recovery_Chan | Snapshot_Chan

datatype owner = Main_Fn | Thread_Fn thread

datatype main_action = Join thread | Request_Http_Shutdown

record system =
  sy_flag :: bool
  sy_ended :: "thread set"
  sy_listening :: "thread set"
  sy_senders :: "channel \<Rightarrow> owner set"
  sy_plan :: "main_action list"

definition main_plan :: "bool \<Rightarrow> app_config \<Rightarrow> main_action list" where
  "main_plan h3 c =
     map Join ([Rx_A_Join, Rx_B_Join, Merge_Thread, Decode_Thread] @
       pair_threads Ws_A Ws_B (ws_listeners c) @ pair_threads H3_A H3_B (h3_listeners h3 c) @
       (if writer_on c then [Snapshot_Writer] else []) @ [Recovery_Thread]) @
     (case ap_metrics c of Some _ \<Rightarrow> [Request_Http_Shutdown, Join Metrics_Http] | None \<Rightarrow> [])"

text \<open>
  The senders: \<open>main\<close> keeps its \<open>recovery_client\<close>, the arbiter got a clone; the handle of the snapshot writer keeps a sender,
  the decode stage has the other.
\<close>

definition system_start :: "bool \<Rightarrow> app_config \<Rightarrow> system" where
  "system_start h3 c = \<lparr>sy_flag = False, sy_ended = {}, sy_listening = {},
     sy_senders = (\<lambda>ch. case ch of
        Recovery_Chan \<Rightarrow> {Main_Fn, Thread_Fn Merge_Thread}
      | Snapshot_Chan \<Rightarrow> if writer_on c then {Main_Fn, Thread_Fn Decode_Thread} else {}),
     sy_plan = main_plan h3 c\<rparr>"

fun is_worker :: "thread \<Rightarrow> bool" where
  "is_worker (Rx_A _) = True"
| "is_worker (Rx_B _) = True"
| "is_worker Merge_Thread = True"
| "is_worker Decode_Thread = True"
| "is_worker _ = False"

fun is_listener :: "thread \<Rightarrow> bool" where
  "is_listener (Ws_A _) = True"
| "is_listener (Ws_B _) = True"
| "is_listener (H3_A _) = True"
| "is_listener (H3_B _) = True"
| "is_listener _ = False"

fun receiver_of :: "channel \<Rightarrow> thread" where
  "receiver_of Recovery_Chan = Recovery_Thread"
| "receiver_of Snapshot_Chan = Snapshot_Writer"

definition end_thread :: "thread \<Rightarrow> system \<Rightarrow> system" where
  "end_thread t s = s\<lparr>sy_ended := insert t (sy_ended s), sy_senders := (\<lambda>ch. sy_senders s ch - {Thread_Fn t})\<rparr>"

definition raise_flag :: "system \<Rightarrow> system" where
  "raise_flag s = s\<lparr>sy_flag := True\<rparr>"

section \<open>Steps\<close>

inductive sys_step :: "thread list \<Rightarrow> system \<Rightarrow> system \<Rightarrow> bool" for prog where
  ctrl_c: "sys_step prog s (raise_flag s)"
| worker_returns: "sys_step prog s (end_thread t s)" if "t \<in> set prog" "is_worker t"
| rx_a_joined: "sys_step prog s (end_thread Rx_A_Join s)" if "\<forall>i. Rx_A i \<in> set prog \<longrightarrow> Rx_A i \<in> sy_ended s"
| rx_b_joined: "sys_step prog s (end_thread Rx_B_Join s)" if "\<forall>i. Rx_B i \<in> set prog \<longrightarrow> Rx_B i \<in> sy_ended s"
| listener_binds: "sys_step prog s (s\<lparr>sy_listening := insert t (sy_listening s)\<rparr>)"
    if "t \<in> set prog" "is_listener t" "t \<notin> sy_ended s"
| listener_fails: "sys_step prog s (end_thread t s)" if "t \<in> set prog" "is_listener t" "t \<notin> sy_listening s"
| receiver_returns: "sys_step prog s (end_thread (receiver_of ch) s)" if "receiver_of ch \<in> set prog" "sy_senders s ch = {}"
| http_stops: "sys_step prog s (end_thread Metrics_Http s)" if "Metrics_Http \<in> set prog"
| main_joins: "sys_step prog s (s\<lparr>sy_plan := rest\<rparr>)" if "sy_plan s = Join t # rest" "t \<in> sy_ended s"
| main_requests: "sys_step prog s (s\<lparr>sy_plan := rest\<rparr>)" if "sy_plan s = Request_Http_Shutdown # rest"

inductive sys_run :: "thread list \<Rightarrow> system \<Rightarrow> system \<Rightarrow> bool" for prog s0 where
  sys_begin: "sys_run prog s0 s0"
| sys_next: "sys_run prog s0 s \<Longrightarrow> sys_step prog s s' \<Longrightarrow> sys_run prog s0 s'"

text \<open>\<open>main\<close> logs "clean shutdown" and returns when its plan is done.\<close>

definition clean_shutdown :: "system \<Rightarrow> bool" where
  "clean_shutdown s \<longleftrightarrow> sy_plan s = []"

section \<open>The senders main keeps\<close>

definition held_open :: "app_config \<Rightarrow> system \<Rightarrow> bool" where
  "held_open c s \<longleftrightarrow> Main_Fn \<in> sy_senders s Recovery_Chan \<and> Recovery_Thread \<notin> sy_ended s \<and> Join Recovery_Thread \<in> set (sy_plan s) \<and>
     (writer_on c \<longrightarrow> Main_Fn \<in> sy_senders s Snapshot_Chan \<and> Snapshot_Writer \<notin> sy_ended s \<and> Join Snapshot_Writer \<in> set (sy_plan s))"

lemma writer_member: "Snapshot_Writer \<in> set (program h3 c) \<longleftrightarrow> writer_on c"
  by (auto simp: program_def rx_threads set_pairs split: option.splits)

lemma held_open_end:
  assumes "held_open c s" "t \<noteq> Recovery_Thread" "writer_on c \<Longrightarrow> t \<noteq> Snapshot_Writer"
  shows "held_open c (end_thread t s)"
  using assms by (auto simp: held_open_def end_thread_def)

lemma held_open_step:
  assumes "sys_step (program h3 c) s s'" "held_open c s"
  shows "held_open c s'"
  using assms
proof (induction rule: sys_step.induct)
  case (worker_returns t s)
  then show ?case by (intro held_open_end) auto
next
  case (listener_fails t s)
  then show ?case by (intro held_open_end) auto
next
  case (receiver_returns ch s)
  then show ?case by (cases ch) (auto simp: held_open_def writer_member)
next
  case (main_joins s t rest)
  then show ?case by (auto simp: held_open_def)
qed (auto simp: held_open_def end_thread_def raise_flag_def)

lemma held_open_run: "sys_run (program h3 c) (system_start h3 c) s \<Longrightarrow> held_open c s"
proof (induction rule: sys_run.induct)
  case sys_begin
  then show ?case by (auto simp: held_open_def system_start_def main_plan_def)
next
  case (sys_next s s')
  then show ?case using held_open_step by blast
qed

text \<open>And \<open>main\<close> does get that far: without listeners and without a snapshot writer the recovery thread is what it waits for.\<close>

lemma workers_return: "sys_run prog s0 s \<Longrightarrow> set ts \<subseteq> {t \<in> set prog. is_worker t} \<Longrightarrow> sys_run prog s0 (fold end_thread ts s)"
proof (induction ts arbitrary: s)
  case (Cons t ts)
  then have "sys_run prog s0 (end_thread t s)" by (intro sys_next [OF Cons.prems(1) worker_returns]) auto
  then show ?case using Cons by simp
qed simp

lemma fold_end_thread:
  "sy_ended (fold end_thread ts s) = sy_ended s \<union> set ts" "sy_plan (fold end_thread ts s) = sy_plan s" "sy_flag (fold end_thread ts s) = sy_flag s"
  "sy_senders (fold end_thread ts s) ch = sy_senders s ch - Thread_Fn ` set ts"
  by (induction ts arbitrary: s) (auto simp: end_thread_def)

lemma joins_done: "sys_run prog s0 s \<Longrightarrow> sy_plan s = map Join ts @ rest \<Longrightarrow> set ts \<subseteq> sy_ended s \<Longrightarrow> sys_run prog s0 (s\<lparr>sy_plan := rest\<rparr>)"
proof (induction ts arbitrary: s)
  case (Cons t ts)
  then have "sys_run prog s0 (s\<lparr>sy_plan := map Join ts @ rest\<rparr>)" by (intro sys_next [OF Cons.prems(1) main_joins]) auto
  then show ?case using Cons.IH [of "s\<lparr>sy_plan := map Join ts @ rest\<rparr>"] Cons.prems(3) by simp
next
  case Nil
  have "s\<lparr>sy_plan := rest\<rparr> = s" using Nil.prems(2) by simp
  then show ?case using Nil.prems(1) by simp
qed

lemma main_reaches_recovery:
  assumes "ws_listeners c = []" "h3_listeners h3 c = []" "\<not> writer_on c"
  shows "\<exists>s rest. sys_run (program h3 c) (system_start h3 c) s \<and> sy_flag s \<and> sy_plan s = Join Recovery_Thread # rest \<and> sy_senders s Recovery_Chan = {Main_Fn}"
proof -
  let ?ts = "filter is_worker (program h3 c)" and ?s0 = "raise_flag (system_start h3 c)"
  let ?s1 = "fold end_thread ?ts ?s0" and ?s2 = "fold end_thread [Rx_A_Join, Rx_B_Join] (fold end_thread ?ts ?s0)"
  let ?front = "[Rx_A_Join, Rx_B_Join, Merge_Thread, Decode_Thread]"
  define rest where "rest = Join Recovery_Thread # (case ap_metrics c of Some _ \<Rightarrow> [Request_Http_Shutdown, Join Metrics_Http] | None \<Rightarrow> [])"
  have start: "sy_plan ?s0 = map Join ?front @ rest" "sy_ended ?s0 = {}" "sy_senders ?s0 Recovery_Chan = {Main_Fn, Thread_Fn Merge_Thread}"
    using assms by (simp_all add: raise_flag_def system_start_def main_plan_def pair_threads_def rest_def)
  have "sys_run (program h3 c) (system_start h3 c) ?s1" by (rule workers_return [OF sys_next [OF sys_begin ctrl_c]]) auto
  moreover have "Rx_A i \<in> sy_ended ?s1" if "Rx_A i \<in> set (program h3 c)" for i using that by (simp add: fold_end_thread)
  ultimately have r: "sys_run (program h3 c) (system_start h3 c) (end_thread Rx_A_Join ?s1)" by (blast intro: sys_next rx_a_joined)
  moreover have "Rx_B i \<in> sy_ended (end_thread Rx_A_Join ?s1)" if "Rx_B i \<in> set (program h3 c)" for i
    using that by (simp add: end_thread_def fold_end_thread)
  ultimately have "sys_run (program h3 c) (system_start h3 c) (end_thread Rx_B_Join (end_thread Rx_A_Join ?s1))" by (blast intro: sys_next rx_b_joined)
  then have r2: "sys_run (program h3 c) (system_start h3 c) ?s2" by simp
  have m: "Merge_Thread \<in> set ?ts" "Decode_Thread \<in> set ?ts" using program_members(1,2) [of h3 c] by simp_all
  have "sys_run (program h3 c) (system_start h3 c) (?s2\<lparr>sy_plan := rest\<rparr>)"
    by (rule joins_done [OF r2, of ?front]) (use start m in \<open>auto simp only: fold_end_thread set_simps Un_iff insert_iff\<close>)
  moreover have "sy_senders (?s2\<lparr>sy_plan := rest\<rparr>) Recovery_Chan = {Main_Fn}" "sy_flag ?s2"
    using start(3) m by (auto simp: fold_end_thread end_thread_def raise_flag_def)
  ultimately show ?thesis unfolding rest_def by (intro exI [of _ "?s2\<lparr>sy_plan := rest\<rparr>"]) (simp add: rest_def)
qed

section \<open>The minimal program\<close>

text \<open>
  \<open>src/src/bin/ingest_min.rs\<close> runs receivers, arbiter and a sink. Its two recovery threads (a logger and an injector, one \<open>Recovery_Thread\<close> here) and the
  metrics endpoint are never joined.
\<close>

definition ingest_workers :: "nat list option \<Rightarrow> app_config \<Rightarrow> rx_worker list" where
  "ingest_workers cores c =
     map (\<lambda>i. \<lparr>rw_thread = Rx_A i, rw_name = ''rx-A-'' @ show_dec i, rw_core = pin_target cores (cp_a_rx_core (ap_cpu c)) i,
         rw_queue = q_rx_a_list c ! i, rw_source = Udp_Socket (ch_a (ap_channels c))\<rparr>) [0..<worker_count (ch_a (ap_channels c))] @
     map (\<lambda>i. \<lparr>rw_thread = Rx_B i, rw_name = ''rx-B-'' @ show_dec i, rw_core = pin_target cores (cp_b_rx_core (ap_cpu c)) i,
         rw_queue = q_rx_b_list c ! i, rw_source = Udp_Socket (ch_b (ap_channels c))\<rparr>) [0..<worker_count (ch_b (ap_channels c))]"

definition ingest_program :: "app_config \<Rightarrow> thread list" where
  "ingest_program c = (case ap_metrics c of Some _ \<Rightarrow> [Metrics_Http] | None \<Rightarrow> []) @ [Recovery_Thread] @
     map rw_thread (ingest_workers None c) @ [Merge_Thread, Decode_Thread]"

definition ingest_start :: "app_config \<Rightarrow> system" where
  "ingest_start c = \<lparr>sy_flag = False, sy_ended = {}, sy_listening = {},
     sy_senders = (\<lambda>ch. case ch of Recovery_Chan \<Rightarrow> {Main_Fn} | Snapshot_Chan \<Rightarrow> {}),
     sy_plan = map Join (map rw_thread (ingest_workers None c) @ [Merge_Thread, Decode_Thread])\<rparr>"

definition joins_workers :: "thread list \<Rightarrow> system \<Rightarrow> bool" where
  "joins_workers prog s \<longleftrightarrow> (\<exists>ts. sy_plan s = map Join ts \<and> set ts \<subseteq> {t \<in> set prog. is_worker t})"

lemma joins_workers_step: "sys_step prog s s' \<Longrightarrow> joins_workers prog s \<Longrightarrow> joins_workers prog s'"
proof (induction rule: sys_step.induct)
  case (main_joins s t rest)
  then obtain ts where "sy_plan s = map Join ts" "set ts \<subseteq> {t \<in> set prog. is_worker t}" unfolding joins_workers_def by blast
  then show ?case using main_joins.hyps by (cases ts) (auto simp: joins_workers_def)
qed (auto simp: joins_workers_def end_thread_def raise_flag_def)

lemma ingest_joins: "sys_run (ingest_program c) (ingest_start c) s \<Longrightarrow> joins_workers (ingest_program c) s"
proof (induction rule: sys_run.induct)
  case sys_begin
  show ?case unfolding joins_workers_def
    by (rule exI [of _ "map rw_thread (ingest_workers None c) @ [Merge_Thread, Decode_Thread]"])
      (auto simp: ingest_start_def ingest_program_def ingest_workers_def)
next
  case (sys_next s s')
  then show ?case using joins_workers_step by blast
qed

section \<open>A decoder that is gone\<close>

lemma backoff_full:
  assumes "ring_rel q xs" "\<not> length xs < cap_of q"
  shows "push_with_backoff (\<lambda>_ q. q) q v spins max_spins = (q, Inl v)"
proof -
  have "spsc_push q v = (q, Inl v)" for v using spsc_fifo.push_full [OF assms] .
  then show ?thesis
  proof (induction "unat max_spins - unat spins" arbitrary: spins rule: less_induct)
    case less
    then show ?case
    proof (cases "spins \<ge> max_spins")
      case False
      then have "unat (spins + 1) = Suc (unat spins)" "unat spins < unat max_spins"
        using unsigned_less [of max_spins, where ?'a = nat] by (auto simp: unat_word_ariths not_le word_less_nat_alt)
      then show ?thesis using less by (subst push_with_backoff.simps) simp
    qed (simp add: push_with_backoff.simps less.prems)
  qed
qed

lemma forward_push_full:
  assumes "forward_push env n q p = Some y"
  shows "env = (\<lambda>_ _ q. q) \<longrightarrow> ring_rel q xs \<longrightarrow> length xs \<noteq> cap_of q"
  using assms
proof (rule forward_push.raw_induct [where P = "\<lambda>env n q p y. env = (\<lambda>_ _ q. q) \<longrightarrow> ring_rel q xs \<longrightarrow> length xs \<noteq> cap_of q", rotated])
  fix f :: "(nat \<Rightarrow> u32 \<Rightarrow> pkt spsc \<Rightarrow> pkt spsc) \<Rightarrow> nat \<Rightarrow> pkt spsc \<Rightarrow> pkt \<Rightarrow> pkt spsc option" and env n q p y
  assume IH: "\<And>env n q p y. f env n q p = Some y \<Longrightarrow> env = (\<lambda>_ _ q. q) \<longrightarrow> ring_rel q xs \<longrightarrow> length xs \<noteq> cap_of q"
    and body: "(case push_with_backoff (env n) q p 0 1024 of (q', Inl returned) \<Rightarrow> f env (n + 1) (env n 1024 q') returned
      | (q', Inr _) \<Rightarrow> Some q') = Some y"
  show "env = (\<lambda>_ _ q. q) \<longrightarrow> ring_rel q xs \<longrightarrow> length xs \<noteq> cap_of q"
    using IH [of env "n + 1" q p y] body backoff_full [of q xs p 0 1024] by auto
qed

section \<open>Properties\<close>

text \<open>
  C29: The program never shuts down cleanly. Whatever the configuration and whatever the threads do, \<open>main\<close> never gets past
  \<open>recovery_handle.join()\<close>: it holds a sender of the recovery channel itself, so the recovery thread never returns; with the snapshot
  writer enabled it does not even get there, since the writer's handle holds a sender of the writer's channel.
\<close>

theorem shutdown_never_completes:
  assumes "sys_run (program h3 c) (system_start h3 c) s"
  shows "\<not> clean_shutdown s \<and> Recovery_Thread \<notin> sy_ended s \<and> Join Recovery_Thread \<in> set (sy_plan s) \<and>
    (writer_on c \<longrightarrow> Snapshot_Writer \<notin> sy_ended s \<and> Join Snapshot_Writer \<in> set (sy_plan s))"
  using held_open_run [OF assms] by (auto simp: held_open_def clean_shutdown_def)

theorem shutdown_never_completes_witness:
  "\<exists>s rest. sys_run (program False (demo_config\<lparr>ap_feeds := None\<rparr>)) (system_start False (demo_config\<lparr>ap_feeds := None\<rparr>)) s \<and> sy_flag s \<and> sy_plan s = Join Recovery_Thread # rest \<and> \<not> clean_shutdown s"
proof -
  have l: "ws_listeners (demo_config\<lparr>ap_feeds := None\<rparr>) = []" "h3_listeners False (demo_config\<lparr>ap_feeds := None\<rparr>) = []"
      "\<not> writer_on (demo_config\<lparr>ap_feeds := None\<rparr>)"
    by (simp_all add: ws_listeners_def h3_listeners_def writer_on_def demo_config_def)
  show ?thesis using main_reaches_recovery [OF l] shutdown_never_completes by blast
qed

text \<open>
  The minimal ingest program, which joins only its workers, can always still end: from every state it can reach, its workers returning (as they do
  once the flag is up) leads to a state in which \<open>main\<close> is done.
\<close>

theorem ingest_min_can_end:
  assumes "sys_run (ingest_program c) (ingest_start c) s"
  shows "\<exists>s'. sys_run (ingest_program c) s s' \<and> sy_flag s' \<and> clean_shutdown s'"
proof -
  obtain ts where ts: "sy_plan s = map Join ts" "set ts \<subseteq> {t \<in> set (ingest_program c). is_worker t}"
    using ingest_joins [OF assms] by (auto simp: joins_workers_def)
  have "sys_run (ingest_program c) s (raise_flag s)" by (rule sys_next [OF sys_begin ctrl_c])
  note run = workers_return [OF this ts(2)]
  have "sys_run (ingest_program c) s ((fold end_thread ts (raise_flag s))\<lparr>sy_plan := []\<rparr>)"
    by (rule joins_done [OF run, of ts]) (simp_all add: fold_end_thread raise_flag_def ts(1))
  moreover have "sy_flag (fold end_thread ts (raise_flag s))" by (simp add: fold_end_thread raise_flag_def)
  ultimately show ?thesis by (intro exI [of _ "(fold end_thread ts (raise_flag s))\<lparr>sy_plan := []\<rparr>"]) (simp add: clean_shutdown_def)
qed

theorem ingest_min_can_end_witness:
  "\<exists>s'. sys_run (ingest_program demo_config) (end_thread (Rx_A 1) (ingest_start demo_config)) s' \<and> clean_shutdown s'"
proof -
  have "Rx_A 1 \<in> set (ingest_program demo_config)"
    by (simp add: ingest_program_def ingest_workers_def demo_config_def demo_channel_def worker_count_def workers_of_def)
  then have "sys_run (ingest_program demo_config) (ingest_start demo_config) (end_thread (Rx_A 1) (ingest_start demo_config))"
    by (intro sys_next [OF sys_begin worker_returns]) simp_all
  from ingest_min_can_end [OF this] show ?thesis by blast
qed

text \<open>
  C30: A forward blocks for ever once the decoder has stopped: with a full output ring that nobody empties, \<open>forward\<close> never returns, so
  the arbiter never sees the shutdown flag. The decoder leaves its loop as soon as the flag is up, with packets still in the ring.
\<close>

theorem forward_stalls:
  assumes "ring_rel q xs" "length xs = cap_of q"
  shows "forward_push (\<lambda>_ _ q. q) n q p = None"
  using forward_push_full [of "\<lambda>_ _ q. q" n q p] assms by (cases "forward_push (\<lambda>_ _ q. q) n q p") auto

text \<open>A ring of two slots, both taken.\<close>

theorem forward_stalls_witness: "forward_push (\<lambda>_ _ q. q) 0 (fst (pushes spsc_push [demo_pkt 1, demo_pkt 2] (spsc_new 2))) (demo_pkt 3) = None"
proof -
  let ?ps = "[demo_pkt 1, demo_pkt 2]"
  have cap: "cap_of (spsc_new 2 :: pkt spsc) = 2" by code_simp
  obtain q where q: "pushes spsc_push ?ps (spsc_new 2) = (q, replicate (length ?ps) (Inr ()))" "ring_rel q ([] @ ?ps)" "cap_of q = cap_of (spsc_new 2 :: pkt spsc)"
    using spsc_fifo.pushes_room [OF spsc_new_rel, of ?ps 2] unfolding cap by auto
  have "length ([] @ ?ps) = cap_of q" unfolding q(3) cap by simp
  then show ?thesis using forward_stalls [OF q(2)] q(1) by simp
qed

end
