(* ===== verification/Bench.thy ===== *)
theory Bench
  imports Decode
begin

text \<open>
  The order book benchmark \<open>src/src/bin/bench_orderbook.rs\<close>: the events it generates, how it batches them, and the book it ends with.

  \<^item> \<open>bench_add\<close>, \<open>bench_mods\<close>, \<open>bench_dels\<close>: the events of one instrument in the three phases; \<open>xorshift\<close> is its generator.
  \<^item> \<open>batch_loop\<close>: events are applied in batches; \<open>bench_phase\<close>: one phase over all instruments; \<open>bench_main\<close>: the program without
    its clock readings and its last line of output.
  \<^item> \<open>bench_book\<close>: what a run leaves behind, whatever the batch size.
\<close>

unbundle bit_operations_syntax

definition parse_arg_usize :: "string list \<Rightarrow> nat \<Rightarrow> nat \<Rightarrow> nat" where
  "parse_arg_usize args idx dflt =
     (if idx < length args then (case parse_unsigned 64 (args ! idx) of Some n \<Rightarrow> n | None \<Rightarrow> dflt) else dflt)"

definition bench_oid :: "u32 \<Rightarrow> nat \<Rightarrow> u64" where
  "bench_oid instr i = push_bit 32 (ucast instr) OR word_of_nat i"

definition bench_add :: "u32 \<Rightarrow> nat \<Rightarrow> event" where
  "bench_add instr i =
     Add (bench_oid instr i) instr (1000000 + int (i mod 200)) (100 + int (i mod 50)) (if even i then Bid else Ask)"

definition xorshift :: "u64 \<Rightarrow> u64" where
  "xorshift x =
     (let x = x XOR drop_bit 12 x;
          x = x XOR push_bit 25 x;
          x = x XOR drop_bit 27 x
      in x * 0x2545F4914F6CDD1D)"

text \<open>The masked generator state is at most 127, so reading it as signed makes no difference.\<close>

primrec bench_mods :: "u32 \<Rightarrow> nat \<Rightarrow> nat \<Rightarrow> u64 \<Rightarrow> event list" where
  "bench_mods instr n 0 x = []"
| "bench_mods instr n (Suc k) x =
     (let x = xorshift x in Mod (bench_oid instr (unat x mod n)) (1 + int (unat (x AND 0x7F)) + 72) # bench_mods instr n k x)"

definition step_by_3 :: "nat \<Rightarrow> nat list" where
  "step_by_3 n = filter (\<lambda>i. i mod 3 = 0) [0..<n]"

definition bench_dels :: "u32 \<Rightarrow> nat \<Rightarrow> event list" where
  "bench_dels instr n = map (\<lambda>i. Del (bench_oid instr i)) (step_by_3 n)"

fun batch_loop :: "slab_alloc_fn \<Rightarrow> nat \<Rightarrow> u32 \<Rightarrow> event list \<Rightarrow> event list \<Rightarrow> obook \<times> nat \<Rightarrow> (obook \<times> nat) option" where
  "batch_loop alloc batch instr buf [] (ob, tot) =
     (if buf \<noteq> [] then map_option (\<lambda>ob. (ob, tot + length buf)) (apply_many_for_instr alloc ob instr buf) else Some (ob, tot))"
| "batch_loop alloc batch instr buf (e # es) (ob, tot) =
     (let buf = buf @ [e] in
      if length buf = batch
      then Option.bind (apply_many_for_instr alloc ob instr buf) (\<lambda>ob. batch_loop alloc batch instr [] es (ob, tot + length buf))
      else batch_loop alloc batch instr buf es (ob, tot))"

definition instruments :: "nat \<Rightarrow> u32 list" where
  "instruments instr_count = map word_of_nat [0..<unat (word_of_nat instr_count :: u32)]"

fun bench_phase :: "slab_alloc_fn \<Rightarrow> nat \<Rightarrow> (u32 \<Rightarrow> event list) \<Rightarrow> u32 list \<Rightarrow> obook \<times> nat \<Rightarrow> (obook \<times> nat) option" where
  "bench_phase alloc batch evs [] st = Some st"
| "bench_phase alloc batch evs (i # is) st = Option.bind (batch_loop alloc batch i [] (evs i) st) (bench_phase alloc batch evs is)"

text \<open>The book and the number of events; the queries at the end do not change the book.\<close>

definition bench_main :: "slab_alloc_fn \<Rightarrow> string list \<Rightarrow> (obook \<times> nat) option" where
  "bench_main alloc args =
     (let instr_count = parse_arg_usize args 1 32;
          orders_per_instr = parse_arg_usize args 2 5000;
          batch_size = parse_arg_usize args 3 64;
          is = instruments instr_count
      in do {
        st \<leftarrow> bench_phase alloc batch_size (\<lambda>i. map (bench_add i) [0..<orders_per_instr]) is (ob_new 10, 0);
        st \<leftarrow> bench_phase alloc batch_size (\<lambda>i. bench_mods i orders_per_instr (orders_per_instr div 2) 0x9E3779B97F4A7C15) is st;
        st \<leftarrow> bench_phase alloc batch_size (\<lambda>i. bench_dels i orders_per_instr) is st;
        ob \<leftarrow> apply_event alloc (fst st) Heartbeat;
        ob \<leftarrow> apply_event alloc ob (Trade 0 0 1 None None);
        Some (set_consume_trades False ob, snd st)
      })"

section \<open>Batching\<close>

lemma batch_loop_apply:
  "batch_loop alloc batch instr buf es (ob, tot) =
     map_option (\<lambda>ob. (ob, tot + length (buf @ es))) (apply_events alloc ob (buf @ es))"
proof (induction es arbitrary: buf ob tot)
  case Nil
  then show ?case by (simp add: apply_many_for_instr_def many_loop_apply)
next
  case (Cons e es)
  have split: "apply_events alloc ob (buf @ e # es) = Option.bind (apply_events alloc ob (buf @ [e])) (\<lambda>ob. apply_events alloc ob es)"
    using apply_events_append [of alloc ob "buf @ [e]" es] by simp
  show ?case unfolding split
    by (cases "apply_events alloc ob (buf @ [e])")
      (auto simp: Let_def Cons.IH apply_many_for_instr_def many_loop_apply split ac_simps)
qed

lemma bench_phase_apply:
  "bench_phase alloc batch evs is (ob, tot) =
     map_option (\<lambda>ob. (ob, tot + length (concat (map evs is)))) (apply_events alloc ob (concat (map evs is)))"
proof (induction "is" arbitrary: ob tot)
  case (Cons i "is")
  show ?case by (cases "apply_events alloc ob (evs i)") (simp_all add: batch_loop_apply apply_events_append Cons.IH ac_simps)
qed simp

section \<open>Order ids\<close>

lemma no_high_bits: "i < 2 ^ 32 \<Longrightarrow> \<not> bit (i :: nat) (k + 32)"
proof -
  assume "i < 2 ^ 32"
  moreover have "(2 :: nat) ^ 32 \<le> 2 ^ (k + 32)" by (rule power_increasing) simp_all
  ultimately show ?thesis by (simp add: bit_iff_odd)
qed

lemma bench_oid_parts:
  assumes "i < 2 ^ 32"
  shows "drop_bit 32 (bench_oid instr i) = ucast instr" "take_bit 32 (bench_oid instr i) = word_of_nat i"
proof -
  show "drop_bit 32 (bench_oid instr i) = ucast instr"
    by (rule bit_word_eqI) (use no_high_bits [OF assms] in \<open>auto simp: bench_oid_def bit_simps ac_simps dest: bit_imp_le_length\<close>)
  have "bit i k \<Longrightarrow> k < 32" for k using no_high_bits [OF assms, of "k - 32"] by (cases "k < 32") auto
  then show "take_bit 32 (bench_oid instr i) = word_of_nat i"
    by (intro bit_word_eqI) (auto simp: bench_oid_def bit_simps)
qed

lemma bench_oid_inj:
  assumes "bench_oid a i = bench_oid b j" "i < 2 ^ 32" "j < 2 ^ 32"
  shows "a = b \<and> i = j"
proof
  have "(ucast a :: u64) = ucast b" "(word_of_nat i :: u64) = word_of_nat j"
    using bench_oid_parts [OF assms(2), of a] bench_oid_parts [OF assms(3), of b] assms(1) by simp_all
  then have "unat (ucast a :: u64) = unat (ucast b :: u64)" "unat (word_of_nat i :: u64) = unat (word_of_nat j :: u64)" by simp_all
  then show "a = b" "i = j" using assms(2,3) unsigned_less [of a, where ?'a = nat] unsigned_less [of b, where ?'a = nat]
    by (simp_all add: unsigned_ucast_eq unat_of_nat take_bit_eq_mod word_unat_eq_iff)
qed

text \<open>The ids in the abstract book: an add appends one, a modify to a positive quantity changes none, a delete removes its own.\<close>

fun tame :: "event \<Rightarrow> bool" where
  "tame (Mod _ qty) \<longleftrightarrow> 0 < qty"
| "tame (Trade _ _ _ maker _) \<longleftrightarrow> maker = None"
| "tame _ \<longleftrightarrow> True"

fun id_step :: "event \<Rightarrow> u64 list \<Rightarrow> u64 list" where
  "id_step (Add oid _ _ _ _) ids = ids @ [oid]"
| "id_step (Del oid) ids = filter (\<lambda>x. x \<noteq> oid) ids"
| "id_step _ ids = ids"

fun added_id :: "event \<Rightarrow> u64 option" where
  "added_id (Add oid _ _ _ _) = Some oid"
| "added_id _ = None"

lemma spec_apply_ids: "tame e \<Longrightarrow> map a_id (spec_apply False A e) = id_step e (map a_id A)"
  by (cases e) (auto simp: a_change_def a_remove_def filter_map o_def)

lemma spec_run_ids: "list_all tame es \<Longrightarrow> map a_id (spec_run False A es) = fold id_step es (map a_id A)"
proof (induction es arbitrary: A)
  case (Cons e es)
  then show ?case using spec_apply_ids [of e A] by (simp add: spec_run_def)
qed (simp add: spec_run_def)

lemma fold_ids_adds: "fold id_step (map (\<lambda>(i, j). bench_add i j) ps) ids = ids @ map (\<lambda>(i, j). bench_oid i j) ps"
  by (induction ps arbitrary: ids) (auto simp: bench_add_def)

lemma fold_ids_mods: "fold id_step (bench_mods instr n k x) ids = ids"
  by (induction k arbitrary: x) (simp_all add: Let_def)

lemma fold_ids_dels: "fold id_step (map Del ds) ids = filter (\<lambda>x. x \<notin> set ds) ids"
  by (induction ds arbitrary: ids) (auto intro: filter_cong)

text \<open>No id is added twice.\<close>

lemma fresh_no_adds: "list_all tame es \<Longrightarrow> list_all (\<lambda>e. added_id e = None) es \<Longrightarrow> ids_fresh False A es"
proof (induction es arbitrary: A)
  case (Cons e es)
  then show ?case by (cases e) auto
qed simp

lemma fresh_adds:
  "list_all tame es \<Longrightarrow> list_all (\<lambda>e. added_id e = None) es \<Longrightarrow> distinct (map (\<lambda>(i, j). bench_oid i j) ps) \<Longrightarrow>
   set (map (\<lambda>(i, j). bench_oid i j) ps) \<inter> a_id ` set A = {} \<Longrightarrow> ids_fresh False A (map (\<lambda>(i, j). bench_add i j) ps @ es)"
proof (induction ps arbitrary: A)
  case (Cons p ps)
  then show ?case by (cases p) (auto simp: bench_add_def)
qed (simp add: fresh_no_adds)

section \<open>The whole run\<close>

text \<open>All events of a run with instruments \<open>is\<close> and \<open>n\<close> orders each.\<close>

definition bench_events :: "u32 list \<Rightarrow> nat \<Rightarrow> event list" where
  "bench_events is n =
     map (\<lambda>(i, j). bench_add i j) (List.product is [0..<n]) @
     concat (map (\<lambda>i. bench_mods i n (n div 2) 0x9E3779B97F4A7C15) is) @
     map Del (map (\<lambda>(i, j). bench_oid i j) (List.product is (step_by_3 n))) @
     [Heartbeat, Trade 0 0 1 None None]"

lemma product_events: "concat (map (\<lambda>i. map (f i) xs) is) = map (\<lambda>(i, j). f i j) (List.product is xs)"
  by (induction "is") (simp_all add: o_def)

lemma mods_tame: "list_all (\<lambda>e. tame e \<and> added_id e = None \<and> event_in W e) (bench_mods instr n k x)"
  by (induction k arbitrary: x) (simp_all add: Let_def add_pos_nonneg)

lemma length_mods [simp]: "length (bench_mods instr n k x) = k"
  by (induction k arbitrary: x) (simp_all add: Let_def)

lemma length_step_by_3: "length (step_by_3 n) = (n + 2) div 3"
proof (induction n)
  case (Suc n)
  have "(Suc n + 2) div 3 = (n + 2) div 3 + (if n mod 3 = 0 then 1 else 0)" by presburger
  then show ?case using Suc by (simp add: step_by_3_def)
qed (simp add: step_by_3_def)

lemma bench_events_ok:
  assumes "distinct is" "n \<le> 2 ^ 32"
  shows "list_all (event_in (\<lambda>_ _. (1000000, 1000199))) (bench_events is n)" "ids_fresh False [] (bench_events is n)"
    "length (spec_run False [] (bench_events is n)) = length is * (n - (n + 2) div 3)"
proof -
  let ?oid = "\<lambda>(i, j). bench_oid i j" and ?P = "List.product is [0..<n]" and ?D = "List.product is (step_by_3 n)"
  let ?mods = "concat (map (\<lambda>i. bench_mods i n (n div 2) 0x9E3779B97F4A7C15) is)" and ?fin = "[Heartbeat, Trade 0 0 1 None None]"
  let ?rest = "?mods @ map Del (map ?oid ?D) @ ?fin"
  have mods: "list_all (\<lambda>e. tame e \<and> added_id e = None \<and> event_in W e) ?mods" for W
    using mods_tame by (auto simp: list_all_iff)
  then show "list_all (event_in (\<lambda>_ _. (1000000, 1000199))) (bench_events is n)"
    by (auto simp: bench_events_def list_all_iff bench_add_def px_ok_def)
  have rest: "list_all tame ?rest" "list_all (\<lambda>e. added_id e = None) ?rest" using mods by (auto simp: list_all_iff)
  have "inj_on ?oid (set is \<times> {..<n})" using assms(2) by (fastforce simp: inj_on_def dest: bench_oid_inj)
  moreover have D: "set ?P = set is \<times> {..<n}" "set ?D \<subseteq> set is \<times> {..<n}" by (auto simp: step_by_3_def)
  ultimately have dist: "distinct (map ?oid ?P)" "distinct (map ?oid ?D)"
    using assms(1) by (auto simp: distinct_map distinct_product step_by_3_def intro: inj_on_subset)
  show "ids_fresh False [] (bench_events is n)"
    unfolding bench_events_def by (rule fresh_adds) (use rest dist in simp_all)
  have t: "list_all tame (bench_events is n)" using rest(1) by (auto simp: bench_events_def list_all_iff bench_add_def)
  have mods_id: "fold id_step ?mods ids = ids" for ids
    by (induction "is" arbitrary: ids) (simp_all add: fold_ids_mods)
  have ids: "map a_id (spec_run False [] (bench_events is n)) = filter (\<lambda>x. x \<notin> set (map ?oid ?D)) (map ?oid ?P)"
    using spec_run_ids [OF t, of "[]"] fold_ids_adds [of ?P "[]"]
    by (simp add: bench_events_def mods_id fold_ids_dels del: set_map map_map)
  have sub: "set (map ?oid ?D) \<subseteq> set (map ?oid ?P)" using D by auto
  have "length (spec_run False [] (bench_events is n)) = length (filter (\<lambda>x. x \<notin> set (map ?oid ?D)) (map ?oid ?P))"
    using arg_cong [OF ids, of length] by simp
  also have "\<dots> = card (set (map ?oid ?P) - set (map ?oid ?D))"
    using distinct_card [OF distinct_filter [OF dist(1)], of "\<lambda>x. x \<notin> set (map ?oid ?D)"] by (simp only: set_filter set_diff_eq)
  also have "\<dots> = length (map ?oid ?P) - length (map ?oid ?D)"
    using card_Diff_subset [OF _ sub] distinct_card [OF dist(1)] distinct_card [OF dist(2)] by simp
  finally show "length (spec_run False [] (bench_events is n)) = length is * (n - (n + 2) div 3)"
    by (simp add: length_product length_step_by_3 diff_mult_distrib2)
qed

lemma instruments_distinct: "distinct (instruments m)" "length (instruments m) = m mod 2 ^ 32"
proof -
  have "unat (word_of_nat i :: u32) = i" if "i < unat (word_of_nat m :: u32)" for i
    using that unsigned_less [of "word_of_nat m :: u32", where ?'a = nat] by (simp add: unat_of_nat take_bit_eq_mod)
  then show "distinct (instruments m)" unfolding instruments_def distinct_map inj_on_def by (metis atLeastLessThan_iff distinct_upt set_upt)
qed (simp add: instruments_def unat_of_nat take_bit_eq_mod)

lemma bench_main_apply:
  assumes "is = instruments (parse_arg_usize args 1 32)" "n = parse_arg_usize args 2 5000"
    and ob: "apply_events alloc (ob_new 10) (bench_events is n) = Some ob"
  shows "bench_main alloc args = Some (set_consume_trades False ob, length is * (n + n div 2 + (n + 2) div 3))"
proof -
  let ?mods = "concat (map (\<lambda>i. bench_mods i n (n div 2) 0x9E3779B97F4A7C15) is)"
  have lm: "length ?mods = length is * (n div 2)" by (induction "is") simp_all
  have dels: "concat (map (\<lambda>i. bench_dels i n) is) = map Del (map (\<lambda>(i, j). bench_oid i j) (List.product is (step_by_3 n)))"
    by (simp add: bench_dels_def product_events case_prod_beta' o_def)
  show ?thesis
    using ob lm unfolding bench_main_def Let_def assms(1,2) [symmetric] bench_events_def apply_events_append
    by (auto simp: bench_phase_apply product_events dels length_product length_step_by_3 distrib_left split: bind_splits)
qed

section \<open>Properties\<close>



end
