(* ===== verification/Snapshot.thy ===== *)
theory Snapshot
  imports Book_Export Bytes Util
begin

text \<open>
  Snapshot files, \<open>src/src/snapshot.rs\<close>, and their use at start-up in \<open>src/src/main.rs\<close>.

  The file system is a map from paths (directory and file name) to contents. Every system call that can fail is told by an
  argument \<open>io\<close> whether it does; a failed write leaves any prefix of the data. \<open>bincode\<close> is another library: its two
  functions \<open>ser\<close> and \<open>de\<close> are arguments. \<open>run_writer\<close> is the writer thread over the exports it receives.
\<close>

type_synonym path = "string \<times> string"
type_synonym fs = "path \<Rightarrow> bytes option"

datatype snap_error =
    Serialize_Failed
  | Create_Failed
  | Write_Failed
  | Rename_Failed
  | Open_Failed
  | Read_Failed
  | Too_Small
  | Bad_Magic
  | Unsupported_Version u32
  | Deserialize_Failed

definition SNAP_MAGIC :: bytes where
  "SNAP_MAGIC = [79, 66, 83, 78, 65, 80, 0, 0]"

section \<open>Paths\<close>

text \<open>Stem and extension of a file name: the last dot separates them unless it is the first character.\<close>

definition ext_parts :: "string \<Rightarrow> string \<times> string option" where
  "ext_parts f = (case split_once CHR ''.'' (rev f) of
     None \<Rightarrow> (f, None)
   | Some (a, b) \<Rightarrow> if b = [] then (f, None) else (rev b, Some (rev a)))"

definition has_file_name :: "path \<Rightarrow> bool" where
  "has_file_name p \<longleftrightarrow> snd p \<notin> {[], ''.'', ''..''}"

definition tmp_path :: "path \<Rightarrow> path" where
  "tmp_path p =
     (if has_file_name p then
        (case ext_parts (snd p) of (stem, e) \<Rightarrow>
           (fst p, stem @ ''.'' @ (case e of Some e \<Rightarrow> e | None \<Rightarrow> ''tmp'') @ ''.partial''))
      else p)"

section \<open>Operations\<close>

record io =
  io_create :: bool
  io_written :: "nat option"
  io_rename :: bool

definition snapshot_bytes :: "u64 \<Rightarrow> bytes \<Rightarrow> bytes" where
  "snapshot_bytes ts_ns body = SNAP_MAGIC @ to_be (1 :: u32) @ to_be ts_ns @ body"

definition write_atomic ::
  "(book_export \<Rightarrow> bytes option) \<Rightarrow> u64 \<Rightarrow> io \<Rightarrow> path \<Rightarrow> book_export \<Rightarrow> fs \<Rightarrow> fs \<times> (snap_error + unit)" where
  "write_atomic ser ts_ns io path e fs = (case ser e of
     None \<Rightarrow> (fs, Inl Serialize_Failed)
   | Some body \<Rightarrow>
       let payload = snapshot_bytes ts_ns body; tmp = tmp_path path in
       if \<not> io_create io then (fs, Inl Create_Failed)
       else case io_written io of
         Some k \<Rightarrow> (fs(tmp \<mapsto> take k payload), Inl Write_Failed)
       | None \<Rightarrow>
           let fs = fs(tmp \<mapsto> payload) in
           if io_rename io then (fs(tmp := None, path \<mapsto> payload), Inr ())
           else (fs, Inl Rename_Failed))"

definition load ::
  "slab_alloc_fn \<Rightarrow> (bytes \<Rightarrow> book_export option) \<Rightarrow> bool \<Rightarrow> path \<Rightarrow> fs \<Rightarrow> (snap_error + obook) option" where
  "load alloc de readable path fs = (case fs path of
     None \<Rightarrow> Some (Inl Open_Failed)
   | Some v \<Rightarrow>
       if \<not> readable then Some (Inl Read_Failed)
       else if length v < 8 + 4 + 8 then Some (Inl Too_Small)
       else if take 8 v \<noteq> SNAP_MAGIC then Some (Inl Bad_Magic)
       else let ver = (from_be (take 4 (drop 8 v)) :: u32) in
         if ver \<noteq> 1 then Some (Inl (Unsupported_Version ver))
         else case de (drop 20 v) of
           None \<Rightarrow> Some (Inl Deserialize_Failed)
         | Some e \<Rightarrow> map_option Inr (from_export alloc e))"

fun run_writer :: "(book_export \<Rightarrow> bytes option) \<Rightarrow> path \<Rightarrow> (u64 \<times> io \<times> book_export) list \<Rightarrow> fs \<Rightarrow> fs" where
  "run_writer ser path [] fs = fs"
| "run_writer ser path ((ts_ns, io, e) # xs) fs = run_writer ser path xs (fst (write_atomic ser ts_ns io path e fs))"

text \<open>\<open>main\<close>: a snapshot that cannot be loaded means an empty start.\<close>

definition initial_book ::
  "slab_alloc_fn \<Rightarrow> (bytes \<Rightarrow> book_export option) \<Rightarrow> bool \<Rightarrow> bool \<Rightarrow> path \<Rightarrow> fs \<Rightarrow> obook option option" where
  "initial_book alloc de load_on_start readable path fs =
     (if load_on_start then
        map_option (\<lambda>r. case r of Inr book \<Rightarrow> Some book | Inl e \<Rightarrow> None) (load alloc de readable path fs)
      else Some None)"

section \<open>Laws\<close>

lemma split_once_Some: "split_once c s = Some (a, b) \<Longrightarrow> s = a @ c # b"
  by (induction s arbitrary: a) (auto split: if_splits)

lemma tmp_path_neq: "has_file_name p \<Longrightarrow> tmp_path p \<noteq> p"
proof -
  assume h: "has_file_name p"
  have "length (snd (tmp_path p)) > length (snd p)"
  proof (cases "split_once CHR ''.'' (rev (snd p))")
    case (Some ab)
    obtain a b where ab: "ab = (a, b)" by (cases ab)
    have "length (rev (snd p)) = length (a @ CHR ''.'' # b)" using split_once_Some Some ab by fastforce
    then show ?thesis using h Some ab by (simp add: tmp_path_def ext_parts_def)
  qed (use h in \<open>simp add: tmp_path_def ext_parts_def\<close>)
  then show "tmp_path p \<noteq> p" by auto
qed

definition write_ok :: "(book_export \<Rightarrow> bytes option) \<Rightarrow> io \<Rightarrow> book_export \<Rightarrow> bool" where
  "write_ok ser io e \<longleftrightarrow> ser e \<noteq> None \<and> io_create io \<and> io_written io = None \<and> io_rename io"

lemma write_atomic_law:
  assumes "has_file_name path"
  shows "fst (write_atomic ser ts io path e fs) path =
      (if write_ok ser io e then Some (snapshot_bytes ts (the (ser e))) else fs path)"
    "\<And>q. q \<noteq> path \<Longrightarrow> q \<noteq> tmp_path path \<Longrightarrow> fst (write_atomic ser ts io path e fs) q = fs q"
    "(snd (write_atomic ser ts io path e fs) = Inr ()) = write_ok ser io e"
  using tmp_path_neq [OF assms]
  by (auto simp: write_atomic_def write_ok_def Let_def split: option.splits)

lemma run_writer_append: "run_writer ser path (xs @ ys) fs = run_writer ser path ys (run_writer ser path xs fs)"
  by (induction ser path xs fs rule: run_writer.induct) simp_all

lemma run_writer_failing:
  assumes "has_file_name path" "\<forall>(ts, io, e) \<in> set xs. \<not> write_ok ser io e"
  shows "run_writer ser path xs fs path = fs path"
  using assms by (induction ser path xs fs rule: run_writer.induct) (auto simp: write_atomic_law)

lemma load_snapshot_bytes:
  assumes "fs path = Some (snapshot_bytes ts body)" "de body = Some e"
  shows "load alloc de True path fs = map_option Inr (from_export alloc e)"
  using assms by (simp add: load_def snapshot_bytes_def SNAP_MAGIC_def)

section \<open>Properties\<close>

text \<open>
  C11: A restart recovers the last snapshot that was written completely. Whatever the writer thread did before, and however
  its later attempts failed (serialization, creating the file, writing any part of it, renaming it), loading the snapshot file
  succeeds and gives a book with the orders of the exported one, in the same queues.
\<close>

theorem snapshot_recovers:
  assumes "slab_alloc alloc" "hm_iter iter" "hm_iter iter_books" "ob_rel ob A" "finite (dom (books ob))"
    and "\<forall>e b. ser e = Some b \<longrightarrow> de b = Some e"
    and "has_file_name path"
    and "export iter iter_books ob = Some e" "write_ok ser io e" "\<forall>(ts, io, e) \<in> set later. \<not> write_ok ser io e"
  shows "\<exists>ob' A'. initial_book alloc de True True path (run_writer ser path (earlier @ (ts, io, e) # later) fs) = Some (Some ob') \<and>
    ob_rel ob' A' \<and> mset A' = mset A \<and> (\<forall>i s p. a_level A' i s p = a_level A i s p)"
proof -
  obtain ob' A' where R: "from_export alloc e = Some ob'" "ob_rel ob' A'" "mset A' = mset A" "\<forall>i s p. a_level A' i s p = a_level A i s p"
    using export_import [OF assms(1-5)] assms(8) by (metis option.inject)
  have "run_writer ser path (earlier @ (ts, io, e) # later) fs path = Some (snapshot_bytes ts (the (ser e)))"
    using run_writer_failing [OF assms(7,10)] assms(9) by (simp add: run_writer_append write_atomic_law [OF assms(7)])
  moreover have "de (the (ser e)) = Some e" using assms(6,9) by (auto simp: write_ok_def)
  ultimately have "initial_book alloc de True True path (run_writer ser path (earlier @ (ts, io, e) # later) fs) = Some (Some ob')"
    using load_snapshot_bytes R(1) by (simp add: initial_book_def)
  then show ?thesis using R by blast
qed

definition demo_ser :: "book_export \<Rightarrow> bytes option" where
  "demo_ser e = (if e = \<lparr>be_version = 1, be_instruments = []\<rparr> then Some [1] else None)"

definition demo_de :: "bytes \<Rightarrow> book_export option" where
  "demo_de b = (if b = [1] then Some \<lparr>be_version = 1, be_instruments = []\<rparr> else None)"

theorem snapshot_recovers_witness:
  "tmp_path (''d'', ''book.snap'') = (''d'', ''book.snap.partial'') \<and>
   (\<exists>ob' A'. initial_book first_free demo_de True True (''d'', ''book.snap'')
      (run_writer demo_ser (''d'', ''book.snap'')
        [(5, \<lparr>io_create = True, io_written = None, io_rename = True\<rparr>, \<lparr>be_version = 1, be_instruments = []\<rparr>),
         (6, \<lparr>io_create = True, io_written = Some 3, io_rename = True\<rparr>, \<lparr>be_version = 1, be_instruments = []\<rparr>)] (\<lambda>_. None)) =
      Some (Some ob') \<and> ob_rel ob' A' \<and> mset A' = {#})"
proof -
  have t: "tmp_path (''d'', ''book.snap'') = (''d'', ''book.snap.partial'')" by code_simp
  let ?it = "\<lambda>m. sorted_list_of_set (dom m)"
  have rel: "ob_rel (ob_new 10) []" using ob_new_with_grid_rel by (simp add: ob_new_grid)
  have fin: "finite (dom (books (ob_new 10)))" by (simp add: ob_new_def)
  have codec: "\<forall>e b. demo_ser e = Some b \<longrightarrow> demo_de b = Some e" by (auto simp: demo_ser_def demo_de_def split: if_splits)
  have ex: "export ?it ?it (ob_new 10) = Some \<lparr>be_version = 1, be_instruments = []\<rparr>" by (simp add: export_def ob_new_def)
  have n: "has_file_name (''d'', ''book.snap'')" by (simp add: has_file_name_def)
  have w: "write_ok demo_ser \<lparr>io_create = True, io_written = None, io_rename = True\<rparr> \<lparr>be_version = 1, be_instruments = []\<rparr>"
    by (simp add: write_ok_def demo_ser_def)
  have l: "\<forall>(ts, io, e) \<in> set [(6 :: u64, \<lparr>io_create = True, io_written = Some 3, io_rename = True\<rparr>,
      \<lparr>be_version = 1, be_instruments = []\<rparr>)]. \<not> write_ok demo_ser io e"
    by (simp add: write_ok_def)
  from snapshot_recovers [OF first_free_alloc sorted_iter sorted_iter rel fin codec n ex w l, where earlier = "[]" and ts = 5
      and fs = "\<lambda>_. None"]
  show ?thesis using t by (auto simp del: run_writer.simps)
qed

end
