(* ===== verification/Feed_Server.thy ===== *)
theory Feed_Server
  imports Pubsub Snapshot
begin

text \<open>
  The client connections of \<open>src/src/ws_server.rs\<close> and \<open>src/src/h3_server.rs\<close>.

  \<^item> URL parsing belongs to another library: \<open>url_pairs\<close> gives the query pairs of a request or \<open>None\<close>.
  \<^item> \<open>snapshot_msgs\<close>: the messages of a book snapshot; the two servers differ in the instrument of the header message.
  \<^item> \<open>ws_handle\<close>: a WebSocket connection from the handshake to its end, over the operations on the bus after it has
    subscribed; \<open>h3_stream\<close>: the same for an HTTP/3 request. The outcome is what was sent. A failing send ends the connection early and
    leaves a prefix.
\<close>

section \<open>Certificates\<close>

text \<open>
  The certificate and key of the HTTP/3 listener: the configured files if both can be read and parsed and the key has the expected form, a self-signed pair
  otherwise. Reading files, the PEM parser and the generator are arguments.
\<close>

datatype 'k pem_item = PKCS8_Key 'k | Other_Item

definition load_or_gen ::
  "(string \<Rightarrow> bytes option) \<Rightarrow> (bytes \<Rightarrow> 'c list option) \<Rightarrow> (bytes \<Rightarrow> 'k pem_item option option) \<Rightarrow> 'c \<times> 'k \<Rightarrow>
   string option \<Rightarrow> string option \<Rightarrow> 'c list \<times> 'k" where
  "load_or_gen read certs read_one generated cert_path key_path =
     (let self_signed = ([fst generated], snd generated) in
      case (cert_path, key_path) of
        (Some c, Some k) \<Rightarrow>
          (case (read c, read k) of
             (Some cb, Some kb) \<Rightarrow>
               (case (certs cb, read_one kb) of
                  (Some cs, Some (Some (PKCS8_Key key))) \<Rightarrow> (cs, key)
                | _ \<Rightarrow> self_signed)
           | _ \<Rightarrow> self_signed)
      | _ \<Rightarrow> self_signed)"

text \<open>A configured file that cannot be used is silently replaced by a self-signed pair.\<close>

lemma load_or_gen_fallback:
  "read k = None \<Longrightarrow> load_or_gen read certs read_one generated (Some c) (Some k) = ([fst generated], snd generated)"
  by (simp add: load_or_gen_def Let_def split: option.splits)

section \<open>Requests\<close>

definition query_step :: "string \<times> string \<Rightarrow> u64 option \<times> bool \<Rightarrow> u64 option \<times> bool" where
  "query_step kv acc = (case kv of (k, v) \<Rightarrow> case acc of (from_seq, snap) \<Rightarrow>
     if k = ''from_seq'' then
       (case parse_unsigned 64 v of Some n \<Rightarrow> (Some (word_of_nat n), snap) | None \<Rightarrow> (from_seq, snap))
     else if k = ''snapshot'' then (from_seq, v = ''1'' \<or> v = ''true'')
     else (from_seq, snap))"

definition parse_query :: "(string \<Rightarrow> (string \<times> string) list option) \<Rightarrow> string \<Rightarrow> u64 option \<times> bool" where
  "parse_query url_pairs uri = (case url_pairs (''http://localhost'' @ uri) of
     Some kvs \<Rightarrow> fold query_step kvs (None, False)
   | None \<Rightarrow> (None, False))"

definition parse_query_params :: "(string \<Rightarrow> (string \<times> string) list option) \<Rightarrow> string \<Rightarrow> u64 option \<times> bool" where
  "parse_query_params url_pairs qs =
     (if qs = [] then (None, False)
      else case url_pairs (''http://localhost/?'' @ qs) of
        Some kvs \<Rightarrow> fold query_step kvs (None, False)
      | None \<Rightarrow> (None, False))"

definition auth_ok :: "string option \<Rightarrow> string option \<Rightarrow> bool" where
  "auth_ok auth_token header = (case auth_token of
     Some token \<Rightarrow> (case header of Some v \<Rightarrow> v = ''Bearer '' @ token | None \<Rightarrow> False)
   | None \<Rightarrow> True)"

section \<open>Snapshots on the wire\<close>

type_synonym message = "u16 \<times> bytes \<times> u64"

definition order_add :: "order_export \<Rightarrow> obo_event" where
  "order_add x = Obo_Add \<lparr>oa_order_id = oe_order_id x, oa_price_e8 = oe_price x, oa_qty = i64_as_u64 (oe_qty x),
     oa_side = side_byte (oe_side x), oa_flags = 0\<rparr>"

definition order_msg :: "u32 \<Rightarrow> order_export \<Rightarrow> message" where
  "order_msg i x = (case obo_bytes (order_add x) of (ty, pl) \<Rightarrow> (ty, pl, ucast i))"

definition instrument_msgs :: "(u32 \<Rightarrow> u64) \<Rightarrow> instrument_export \<Rightarrow> message list" where
  "instrument_msgs hdr_instr ie =
     (104, snapshot_hdr_bytes \<lparr>sh_level_count = 0, sh_total_orders = word_of_nat (length (ie_orders ie))\<rparr>, hdr_instr (ie_instr ie))
       # map (order_msg (ie_instr ie)) (ie_orders ie)"

definition snapshot_msgs :: "(u32 \<Rightarrow> u64) \<Rightarrow> book_export \<Rightarrow> message list" where
  "snapshot_msgs hdr_instr e =
     [(3, [], 0)] @ concat (map (instrument_msgs hdr_instr) (be_instruments e)) @ [(4, [], 0)]"

definition ws_hdr_instr :: "u32 \<Rightarrow> u64" where
  "ws_hdr_instr i = 0"

definition h3_hdr_instr :: "u32 \<Rightarrow> u64" where
  "h3_hdr_instr i = ucast i"

fun msg_frame :: "u64 \<Rightarrow> message \<Rightarrow> bytes" where
  "msg_frame now (ty, pl, instr) = build_frame now ty pl instr 0"

definition msg_frames :: "clock \<Rightarrow> message list \<Rightarrow> bytes list" where
  "msg_frames clk ms = map (\<lambda>(k, m). msg_frame (clk k) m) (enumerate 0 ms)"

section \<open>Connections\<close>

text \<open>
  The snapshot phase: \<open>book\<close> is the outcome of loading the configured snapshot file (\<open>None\<close>: no file configured or not loadable).
  \<open>book.export()\<close> may panic.
\<close>

definition snapshot_phase ::
  "((u64 \<rightharpoonup> u32 \<times> handle) \<Rightarrow> u64 list) \<Rightarrow> ((u32 \<rightharpoonup> ibook) \<Rightarrow> u32 list) \<Rightarrow> (u32 \<Rightarrow> u64) \<Rightarrow> clock \<Rightarrow> bool \<Rightarrow> obook option \<Rightarrow>
   bytes list option" where
  "snapshot_phase iter_idx iter_books hdr_instr clk snap book =
     (if snap then
        (case book of
           Some ob \<Rightarrow> map_option (\<lambda>e. msg_frames clk (snapshot_msgs hdr_instr e)) (export iter_idx iter_books ob)
         | None \<Rightarrow> Some [])
      else Some [])"

definition start_cursor :: "u64 option \<Rightarrow> bus \<Rightarrow> subscription" where
  "start_cursor from_seq b = (case from_seq of
     Some g \<Rightarrow> set_cursor g (subscribe b)
   | None \<Rightarrow> set_cursor_to_tail b (subscribe b))"

text \<open>
  A WebSocket connection. The bus as it is once the snapshot has been sent is \<open>b\<close>; \<open>ops\<close> follows. A gap is reported in a \<open>GAP\<close>
  frame, the last one.
\<close>

definition ws_stream :: "u64 \<Rightarrow> u64 option \<Rightarrow> bus \<Rightarrow> bus_op list \<Rightarrow> bytes list" where
  "ws_stream now from_seq b ops = (case session ops (bus_ring b) (start_cursor from_seq b) [] of
     (r, s, got, g) \<Rightarrow> got @ (case g of
        Some (lo, hi) \<Rightarrow> [build_frame now 2 (gap_bytes \<lparr>gap_from = lo, gap_to = hi\<rparr>) 0 0]
      | None \<Rightarrow> []))"

datatype ws_outcome = Unauthorized | Sent "bytes list"

definition ws_handle ::
  "(string \<Rightarrow> (string \<times> string) list option) \<Rightarrow> ((u64 \<rightharpoonup> u32 \<times> handle) \<Rightarrow> u64 list) \<Rightarrow> ((u32 \<rightharpoonup> ibook) \<Rightarrow> u32 list) \<Rightarrow>
   string option \<Rightarrow> string option \<Rightarrow> string \<Rightarrow> obook option \<Rightarrow> clock \<Rightarrow> u64 \<Rightarrow> bus \<Rightarrow> bus_op list \<Rightarrow> ws_outcome option" where
  "ws_handle url_pairs iter_idx iter_books auth_token header uri book clk now b ops =
     (if \<not> auth_ok auth_token header then Some Unauthorized
      else case parse_query url_pairs uri of (from_seq, snap) \<Rightarrow>
        map_option (\<lambda>fs. Sent (fs @ ws_stream now from_seq b ops))
          (snapshot_phase iter_idx iter_books ws_hdr_instr clk snap book))"

text \<open>
  An HTTP/3 request subscribes before the snapshot is sent: \<open>b\<close> is the bus at that moment and the publications during the
  snapshot are part of \<open>ops\<close>. It asks for no token and a gap just ends the stream.
\<close>

definition h3_stream ::
  "(string \<Rightarrow> (string \<times> string) list option) \<Rightarrow> ((u64 \<rightharpoonup> u32 \<times> handle) \<Rightarrow> u64 list) \<Rightarrow> ((u32 \<rightharpoonup> ibook) \<Rightarrow> u32 list) \<Rightarrow>
   string \<Rightarrow> obook option \<Rightarrow> clock \<Rightarrow> bus \<Rightarrow> bus_op list \<Rightarrow> bytes list option" where
  "h3_stream url_pairs iter_idx iter_books query book clk b ops =
     (case parse_query_params url_pairs query of (from_seq, snap) \<Rightarrow>
        map_option (\<lambda>fs. fs @ (case session ops (bus_ring b) (start_cursor from_seq b) [] of (r, s, got, g) \<Rightarrow> got))
          (snapshot_phase iter_idx iter_books h3_hdr_instr clk snap book))"


section \<open>Reading a snapshot back\<close>

text \<open>A reader of the documented layout: the orders of the add messages, with their instruments.\<close>

definition read_order :: "bytes \<Rightarrow> (u64 \<times> order_export) option" where
  "read_order f = (case parse_frame f of
     None \<Rightarrow> None
   | Some (h, pl) \<Rightarrow> (case parse_obo (fh_message_type h) pl of
       Some (Obo_Add p) \<Rightarrow> Some (fh_instrument_id h, \<lparr>oe_order_id = oa_order_id p, oe_price = oa_price_e8 p,
         oe_qty = sint (oa_qty p), oe_side = (if oa_side p = 0 then Bid else Ask)\<rparr>)
     | _ \<Rightarrow> None))"

definition order_ok :: "order_export \<Rightarrow> bool" where
  "order_ok x \<longleftrightarrow> i64_ok (oe_price x) \<and> i64_ok (oe_qty x)"

definition exported_orders :: "instrument_export \<Rightarrow> (u64 \<times> order_export) list" where
  "exported_orders ie = map (Pair (ucast (ie_instr ie))) (ie_orders ie)"

lemma side_from_byte: "(if side_byte s = 0 then Bid else Ask) = s"
  by (cases s) (simp_all add: side_byte_def)

lemma order_msg_eq:
  "order_msg i x = (100, to_le (oe_order_id x) @ i64_to_le (oe_price x) @ to_le (i64_as_u64 (oe_qty x)) @
     [side_byte (oe_side x)] @ [0], ucast i)"
  by (simp add: order_msg_def order_add_def)

lemma read_order_add:
  assumes "order_ok x"
  shows "read_order (msg_frame now (order_msg i x)) = Some (ucast i, x)"
proof -
  have "case_prod parse_obo (obo_bytes (order_add x)) = Some (order_add x)"
    using assms by (intro parse_obo_bytes) (simp add: order_add_def order_ok_def)
  moreover have "length (snd (obo_bytes (order_add x))) < 2 ^ 32" by (simp add: order_add_def)
  moreover have "sint (i64_as_u64 (oe_qty x)) = oe_qty x"
    using assms by (simp add: order_ok_def i64_as_u64_def sint_word_of_int_ok)
  ultimately show ?thesis
    unfolding order_msg_def read_order_def
    by (simp add: parse_build_frame order_add_def side_from_byte split: prod.splits)
qed

lemma read_order_other: "ty \<noteq> 100 \<Longrightarrow> length pl < 2 ^ 32 \<Longrightarrow> read_order (msg_frame now (ty, pl, i)) = None"
  by (simp add: read_order_def parse_build_frame parse_obo_def)

lemma msg_frames_append: "\<exists>clk'. msg_frames clk (xs @ ys) = msg_frames clk xs @ msg_frames clk' ys"
proof
  show "msg_frames clk (xs @ ys) = msg_frames clk xs @ msg_frames (\<lambda>k. clk (length xs + k)) ys"
    unfolding msg_frames_def by (rule nth_equalityI) (auto simp: nth_append nth_enumerate_eq)
qed

lemma msg_frames_Cons: "\<exists>clk'. msg_frames clk (x # xs) = msg_frame (clk 0) x # msg_frames clk' xs"
proof
  show "msg_frames clk (x # xs) = msg_frame (clk 0) x # msg_frames (\<lambda>k. clk (Suc k)) xs"
    unfolding msg_frames_def by (rule nth_equalityI) (auto simp: nth_Cons nth_enumerate_eq split: nat.splits)
qed

lemma read_adds:
  "list_all order_ok xs \<Longrightarrow> List.map_filter read_order (msg_frames clk (map (order_msg i) xs)) = map (Pair (ucast i)) xs"
proof (induction xs arbitrary: clk)
  case (Cons x xs)
  obtain clk' where "msg_frames clk (map (order_msg i) (x # xs)) =
      msg_frame (clk 0) (order_msg i x) # msg_frames clk' (map (order_msg i) xs)"
    using msg_frames_Cons [of clk "order_msg i x"] by auto
  then show ?case using Cons by (simp add: map_filter_simps read_order_add)
qed (simp add: msg_frames_def map_filter_simps)

lemma map_filter_append: "List.map_filter f (xs @ ys) = List.map_filter f xs @ List.map_filter f ys"
  by (simp add: List.map_filter_def)

lemma read_instrument:
  assumes "list_all order_ok (ie_orders ie)"
  shows "List.map_filter read_order (msg_frames clk (instrument_msgs hi ie)) = exported_orders ie"
proof -
  obtain clk' where "msg_frames clk (instrument_msgs hi ie) =
      msg_frame (clk 0) (104, snapshot_hdr_bytes \<lparr>sh_level_count = 0, sh_total_orders = word_of_nat (length (ie_orders ie))\<rparr>,
        hi (ie_instr ie)) # msg_frames clk' (map (order_msg (ie_instr ie)) (ie_orders ie))"
    using msg_frames_Cons unfolding instrument_msgs_def by blast
  then show ?thesis
    by (simp add: map_filter_simps read_order_other snapshot_hdr_bytes_def read_adds [OF assms] exported_orders_def del: msg_frame.simps)
qed

lemma read_instruments:
  "list_all (\<lambda>ie. list_all order_ok (ie_orders ie)) ies \<Longrightarrow>
   List.map_filter read_order (msg_frames clk (concat (map (instrument_msgs hi) ies) @ [(4, [], 0)])) = concat (map exported_orders ies)"
proof (induction ies arbitrary: clk)
  case Nil
  obtain clk' where "msg_frames clk [(4, [], 0)] = msg_frame (clk 0) (4, [], 0) # msg_frames clk' []" using msg_frames_Cons by blast
  then show ?case by (simp add: map_filter_simps read_order_other msg_frames_def del: msg_frame.simps)
next
  case (Cons ie ies)
  obtain clk' where "msg_frames clk (instrument_msgs hi ie @ concat (map (instrument_msgs hi) ies) @ [(4, [], 0)]) =
      msg_frames clk (instrument_msgs hi ie) @ msg_frames clk' (concat (map (instrument_msgs hi) ies) @ [(4, [], 0)])"
    using msg_frames_append by blast
  then show ?case using Cons by (simp add: map_filter_append read_instrument)
qed

text \<open>A reported gap as a client reads it.\<close>

definition gap_told :: "nat \<Rightarrow> nat \<Rightarrow> nat \<Rightarrow> bytes \<Rightarrow> bool" where
  "gap_told start cap n f \<longleftrightarrow> (\<exists>h pl. parse_frame f = Some (h, pl) \<and> fh_message_type h = 2 \<and>
     unat (from_le (take 8 pl) :: u64) = start \<and> unat (from_le (drop 8 pl) :: u64) + 1 + cap \<le> n)"

lemma gap_frame_told:
  "gap_exact start cap n (lo, hi) \<Longrightarrow> gap_told start cap n (build_frame now 2 (gap_bytes \<lparr>gap_from = lo, gap_to = hi\<rparr>) 0 0)"
  unfolding gap_told_def by (intro exI, rule conjI, rule parse_build_frame) (simp_all add: gap_bytes_def gap_exact_def)

section \<open>Properties\<close>

text \<open>
  A snapshot sent to a client can be read back: from the frames of the snapshot phase of either server, a reader of the
  documented layout recovers every order of the export with its instrument, id, price, quantity and side, in order, and nothing
  else.
\<close>

theorem snapshot_stream_roundtrip:
  assumes "export iter_idx iter_books ob = Some e" "list_all (\<lambda>ie. list_all order_ok (ie_orders ie)) (be_instruments e)"
  shows "\<exists>fs. snapshot_phase iter_idx iter_books hi clk True (Some ob) = Some fs \<and>
    List.map_filter read_order fs = concat (map exported_orders (be_instruments e))"
proof -
  obtain clk' where "msg_frames clk (snapshot_msgs hi e) =
      msg_frame (clk 0) (3, [], 0) # msg_frames clk' (concat (map (instrument_msgs hi) (be_instruments e)) @ [(4, [], 0)])"
    using msg_frames_Cons [of clk "(3, [], 0)"] unfolding snapshot_msgs_def by auto
  then have "List.map_filter read_order (msg_frames clk (snapshot_msgs hi e)) = concat (map exported_orders (be_instruments e))"
    by (simp add: map_filter_simps read_order_other read_instruments [OF assms(2)] del: msg_frame.simps)
  then show ?thesis using assms(1) by (simp add: snapshot_phase_def)
qed


text \<open>A book with two resting orders on a small grid.\<close>

definition demo_book :: "obook option" where
  "demo_book = Option.bind (apply_event first_free (ob_new_with_grid 10 False 16 1 4) (Add 1 7 100 5 Bid))
     (\<lambda>ob. apply_event first_free ob (Add 2 7 102 6 Ask))"

definition demo_export :: book_export where
  "demo_export = \<lparr>be_version = 1, be_instruments = [\<lparr>ie_instr = 7, ie_orders =
     [\<lparr>oe_order_id = 1, oe_price = 100, oe_qty = 5, oe_side = Bid\<rparr>, \<lparr>oe_order_id = 2, oe_price = 102, oe_qty = 6, oe_side = Ask\<rparr>]\<rparr>]\<rparr>"

lemma demo_book_export: "Option.bind demo_book (export (\<lambda>m. [1, 2]) (\<lambda>m. [7])) = Some demo_export"
  by code_simp


theorem snapshot_stream_roundtrip_witness:
  "\<exists>ob fs. demo_book = Some ob \<and> snapshot_phase (\<lambda>m. [1, 2]) (\<lambda>m. [7]) ws_hdr_instr (\<lambda>_. 9) True (Some ob) = Some fs \<and>
     List.map_filter read_order fs =
       [(7, \<lparr>oe_order_id = 1, oe_price = 100, oe_qty = 5, oe_side = Bid\<rparr>), (7, \<lparr>oe_order_id = 2, oe_price = 102, oe_qty = 6, oe_side = Ask\<rparr>)]"
proof -
  obtain ob where ob: "demo_book = Some ob" "export (\<lambda>m. [1, 2]) (\<lambda>m. [7]) ob = Some demo_export"
    using demo_book_export by (auto simp: bind_Some_iff)
  have ok: "list_all (\<lambda>ie. list_all order_ok (ie_orders ie)) (be_instruments demo_export)"
    by (simp add: demo_export_def order_ok_def i64_ok_def)
  show ?thesis
    using snapshot_stream_roundtrip [OF ob(2) ok, of ws_hdr_instr "\<lambda>_. 9"] ob(1)
    by (auto simp: demo_export_def exported_orders_def)
qed




end
