(* ===== verification/Tools.thy ===== *)
theory Tools
  imports Parser Pool Wire Util
begin

text \<open>
  The small programs around the engine.

  \<^item> \<open>src/src/bin/pcap_capture.rs\<close>, \<open>pcap_replay.rs\<close>: the capture file as bytes (\<open>pcap_file\<close>) and the packets replayed from a file
    (\<open>pcap_replay\<close>); pacing and the rate report are left out.
  \<^item> \<open>src/src/bin/mcast_burst.rs\<close>: the payloads it sends. \<open>burst_args\<close>, \<open>replay_args\<close>, \<open>capture_args\<close>, \<open>client_args\<close>: the command lines.
  \<^item> \<open>src/src/bin/ws_client.rs\<close>: the loop that drops duplicates.
  \<^item> \<open>src/src/bin/ingest_min.rs\<close>: the sink that recycles packets; latency metrics are left out.
\<close>

section \<open>Capture files\<close>

definition pcap_global_header :: bytes where
  "pcap_global_header = to_le (0xA1B2C3D4 :: u32) @ to_le (2 :: u16) @ to_le (4 :: u16) @ to_le (0 :: u32) @ to_le (0 :: u32) @
     to_le (65535 :: u32) @ to_le (101 :: u32)"

definition pcap_packet :: "u32 \<times> u32 \<Rightarrow> bytes \<Rightarrow> bytes" where
  "pcap_packet ts data = to_le (fst ts) @ to_le (snd ts) @ to_le (word_of_nat (length data) :: u32) @
     to_le (word_of_nat (length data) :: u32) @ data"

definition pcap_file :: "((u32 \<times> u32) \<times> bytes) list \<Rightarrow> bytes" where
  "pcap_file ps = pcap_global_header @ concat (map (\<lambda>(ts, d). pcap_packet ts d) ps)"

function replay_loop :: "bool \<Rightarrow> bytes \<Rightarrow> nat \<Rightarrow> bytes list option" where
  "replay_loop le data off =
     (if off + 16 \<le> length data then do {
        b \<leftarrow> slice data (off + 8) (off + 12);
        let incl_len = unat ((if le then from_le b else from_be b) :: u32);
        if off + 16 + incl_len > length data then Some []
        else do {
          p \<leftarrow> slice data (off + 16) (off + 16 + incl_len);
          map_option ((#) p) (replay_loop le data (off + 16 + incl_len))
        }
      }
      else Some [])"
  by pat_completeness auto

termination replay_loop
  by (relation "measure (\<lambda>(le, data, off). length data - off)") auto

declare replay_loop.simps [simp del]

text \<open>\<open>None\<close> of the outer option is a panic, of the inner one the error "pcap too small".\<close>

definition pcap_replay :: "bytes \<Rightarrow> bytes list option option" where
  "pcap_replay data =
     (if length data < 24 then Some None
      else do {
        m \<leftarrow> slice data 0 4;
        let magic = (from_le m :: u32);
        map_option Some (replay_loop (magic = 0xA1B2C3D4 \<or> magic = 0xA1B23C4D) data 24)
      })"

section \<open>Burst generator\<close>

definition burst_payload :: "nat \<Rightarrow> u64 \<Rightarrow> bytes" where
  "burst_payload payload_size i =
     (let buf = replicate payload_size 0 in if payload_size \<ge> 8 then to_be i @ drop 8 buf else buf)"

section \<open>Arguments\<close>

text \<open>
  The command lines of the tools. An argument that does not parse is an error (\<open>?\<close>), too few arguments print the usage and exit. Parsing an address belongs
  to the standard library and is an argument.
\<close>

datatype tool_error = Usage nat | Bad_Arg nat

definition arg :: "(string \<Rightarrow> 'a option) \<Rightarrow> string list \<Rightarrow> nat \<Rightarrow> ('a \<Rightarrow> tool_error + 'b) \<Rightarrow> tool_error + 'b" where
  "arg parse args i k = (case parse (args ! i) of Some x \<Rightarrow> k x | None \<Rightarrow> Inl (Bad_Arg i))"

definition nanos_per_pkt :: "u64 \<Rightarrow> u64" where
  "nanos_per_pkt pps = (if pps = 0 then 0 else 1000000000 div pps)"

definition parse_word :: "nat \<Rightarrow> string \<Rightarrow> 'a::len word option" where
  "parse_word w s = map_option word_of_nat (parse_unsigned w s)"

record 'ip burst_cfg =
  bu_group :: 'ip
  bu_port :: u16
  bu_iface :: 'ip
  bu_payload_size :: nat
  bu_packets :: u64
  bu_rate_pps :: u64

definition burst_args :: "(string \<Rightarrow> 'ip option) \<Rightarrow> string list \<Rightarrow> tool_error + 'ip burst_cfg" where
  "burst_args parse_ip args =
     (if length args < 7 then Inl (Usage 2)
      else arg parse_ip args 1 (\<lambda>group. arg (parse_word 16) args 2 (\<lambda>port. arg parse_ip args 3 (\<lambda>iface.
        arg (parse_unsigned 64) args 4 (\<lambda>payload_size. arg (parse_word 64) args 5 (\<lambda>packets. arg (parse_word 64) args 6 (\<lambda>rate_pps.
        Inr \<lparr>bu_group = group, bu_port = port, bu_iface = iface, bu_payload_size = payload_size, bu_packets = packets,
          bu_rate_pps = rate_pps\<rparr>)))))))"

definition burst_sends :: "'ip burst_cfg \<Rightarrow> bytes list" where
  "burst_sends c = map (\<lambda>i. burst_payload (bu_payload_size c) (word_of_nat i)) [0..<unat (bu_packets c)]"

record 'ip replay_cfg =
  rp_path :: string
  rp_group :: 'ip
  rp_port :: u16
  rp_iface :: 'ip
  rp_nanos_per_pkt :: u64
  rp_report_ms :: u64

definition replay_args :: "(string \<Rightarrow> 'ip option) \<Rightarrow> string list \<Rightarrow> tool_error + 'ip replay_cfg" where
  "replay_args parse_ip args =
     (if length args < 6 then Inl (Usage 2)
      else arg parse_ip args 2 (\<lambda>group. arg (parse_word 16) args 3 (\<lambda>port. arg parse_ip args 4 (\<lambda>iface. arg (parse_word 64) args 5 (\<lambda>pps.
        Inr \<lparr>rp_path = args ! 1, rp_group = group, rp_port = port, rp_iface = iface, rp_nanos_per_pkt = nanos_per_pkt pps,
          rp_report_ms = (if length args > 6 then (case parse_word 64 (args ! 6) of Some ms \<Rightarrow> ms | None \<Rightarrow> 1000) else 1000)\<rparr>)))))"

record 'ip capture_cfg =
  ca_group :: 'ip
  ca_port :: u16
  ca_iface :: 'ip
  ca_out :: string
  ca_seconds :: u64

definition capture_args :: "(string \<Rightarrow> 'ip option) \<Rightarrow> string list \<Rightarrow> tool_error + 'ip capture_cfg" where
  "capture_args parse_ip args =
     (if length args < 6 then Inl (Usage 2)
      else arg parse_ip args 1 (\<lambda>group. arg (parse_word 16) args 2 (\<lambda>port. arg parse_ip args 3 (\<lambda>iface. arg (parse_word 64) args 5 (\<lambda>seconds.
        Inr \<lparr>ca_group = group, ca_port = port, ca_iface = iface, ca_out = args ! 4, ca_seconds = seconds\<rparr>)))))"

record client_cfg =
  cl_url_a :: string
  cl_url_b :: string
  cl_auth :: "string option"

definition client_args :: "string list \<Rightarrow> tool_error + client_cfg" where
  "client_args args =
     (if length args < 3 then Inl (Usage 1)
      else Inr \<lparr>cl_url_a = args ! 1, cl_url_b = args ! 2, cl_auth = (if length args > 3 then Some (args ! 3) else None)\<rparr>)"

section \<open>Sample client\<close>

text \<open>The header a connection is opened with, and what it forwards: the binary messages, up to the first error.\<close>

definition client_headers :: "string option \<Rightarrow> (string \<times> string) list" where
  "client_headers auth = (case auth of Some tok \<Rightarrow> [(''Authorization'', ''Bearer '' @ tok)] | None \<Rightarrow> [])"

datatype ws_msg = Binary bytes | Other_Msg

fun forward_frames :: "ws_msg option list \<Rightarrow> bytes list" where
  "forward_frames (Some (Binary b) # ms) = b # forward_frames ms"
| "forward_frames (Some Other_Msg # ms) = forward_frames ms"
| "forward_frames _ = []"



text \<open>The last sequence number per instrument, and what is printed.\<close>

definition client_step :: "bytes \<Rightarrow> (u64 \<Rightarrow> u64 option) \<Rightarrow> (u64 \<Rightarrow> u64 option) \<times> (u64 \<times> u64 \<times> u16) list" where
  "client_step frame last_seq = (case client_fields frame of
     None \<Rightarrow> (last_seq, [])
   | Some (instr, sq, mtype) \<Rightarrow>
       let e = (case last_seq instr of Some e \<Rightarrow> e | None \<Rightarrow> 0) in
       if sq \<le> e then (last_seq(instr \<mapsto> e), [])
       else (last_seq(instr \<mapsto> sq), [(instr, sq, mtype)]))"

section \<open>Minimal sink\<close>

definition sink_iter :: "('q \<Rightarrow> bytes \<Rightarrow> 'q \<times> (bytes + unit)) \<Rightarrow> (u64 \<Rightarrow> u8) \<Rightarrow> pkt option \<Rightarrow> 'q pool \<times> u32 \<Rightarrow> ('q pool \<times> u32) option" where
  "sink_iter push mem popped st = (case popped of
     Some p \<Rightarrow> map_option (\<lambda>_. (recycle push p (fst st), 0)) (payload mem p)
   | None \<Rightarrow> Some (fst st, adaptive_wait (snd st)))"

section \<open>Laws\<close>

lemma replay_packet:
  assumes "length d < 2 ^ 32"
  shows "replay_loop True (pre @ pcap_packet ts d @ rest) (length pre) =
    map_option ((#) d) (replay_loop True (pre @ pcap_packet ts d @ rest) (length (pre @ pcap_packet ts d)))"
proof -
  let ?data = "pre @ pcap_packet ts d @ rest"
  have len: "unat (word_of_nat (length d) :: u32) = length d" using assms by (simp add: unat_of_nat take_bit_eq_mod)
  have "slice ?data (length pre + 8) (length pre + 12) = Some (to_le (word_of_nat (length d) :: u32))"
    by (simp add: slice_def pcap_packet_def)
  moreover have "slice ?data (length pre + 16) (length pre + 16 + length d) = Some d"
    by (simp add: slice_def pcap_packet_def)
  moreover have "length (pre @ pcap_packet ts d) = length pre + 16 + length d" "length ?data = length pre + 16 + length d + length rest"
    by (simp_all add: pcap_packet_def)
  ultimately show ?thesis using len by (subst replay_loop.simps) (simp del: length_append)
qed

lemma replay_packets:
  "list_all (\<lambda>(ts, d). length d < 2 ^ 32) ps \<Longrightarrow>
   replay_loop True (pre @ concat (map (\<lambda>(ts, d). pcap_packet ts d) ps)) (length pre) = Some (map snd ps)"
proof (induction ps arbitrary: pre)
  case Nil
  then show ?case by (subst replay_loop.simps) simp
next
  case (Cons p ps)
  obtain ts d where p: "p = (ts, d)" by (cases p)
  show ?case
    using Cons.IH [of "pre @ pcap_packet ts d"] Cons.prems
      replay_packet [of d pre ts "concat (map (\<lambda>(ts, d). pcap_packet ts d) ps)"] p by simp
qed

lemma pcap_global_header_length: "length pcap_global_header = 24"
  by (simp add: pcap_global_header_def)

section \<open>Properties\<close>

text \<open>
  Replaying a capture file sends exactly the captured datagrams, in order: the reader finds every packet the writer wrote,
  whatever its bytes, and stops at the end of the file.
\<close>

theorem pcap_roundtrip:
  assumes "list_all (\<lambda>(ts, d). length d < 2 ^ 32) ps"
  shows "pcap_replay (pcap_file ps) = Some (Some (map snd ps))"
proof -
  have m: "slice (pcap_file ps) 0 4 = Some (to_le (0xA1B2C3D4 :: u32))"
    by (simp add: slice_def pcap_file_def pcap_global_header_def)
  have "replay_loop True (pcap_file ps) 24 = Some (map snd ps)"
    using replay_packets [OF assms, of pcap_global_header] by (simp add: pcap_file_def pcap_global_header_length)
  then show ?thesis by (simp add: pcap_replay_def m) (simp add: pcap_file_def pcap_global_header_length)
qed

text \<open>A run of the burst generator sends the numbers \<open>0, 1, ...\<close> where the receiver looks for the sequence number.\<close>

theorem burst_run:
  assumes "burst_args parse_ip args = Inr c" "8 \<le> bu_payload_size c"
  shows "map (extract_seq \<lparr>sc_offset = 0, sc_length = 8, sc_endian = Be\<rparr>) (burst_sends c) =
    map (\<lambda>i. Some (Some (word_of_nat i))) [0..<unat (bu_packets c)]"
  using assms(2) by (simp add: burst_sends_def extract_seq_def burst_payload_def slice_def Let_def)

text \<open>The burst generator's payloads carry their index where the receiver looks for the sequence number.\<close>

theorem burst_sequence:
  "payload_size \<ge> 8 \<Longrightarrow>
   extract_seq \<lparr>sc_offset = 0, sc_length = 8, sc_endian = Be\<rparr> (burst_payload payload_size i) = Some (Some i)"
  by (simp add: extract_seq_def burst_payload_def slice_def Let_def)

end
