(* ===== verification/Metrics.thy ===== *)
theory Metrics
  imports Complex_Main Pool
begin

text \<open>
  Monitoring, \<open>src/src/metrics.rs\<close>: the metrics with their names, kinds, labels and buckets, what each function of the module does to them, the
  queue gauges with their high-water marks and the routes of the HTTP endpoint.

  \<^item> \<open>metric_desc\<close>, \<open>all_metrics\<close>: the static declarations. Creating one panics (\<open>expect\<close>) on a name the \<open>prometheus\<close> crate does not accept or on
    buckets that do not increase; registering one under a name already taken is silently ignored (\<open>ok\<close>).
  \<^item> \<open>metric_op\<close>, \<open>updates\<close>: the module's functions, as the updates they make. \<open>with_label_values\<close> panics when the number of labels is wrong.
    Latencies are kept in nanoseconds; the code divides them by \<open>10 ^ 9\<close> in floating point.
  \<^item> \<open>set_queue_len\<close>, \<open>http_route\<close>: queue gauges and routes. The text format belongs to another library.
\<close>

section \<open>Declarations\<close>

datatype metric_kind =
    Int_Counter
  | Int_Counter_Vec "string list"
  | Int_Gauge
  | Int_Gauge_Vec "string list"
  | Histo "rat list"

type_synonym metric_desc = "string \<times> metric_kind"

definition rx_metrics :: "metric_desc list" where
  "rx_metrics = [
     (''rx_packets'', Int_Counter_Vec [''chan'']),
     (''rx_bytes'', Int_Counter_Vec [''chan'']),
     (''rx_drops'', Int_Counter_Vec [''chan''])]"

definition merge_metrics :: "metric_desc list" where
  "merge_metrics = [
     (''merge_duplicates'', Int_Counter),
     (''merge_gaps'', Int_Counter),
     (''merge_out_of_order'', Int_Counter),
     (''merge_forward_packets'', Int_Counter_Vec [''chan'']),
     (''merge_gaps_by_chan'', Int_Counter_Vec [''chan'']),
     (''merge_failovers'', Int_Counter),
     (''merge_preferred_is_a'', Int_Gauge)]"

definition decode_metrics :: "metric_desc list" where
  "decode_metrics = [
     (''decode_packets'', Int_Counter),
     (''decode_messages'', Int_Counter),
     (''book_live_orders'', Int_Gauge)]"

text \<open>Bucket bounds in seconds.\<close>

definition e2e_buckets :: "rat list" where
  "e2e_buckets = [1 / 10 ^ 7, 2 / 10 ^ 7, 5 / 10 ^ 7, 1 / 10 ^ 6, 2 / 10 ^ 6, 5 / 10 ^ 6, 1 / 10 ^ 5, 2 / 10 ^ 5, 5 / 10 ^ 5, 1 / 10 ^ 4]"

definition stage_buckets :: "rat list" where
  "stage_buckets = [1 / 10 ^ 7, 2 / 10 ^ 7, 5 / 10 ^ 7, 1 / 10 ^ 6, 2 / 10 ^ 6, 5 / 10 ^ 6, 1 / 10 ^ 5, 2 / 10 ^ 5]"

definition latency_metrics :: "metric_desc list" where
  "latency_metrics = [
     (''e2e_latency_seconds'', Histo e2e_buckets),
     (''e2e_latency_seconds_sw'', Histo e2e_buckets),
     (''e2e_latency_seconds_hw_sys'', Histo e2e_buckets),
     (''e2e_latency_seconds_hw_raw'', Histo e2e_buckets),
     (''stage_rx_to_merge_seconds'', Histo stage_buckets),
     (''stage_merge_to_decode_seconds'', Histo stage_buckets)]"

definition queue_metrics :: "metric_desc list" where
  "queue_metrics = [
     (''queue_len'', Int_Gauge_Vec [''queue'']),
     (''queue_hwm'', Int_Gauge_Vec [''queue''])]"

definition out_metrics :: "metric_desc list" where
  "out_metrics = [
     (''ws_clients'', Int_Gauge),
     (''out_frames_total'', Int_Counter),
     (''out_bytes_total'', Int_Counter),
     (''dropped_clients_total'', Int_Counter)]"

definition all_metrics :: "metric_desc list" where
  "all_metrics = rx_metrics @ merge_metrics @ decode_metrics @ latency_metrics @ queue_metrics @ out_metrics"

text \<open>The names Prometheus accepts, and increasing buckets.\<close>

definition name_start :: "char \<Rightarrow> bool" where
  "name_start ch \<longleftrightarrow> (let n = (of_char ch :: nat) in 65 \<le> n \<and> n \<le> 90 \<or> 97 \<le> n \<and> n \<le> 122 \<or> n = 95 \<or> n = 58)"

definition name_char :: "char \<Rightarrow> bool" where
  "name_char ch \<longleftrightarrow> name_start ch \<or> (let n = (of_char ch :: nat) in 48 \<le> n \<and> n \<le> 57)"

definition metric_ok :: "metric_desc \<Rightarrow> bool" where
  "metric_ok d \<longleftrightarrow> fst d \<noteq> [] \<and> name_start (hd (fst d)) \<and> list_all name_char (fst d) \<and>
     (case snd d of Histo bs \<Rightarrow> bs \<noteq> [] \<and> sorted_wrt (<) bs | _ \<Rightarrow> True)"

text \<open>Registration: a second metric with the same name is ignored.\<close>

definition register :: "metric_desc \<Rightarrow> metric_desc list \<Rightarrow> metric_desc list" where
  "register d reg = (if fst d \<in> fst ` set reg then reg else reg @ [d])"

section \<open>Updates\<close>

datatype metric_update = Inc_By u64 | Set_To i64 | Add_To i64 | Observe u64

datatype metric_op =
    Inc_Rx string nat
  | Inc_Rx_Drop string
  | Inc_Merge_Dup
  | Inc_Merge_Gap
  | Inc_Merge_Ooo
  | Inc_Merge_Forward_Chan string
  | Inc_Merge_Gap_Chan string
  | Inc_Merge_Failover
  | Set_Merge_Preferred_Is_A bool
  | Inc_Decode_Pkts
  | Inc_Decode_Msgs u64
  | Set_Live_Orders nat
  | Observe_Latency_Ns u64
  | Observe_Latency_By_Kind_Ns ts_kind u64
  | Observe_Stage_Rx_To_Merge_Ns u64
  | Observe_Stage_Merge_To_Decode_Ns u64
  | Inc_Ws_Clients i64
  | Inc_Out_Frames
  | Inc_Out_Bytes nat
  | Inc_Dropped_Clients

fun kind_histogram :: "ts_kind \<Rightarrow> string" where
  "kind_histogram Ts_HwSys = ''e2e_latency_seconds_hw_sys''"
| "kind_histogram Ts_HwRaw = ''e2e_latency_seconds_hw_raw''"
| "kind_histogram _ = ''e2e_latency_seconds_sw''"

fun updates :: "metric_op \<Rightarrow> (string \<times> string list \<times> metric_update) list" where
  "updates (Inc_Rx chan bytes) = [(''rx_packets'', [chan], Inc_By 1), (''rx_bytes'', [chan], Inc_By (word_of_nat bytes))]"
| "updates (Inc_Rx_Drop chan) = [(''rx_drops'', [chan], Inc_By 1)]"
| "updates Inc_Merge_Dup = [(''merge_duplicates'', [], Inc_By 1)]"
| "updates Inc_Merge_Gap = [(''merge_gaps'', [], Inc_By 1)]"
| "updates Inc_Merge_Ooo = [(''merge_out_of_order'', [], Inc_By 1)]"
| "updates (Inc_Merge_Forward_Chan chan) = [(''merge_forward_packets'', [chan], Inc_By 1)]"
| "updates (Inc_Merge_Gap_Chan chan) = [(''merge_gaps_by_chan'', [chan], Inc_By 1)]"
| "updates Inc_Merge_Failover = [(''merge_failovers'', [], Inc_By 1)]"
| "updates (Set_Merge_Preferred_Is_A is_a) = [(''merge_preferred_is_a'', [], Set_To (if is_a then 1 else 0))]"
| "updates Inc_Decode_Pkts = [(''decode_packets'', [], Inc_By 1)]"
| "updates (Inc_Decode_Msgs n) = [(''decode_messages'', [], Inc_By n)]"
| "updates (Set_Live_Orders n) = [(''book_live_orders'', [], Set_To (i64_wrap (int n)))]"
| "updates (Observe_Latency_Ns ns) = [(''e2e_latency_seconds'', [], Observe ns)]"
| "updates (Observe_Latency_By_Kind_Ns kind ns) = [(kind_histogram kind, [], Observe ns)]"
| "updates (Observe_Stage_Rx_To_Merge_Ns ns) = [(''stage_rx_to_merge_seconds'', [], Observe ns)]"
| "updates (Observe_Stage_Merge_To_Decode_Ns ns) = [(''stage_merge_to_decode_seconds'', [], Observe ns)]"
| "updates (Inc_Ws_Clients delta) = [(''ws_clients'', [], Add_To delta)]"
| "updates Inc_Out_Frames = [(''out_frames_total'', [], Inc_By 1)]"
| "updates (Inc_Out_Bytes n) = [(''out_bytes_total'', [], Inc_By (word_of_nat n))]"
| "updates Inc_Dropped_Clients = [(''dropped_clients_total'', [], Inc_By 1)]"

text \<open>Whether an update fits a declaration: its kind and its number of labels.\<close>

fun update_fits :: "metric_kind \<Rightarrow> string list \<times> metric_update \<Rightarrow> bool" where
  "update_fits Int_Counter (ls, Inc_By _) \<longleftrightarrow> ls = []"
| "update_fits (Int_Counter_Vec names) (ls, Inc_By _) \<longleftrightarrow> length ls = length names"
| "update_fits Int_Gauge (ls, Set_To _) \<longleftrightarrow> ls = []"
| "update_fits Int_Gauge (ls, Add_To _) \<longleftrightarrow> ls = []"
| "update_fits (Int_Gauge_Vec names) (ls, Set_To _) \<longleftrightarrow> length ls = length names"
| "update_fits (Histo _) (ls, Observe _) \<longleftrightarrow> ls = []"
| "update_fits _ _ \<longleftrightarrow> False"

text \<open>The counters; they wrap around.\<close>

definition counter_update :: "string \<times> string list \<times> metric_update \<Rightarrow> (string \<times> string list \<Rightarrow> u64) \<Rightarrow> string \<times> string list \<Rightarrow> u64" where
  "counter_update u m = (case u of (name, ls, Inc_By n) \<Rightarrow> m((name, ls) := m (name, ls) + n) | _ \<Rightarrow> m)"

definition counters_after :: "metric_op list \<Rightarrow> string \<times> string list \<Rightarrow> u64" where
  "counters_after ops = fold counter_update (concat (map updates ops)) (\<lambda>_. 0)"

section \<open>Queue gauges and the HTTP endpoint\<close>

record gauges =
  ga_len :: "string \<Rightarrow> i64 option"
  ga_hwm :: "string \<Rightarrow> i64 option"
  ga_track :: "string \<Rightarrow> i64 option"

definition set_queue_len :: "string \<Rightarrow> nat \<Rightarrow> gauges \<Rightarrow> gauges" where
  "set_queue_len queue len g =
     (let v = i64_wrap (int len);
          e = (case ga_track g queue of Some e \<Rightarrow> e | None \<Rightarrow> 0);
          g = g\<lparr>ga_len := (ga_len g)(queue \<mapsto> v)\<rparr>
      in if e < v then g\<lparr>ga_track := (ga_track g)(queue \<mapsto> v), ga_hwm := (ga_hwm g)(queue \<mapsto> v)\<rparr>
         else g\<lparr>ga_track := (ga_track g)(queue \<mapsto> e)\<rparr>)"

text \<open>
  A request: status, body and whether the server stops. The trigger is the channel's state if there is one; \<open>try_send\<close> says whether
  the message was taken.
\<close>

definition http_route ::
  "('c \<Rightarrow> 'c \<times> bool) \<Rightarrow> bytes \<Rightarrow> string \<Rightarrow> 'c option \<Rightarrow> 'c option \<times> nat \<times> bytes \<times> bool" where
  "http_route try_send metrics url trigger =
     (if url = ''/metrics'' then (trigger, 200, metrics, False)
      else if url = ''/snapshot'' then
        (case trigger of
           Some tx \<Rightarrow> (Some (fst (try_send tx)), 202, [], False)
         | None \<Rightarrow> (None, 503, [], False))
      else if url = ''/live'' \<or> url = ''/healthz'' then (trigger, 200, map (\<lambda>c. of_char c) ''OK'', False)
      else if url = ''/ready'' then (trigger, 200, map (\<lambda>c. of_char c) ''READY'', False)
      else if url = ''/shutdown'' then (trigger, 200, map (\<lambda>c. of_char c) ''BYE'', True)
      else (trigger, 404, [], False))"

text \<open>The address to listen on, and the loop over requests: an error of the server is skipped, \<open>/shutdown\<close> ends it.\<close>

definition metrics_addr :: "('a \<Rightarrow> string option) \<Rightarrow> 'a \<Rightarrow> string" where
  "metrics_addr resolve addr = (case resolve addr of Some s \<Rightarrow> s | None \<Rightarrow> ''0.0.0.0:9090'')"

fun http_run :: "('c \<Rightarrow> 'c \<times> bool) \<Rightarrow> bytes \<Rightarrow> string option list \<Rightarrow> 'c option \<Rightarrow> (nat \<times> bytes) list \<times> 'c option" where
  "http_run try_send metrics [] trigger = ([], trigger)"
| "http_run try_send metrics (None # urls) trigger = http_run try_send metrics urls trigger"
| "http_run try_send metrics (Some url # urls) trigger =
     (case http_route try_send metrics url trigger of
        (trigger, status, body, stop) \<Rightarrow>
          if stop then ([(status, body)], trigger)
          else (case http_run try_send metrics urls trigger of (rs, trigger) \<Rightarrow> ((status, body) # rs, trigger)))"

section \<open>Laws\<close>

text \<open>The request \<open>main\<close> sends at the end stops the server, whatever follows it.\<close>

lemma shutdown_request_stops: "http_run try_send metrics (Some ''/shutdown'' # urls) trigger = ([(200, map (\<lambda>c. of_char c) ''BYE'')], trigger)"
  by (simp add: http_route_def)

lemmas declared = all_metrics_def rx_metrics_def merge_metrics_def decode_metrics_def latency_metrics_def queue_metrics_def out_metrics_def

lemma kind_declared: "map_of all_metrics (kind_histogram kind) = Some (Histo e2e_buckets)"
  by (cases kind) (simp_all add: declared)

lemma counter_total:
  "fold counter_update us m k = m k + sum_list (map (\<lambda>(name, ls, u). case u of Inc_By n \<Rightarrow> if (name, ls) = k then n else 0 | _ \<Rightarrow> 0) us)"
  by (induction us arbitrary: m) (auto simp: counter_update_def split: metric_update.splits)

text \<open>The high-water mark of a queue is the largest length ever reported for it.\<close>

theorem queue_hwm_is_max:
  assumes "list_all (\<lambda>n. n < 2 ^ 63) (n # ns)"
  shows "ga_track (fold (set_queue_len q) (n # ns) \<lparr>ga_len = \<lambda>_. None, ga_hwm = \<lambda>_. None, ga_track = \<lambda>_. None\<rparr>) q =
    Some (int (Max (set (n # ns))))"
proof -
  have w: "i64_wrap (int k) = int k" if "k < 2 ^ 63" for k
    using that by (intro i64_wrap_id) (simp add: i64_ok_def)
  have "ga_track (fold (set_queue_len q) xs g) q = Some (int (Max (set (k # xs))))"
    if "ga_track g q = Some (int k)" "list_all (\<lambda>n. n < 2 ^ 63) xs" for xs g k
    using that
  proof (induction xs arbitrary: g k)
    case (Cons x xs)
    have "ga_track (set_queue_len q x g) q = Some (int (max k x))"
      using Cons.prems w [of x] by (auto simp: set_queue_len_def Let_def max_def)
    from Cons.IH [OF this] show ?case using Cons.prems(2)
      by (cases "xs = []") (simp_all add: max.assoc)
  qed simp
  moreover have "ga_track (set_queue_len q n \<lparr>ga_len = \<lambda>_. None, ga_hwm = \<lambda>_. None, ga_track = \<lambda>_. None\<rparr>) q = Some (int n)"
    using assms w [of n] by (auto simp: set_queue_len_def Let_def)
  ultimately show ?thesis using assms by simp
qed

text \<open>
  A snapshot request is answered 202 although the trigger was refused: the outcome of \<open>try_send\<close> is never looked at.
\<close>

theorem snapshot_request_lies:
  "http_route (\<lambda>tx. (tx, False)) metrics ''/snapshot'' (Some tx) = (Some tx, 202, [], False)"
  by (simp add: http_route_def)

text \<open>
  The metrics are declared consistently: every declaration is one the library accepts, so none panics; the names are pairwise different, so
  every metric is registered and exported; and each function of the module updates declared metrics only, of the right kind and with the right number
  of labels, so no update panics. The packet and byte counters of a channel are the number and the total size of what was received on it.
\<close>

theorem metrics_consistent:
  "list_all metric_ok all_metrics \<and> fold register all_metrics [] = all_metrics \<and>
   list_all (\<lambda>(name, u). \<exists>k. map_of all_metrics name = Some k \<and> update_fits k u) (updates op) \<and>
   counters_after ops (''rx_packets'', [chan]) = word_of_nat (length (filter (\<lambda>op. \<exists>n. op = Inc_Rx chan n) ops)) \<and>
   counters_after ops (''rx_bytes'', [chan]) = word_of_nat (sum_list (map (\<lambda>op. case op of Inc_Rx c n \<Rightarrow> if c = chan then n else 0 | _ \<Rightarrow> 0) ops))"
proof (intro conjI)
  show "list_all metric_ok all_metrics" by code_simp
  show "fold register all_metrics [] = all_metrics" by code_simp
  show "list_all (\<lambda>(name, u). \<exists>k. map_of all_metrics name = Some k \<and> update_fits k u) (updates op)"
  proof (cases op)
    case (Observe_Latency_By_Kind_Ns kind ns)
    then show ?thesis by (simp add: kind_declared)
  qed (simp_all add: declared)
  have "(\<Sum>(name, ls, u)\<leftarrow>updates op. case u of Inc_By n \<Rightarrow> if (name, ls) = (''rx_packets'', [chan]) then n else 0 | _ \<Rightarrow> 0) =
      (if \<exists>n. op = Inc_Rx chan n then 1 else 0)" for op by (cases op) auto
  then show "counters_after ops (''rx_packets'', [chan]) = word_of_nat (length (filter (\<lambda>op. \<exists>n. op = Inc_Rx chan n) ops))"
    unfolding counters_after_def counter_total by (induction ops) auto
  have "(\<Sum>(name, ls, u)\<leftarrow>updates op. case u of Inc_By n \<Rightarrow> if (name, ls) = (''rx_bytes'', [chan]) then n else 0 | _ \<Rightarrow> 0) =
      word_of_nat (case op of Inc_Rx c n \<Rightarrow> if c = chan then n else 0 | _ \<Rightarrow> 0)" for op by (cases op) auto
  then show "counters_after ops (''rx_bytes'', [chan]) = word_of_nat (sum_list (map (\<lambda>op. case op of Inc_Rx c n \<Rightarrow> if c = chan then n else 0 | _ \<Rightarrow> 0) ops))"
    unfolding counters_after_def counter_total by (induction ops) auto
qed

end
