(* ===== verification/Spec2Isabelle.thy ===== *)
theory Spec2Isabelle
  imports Pipeline Sockets Shutdown Bench Feed_Server Tools Metrics
begin

text \<open>
  Verification library for the Numi order book engine (\<open>src/src\<close>), a market data pipeline: packets of two redundant
  multicast lines are received, put in order, decoded and applied to limit order books, and the changes are published to clients.

  \<^bold>\<open>The program.\<close> Threads connected by bounded queues. Receive threads (\<open>rx.rs\<close>, or \<open>rx_afxdp.rs\<close> on a packet ring) read
  datagrams into pooled buffers (\<open>pool.rs\<close>), extract a sequence number (\<open>parser.rs\<close>) and push packets into lock-free rings (\<open>spsc.rs\<close>). The
  arbiter (\<open>merge.rs\<close>) takes packets of both lines and of the recovery client (\<open>recovery.rs\<close>), drops duplicates, buffers what is
  early, reports gaps and forwards one ordered stream. The decode stage (\<open>decode.rs\<close>) turns payloads into events
  (\<open>decoder_eobi.rs\<close>, \<open>decoder_itch.rs\<close>, \<open>decoder_fast.rs\<close>), applies them to the book (\<open>orderbook.rs\<close>), publishes order-by-order frames
  (\<open>obo.rs\<close>, \<open>codec_raw.rs\<close>, \<open>pubsub.rs\<close>) and exports snapshots (\<open>snapshot.rs\<close>); servers (\<open>ws_server.rs\<close>, \<open>h3_server.rs\<close>) stream both to
  clients. \<open>config.rs\<close> and \<open>main.rs\<close> set everything up, \<open>net.rs\<close> opens the sockets, \<open>metrics.rs\<close> monitors. A benchmark and a few tools (\<open>bin\<close>) come
  with the engine.

  \<^bold>\<open>Conventions.\<close> Unsigned machine integers are words, \<open>i64\<close> prices and quantities are integers with explicit wrap-around, counts and
  indices are naturals (\<open>Prelude\<close>). A panic is \<open>None\<close> of an outer option, an error value \<open>Inl\<close> or a constructor of an error type. State is passed
  explicitly, one record per component with the fields of the struct or the loop's variables. What the surroundings do
  (the kernel, the clock, the other end of a queue, the server behind a socket) and what other libraries compute
  (slab keys, hash map iteration order, \<open>ArrayQueue\<close>, \<open>bincode\<close>, TOML, URLs, channels) are arguments; the laws relied on are
  hypotheses with the names \<open>slab_alloc\<close>, \<open>hm_iter\<close>, \<open>bounded_fifo\<close>, or written out. Metrics counters and log lines are left out.

  \<^bold>\<open>Theories.\<close>

  \<^item> \<open>Prelude\<close>, \<open>Btree_Map\<close>, \<open>Bytes\<close>, \<open>Util\<close>: machine integers, ordered maps, byte strings, strings and \<open>util.rs\<close> (idle escalation,
    CPU lists).
  \<^item> \<open>Market_Event\<close>, \<open>Price_Ranking\<close>: \<open>Side\<close> and \<open>Event\<close>; the interface of a price order, interpreted for bids and asks.
  \<^item> \<open>Level_Queue\<close>: nodes, doubly linked levels and their iteration; \<open>dseg\<close> relates the links to a list.
  \<^item> \<open>Price_Grid\<close>, \<open>Side_Levels\<close>: the tick-addressed window, its recentering, and the overflow map of one side.
  \<^item> \<open>Book_Spec\<close>: the abstract book, a list of orders in arrival order; \<open>levels_rel\<close> relates it to grid, overflow and slab.
  \<^item> \<open>Instrument_Book\<close>, \<open>Book_Queries\<close>: \<open>InstrumentBook\<close>: \<open>add\<close>, \<open>set_qty\<close>, \<open>cancel\<close>, best prices, \<open>top_n\<close>, iteration.
  \<^item> \<open>Order_Book\<close>, \<open>Window_Safety\<close>: \<open>OrderBook\<close>: \<open>apply\<close>, \<open>apply_many_for_instr\<close>; every event simulates the abstract one, and no stream
    with prices in bands narrower than the window panics.
  \<^item> \<open>Book_Export\<close>, \<open>Snapshot\<close>: export and import of books; snapshot files, their atomic replacement and the restart from them.
  \<^item> \<open>Decoder_Eobi\<close>, \<open>Decoder_Itch\<close>, \<open>Decoder_Fast\<close>, \<open>Parser\<close>: the decoders with encoders as specification; the interface
    \<open>message_decoder\<close>, interpreted for the decoders and for the parser; sequence extraction.
  \<^item> \<open>Spsc\<close>, \<open>Pool\<close>: the ring as a sequential queue and as an interleaving of its shared accesses; the interface \<open>bounded_fifo\<close>, interpreted
    for the ring and used by pool, receivers and recovery.
  \<^item> \<open>Merge\<close>, \<open>Merge_Order\<close>, \<open>Merge_Spec\<close>, \<open>Merge_Live\<close>: the arbiter's loop; order of its output in every run; refinement of an abstract
    reassembler; that it forwards every block that arrives, however the arrivals and its iterations interleave.
  \<^item> \<open>Rx\<close>, \<open>Rx_Afxdp\<close>, \<open>Recovery\<close>: the receivers and the replay client. \<open>Sockets\<close>: opening multicast sockets and the packet ring, as
    sequences of system calls.
  \<^item> \<open>Wire\<close>, \<open>Pubsub\<close>, \<open>Decode\<close>, \<open>Feed_Server\<close>: the outbound format, the bus, the decode stage, client connections.
  \<^item> \<open>Config\<close>: the configuration, its validation and the parameters \<open>main\<close> derives. \<open>Wiring\<close>: the threads \<open>main\<close> starts, their cores and
    queues. \<open>Shutdown\<close>: the end of \<open>main\<close> as a state machine over threads, channels and the shutdown flag.
  \<^item> \<open>Metrics\<close>: the metrics, their updates and the HTTP endpoint. \<open>Tools\<close>: capture files, burst generator, sample client, minimal sink and their command
    lines. \<open>Bench\<close>: the benchmark's workload and the book it leaves.
  \<^item> \<open>Pipeline\<close>: arbiter and decode stage together.

  \<^bold>\<open>What is shown.\<close> \<open>Pipeline.feed_to_book\<close> is the statement about the whole path: packets of a block that arrive on redundant
  lines or from recovery, in any order, on any worker, any number of times and interleaved in any way with the arbiter's iterations, lead
  after finitely many iterations to the abstract price-time book of their events in sequence order. It rests on the
  refinements of the book (\<open>Order_Book\<close>, \<open>Window_Safety\<close>), of the arbiter (\<open>Merge_Spec\<close>, \<open>Merge_Live\<close>) and of the decode stage (\<open>Decode\<close>). Beside it: the
  ring is a FIFO without data races, and \<open>main\<close> gives every ring one producer and one consumer; receivers conserve packets; decoders invert their encoders and never panic (FAST:
  unless a length field is near \<open>2 ^ 64\<close>); frames can be read back; subscribers get gapless stretches; a restart recovers the last
  complete snapshot; a configuration that loads makes every stage well-formed. Where the code does not do what it
  means to, a theorem states what it does: prices that return after a recentering get a second level, cancels
  are announced for instrument 0, idle polling drains the pool, the adaptive window outgrows its ring, waiting gaps are never
  requested, the program never shuts down cleanly, the halves of the fanout argument are swapped, and others.

  \<^bold>\<open>Bounds and termination.\<close> All loops over data are total functions: the decoders, \<open>fetch_loop\<close> and \<open>replay_loop\<close> by the length of
  the rest of the input, \<open>drain\<close> by the number of occupied slots, \<open>recover_loop\<close> by its bound of 32 packets. A level's iteration
  (\<open>iter_from\<close>), \<open>push_blocking\<close> and \<open>forward_push\<close> may run forever; they are partial functions, and it is proved when they return (\<open>forward_push\<close>:
  and when it never does). The loops of the
  threads run until shutdown and are modelled by their iterations (\<open>merge_run\<close>, \<open>decode_run\<close>, \<open>rx_run\<close>, \<open>afxdp_run\<close>, \<open>run_injector\<close>,
  \<open>run_writer\<close>). Statements on sequence numbers and global frame numbers hold up to \<open>2 ^ 64\<close>.

  \<^bold>\<open>Not modelled.\<close> What other libraries and the operating system do: TLS, QUIC and WebSocket handshakes, accepting connections, the prometheus
  registry and text format, the allocator (\<open>alloc.rs\<close>), scheduling and the effect of system calls. Log lines, the pacing and the printed
  statistics of the tools and the benchmark, and the metrics calls inside the stages have no effect on what is modelled. Memory orderings weaker than
  sequential consistency are not distinguished in \<open>Spsc\<close>.
\<close>

end
